(* ===== verification/Prelude.thy ===== *)
theory Prelude
  imports Main "HOL-Library.Word" "HOL-Library.Sublist"
begin

text \<open>
  The vocabulary the component theories share: the faults a C++ operation can
  end in, the conversions between the machine integers the program uses, the members of
  \<open>std::string\<close> and the conversions of the standard library it calls (\<open>find\<close>,
  \<open>find_last_of\<close>, \<open>std::to_string\<close>), iterator ranges, and the generic lemmas on them.
  A \<open>std::string\<close> is an Isabelle \<open>string\<close>: both are finite sequences of 8-bit characters.
\<close>

named_theorems range_simps \<open>reading a valid iterator range\<close>
named_theorems fault_simps \<open>sequencing of operations that may fault\<close>

section \<open>Faults and sequencing\<close>

text \<open>
  What stops a C++ operation: an iterator read or an iterator range outside its string (undefined
  behaviour), a signed overflow (undefined behaviour), a function that ends without the
  \<open>return\<close> it owes (undefined behaviour), an exception of the standard library, a failed
  \<open>assert\<close>, or an allocation that failed.
\<close>

datatype fault =
    BadDeref | BadRange | SignedOverflow | MissingReturn
  | LengthError | OutOfRange | RuntimeError | AssertFailed | BadAlloc | FormatError string

type_synonym 'a outcome = "fault + 'a"

definition bind_outcome :: "'a outcome \<Rightarrow> ('a \<Rightarrow> 'b outcome) \<Rightarrow> 'b outcome" where
  "bind_outcome m f = (case m of Inl e \<Rightarrow> Inl e | Inr x \<Rightarrow> f x)"

lemma bind_outcome_simps [simp, fault_simps]:
  "bind_outcome (Inl e) f = Inl e"
  "bind_outcome (Inr x) f = f x"
  by (simp_all add: bind_outcome_def)

lemma bind_outcome_eq_Inr [fault_simps]:
  "bind_outcome m f = Inr y \<longleftrightarrow> (\<exists>x. m = Inr x \<and> f x = Inr y)"
  by (cases m) auto

lemma bind_outcome_assoc:
  "bind_outcome (bind_outcome m f) g = bind_outcome m (\<lambda>x. bind_outcome (f x) g)"
  by (cases m) auto

section \<open>Machine integers\<close>

text \<open>
  \<open>size_t\<close> values are naturals below \<open>2 ^ 64\<close>; the operations of the code that can leave that
  range are written with their wrap-around: subtraction of two \<open>size_t\<close>, and the conversions
  between \<open>ptrdiff_t\<close> and \<open>size_t\<close>. An \<open>int\<close> is a 32-bit, a \<open>short\<close> a 16-bit integer; a
  conversion to a signed type that cannot hold the value reduces it modulo \<open>2 ^ w\<close>, as the
  compilers this program is built with define it.
\<close>

definition size_sub :: "nat \<Rightarrow> nat \<Rightarrow> nat" where
  "size_sub a b = (if b \<le> a then a - b else a + 2 ^ 64 - b)"

definition size_of_ptrdiff :: "int \<Rightarrow> nat" where
  "size_of_ptrdiff d = nat (d mod 2 ^ 64)"

definition ptrdiff_of_size :: "nat \<Rightarrow> int" where
  "ptrdiff_of_size n = (if n < 2 ^ 63 then int n else int n - 2 ^ 64)"

definition in_int32 :: "int \<Rightarrow> bool" where
  "in_int32 x \<longleftrightarrow> - (2 ^ 31) \<le> x \<and> x < 2 ^ 31"

definition to_int32 :: "int \<Rightarrow> int" where
  "to_int32 x = (x + 2 ^ 31) mod 2 ^ 32 - 2 ^ 31"

definition to_int16 :: "int \<Rightarrow> int" where
  "to_int16 x = (x + 2 ^ 15) mod 2 ^ 16 - 2 ^ 15"

lemma size_sub_le [simp]: "b \<le> a \<Longrightarrow> size_sub a b = a - b"
  by (simp add: size_sub_def)

lemma size_of_ptrdiff_nonneg [simp]:
  "0 \<le> d \<Longrightarrow> d < 2 ^ 64 \<Longrightarrow> size_of_ptrdiff d = nat d"
  by (simp add: size_of_ptrdiff_def)

lemma ptrdiff_of_size_small [simp]: "n < 2 ^ 63 \<Longrightarrow> ptrdiff_of_size n = int n"
  by (simp add: ptrdiff_of_size_def)

lemma ptrdiff_size_inverse:
  assumes "- (2 ^ 63) \<le> d" and "d < 2 ^ 63"
  shows "ptrdiff_of_size (size_of_ptrdiff d) = d"
proof (cases "0 \<le> d")
  case True
  with assms show ?thesis by (simp add: ptrdiff_of_size_def size_of_ptrdiff_def)
next
  case False
  have "d mod 2 ^ 64 = d + 2 ^ 64"
  proof -
    have "d mod 2 ^ 64 = (d + 2 ^ 64) mod 2 ^ 64" by simp
    also have "\<dots> = d + 2 ^ 64" using assms False by (intro mod_pos_pos_trivial) auto
    finally show ?thesis .
  qed
  with assms False show ?thesis
    by (simp add: ptrdiff_of_size_def size_of_ptrdiff_def)
qed

lemma to_int16_small [simp]: "- (2 ^ 15) \<le> x \<Longrightarrow> x < 2 ^ 15 \<Longrightarrow> to_int16 x = x"
  by (simp add: to_int16_def)

lemma to_int32_small [simp]: "- (2 ^ 31) \<le> x \<Longrightarrow> x < 2 ^ 31 \<Longrightarrow> to_int32 x = x"
  by (simp add: to_int32_def)

lemma to_int16_bounds: "- (2 ^ 15) \<le> to_int16 x \<and> to_int16 x < 2 ^ 15"
  using pos_mod_bound [of "2 ^ 16" "x + 2 ^ 15"] pos_mod_sign [of "2 ^ 16" "x + 2 ^ 15"]
  by (simp add: to_int16_def)

text \<open>A \<open>char\<close> is signed on the platforms of this program; arithmetic promotes it to \<open>int\<close>.\<close>

definition schar :: "char \<Rightarrow> int" where
  "schar c = (let n = of_char c in if n < 128 then n else n - 256)"

section \<open>Iterator ranges\<close>

text \<open>
  An iterator into a string is its offset from the beginning. Dereferencing one is defined
  inside the string only; a range \<open>[i, j)\<close> can be read only where \<open>0 \<le> i \<le> j \<le> length\<close>.
\<close>

definition deref :: "string \<Rightarrow> int \<Rightarrow> char outcome" where
  "deref s i = (if 0 \<le> i \<and> i < int (length s) then Inr (s ! nat i) else Inl BadDeref)"

definition range_chars :: "string \<Rightarrow> int \<Rightarrow> int \<Rightarrow> string outcome" where
  "range_chars s i j =
     (if 0 \<le> i \<and> i \<le> j \<and> j \<le> int (length s) then Inr (take (nat (j - i)) (drop (nat i) s))
      else Inl BadRange)"

lemma deref_valid [range_simps]: "i < length s \<Longrightarrow> deref s (int i) = Inr (s ! i)"
  by (simp add: deref_def)

lemma range_chars_valid [range_simps]:
  "i + n \<le> length s \<Longrightarrow> range_chars s (int i) (int i + int n) = Inr (take n (drop i s))"
  by (simp add: range_chars_def)

lemma range_chars_all [range_simps]: "range_chars s 0 (int (length s)) = Inr s"
  by (simp add: range_chars_def)

lemma range_chars_reversed [range_simps]: "j < i \<Longrightarrow> range_chars s i j = Inl BadRange"
  by (simp add: range_chars_def)

lemma range_chars_beyond [range_simps]: "int (length s) < j \<Longrightarrow> range_chars s i j = Inl BadRange"
  by (simp add: range_chars_def)

section \<open>Members of std::string\<close>

text \<open>
  \<open>s.find(pat, from)\<close>: the least position at or after \<open>from\<close> where \<open>pat\<close> occurs; \<open>None\<close> is
  \<open>npos\<close>. \<open>s.find_last_of(c)\<close> for a set of one character.
\<close>

fun find_at :: "string \<Rightarrow> string \<Rightarrow> nat \<Rightarrow> nat option" where
  "find_at [] pat n = (if pat = [] then Some n else None)"
| "find_at (x # xs) pat n =
     (if take (length pat) (x # xs) = pat then Some n else find_at xs pat (Suc n))"

definition str_find :: "string \<Rightarrow> string \<Rightarrow> nat \<Rightarrow> nat option" where
  "str_find s pat from = (if from \<le> length s then find_at (drop from s) pat from else None)"

fun find_last :: "char \<Rightarrow> string \<Rightarrow> nat option" where
  "find_last c [] = None"
| "find_last c (x # xs) =
     (case find_last c xs of Some i \<Rightarrow> Some (Suc i) | None \<Rightarrow> (if x = c then Some 0 else None))"

lemma find_at_SomeD:
  "find_at s pat n = Some pos \<Longrightarrow>
     n \<le> pos \<and> pos \<le> n + length s \<and> take (length pat) (drop (pos - n) s) = pat"
proof (induction s pat n rule: find_at.induct)
  case (2 x xs pat n)
  show ?case
  proof (cases "take (length pat) (x # xs) = pat")
    case True
    with 2 show ?thesis by auto
  next
    case False
    with 2 have *: "Suc n \<le> pos \<and> pos \<le> Suc n + length xs \<and> take (length pat) (drop (pos - Suc n) xs) = pat"
      by simp
    then have "drop (pos - n) (x # xs) = drop (pos - Suc n) xs"
      by (cases "pos - n") (auto simp: diff_Suc)
    with * show ?thesis by simp
  qed
qed (auto split: if_splits)

lemma str_find_SomeD:
  assumes "str_find s pat from = Some pos"
  shows "from \<le> pos" and "pos \<le> length s" and "take (length pat) (drop pos s) = pat"
  using assms find_at_SomeD [of "drop from s" pat "from" pos]
  by (auto simp: str_find_def split: if_splits)

lemma find_at_char_first:
  "c \<notin> set xs \<Longrightarrow> find_at (xs @ c # ys) [c] n = Some (n + length xs)"
  by (induction xs arbitrary: n) auto

lemma find_at_char_none: "c \<notin> set xs \<Longrightarrow> find_at xs [c] n = None"
  by (induction xs arbitrary: n) auto

lemma str_find_char_first:
  "c \<notin> set xs \<Longrightarrow> str_find (us @ xs @ c # ys) [c] (length us) = Some (length us + length xs)"
  by (simp add: str_find_def find_at_char_first)

lemma str_find_char_none: "c \<notin> set xs \<Longrightarrow> str_find (us @ xs) [c] (length us) = None"
  by (simp add: str_find_def find_at_char_none)

lemma find_last_none: "c \<notin> set xs \<Longrightarrow> find_last c xs = None"
  by (induction xs) auto

lemma find_last_split: "c \<notin> set ys \<Longrightarrow> find_last c (xs @ c # ys) = Some (length xs)"
  by (induction xs) (auto simp: find_last_none)

section \<open>Decimal numbers\<close>

text \<open>\<open>std::to_string\<close> for an \<open>int\<close>.\<close>

definition digit_char :: "nat \<Rightarrow> char" where
  "digit_char d = char_of (48 + d)"

fun dec_nat :: "nat \<Rightarrow> string" where
  "dec_nat n = (if n < 10 then [digit_char n] else dec_nat (n div 10) @ [digit_char (n mod 10)])"

declare dec_nat.simps [simp del]

definition dec_int :: "int \<Rightarrow> string" where
  "dec_int i = (if i < 0 then CHR ''-'' # dec_nat (nat (- i)) else dec_nat (nat i))"

definition is_digit :: "char \<Rightarrow> bool" where
  "is_digit c \<longleftrightarrow> 48 \<le> (of_char c :: nat) \<and> (of_char c :: nat) \<le> 57"

definition digit_val :: "char \<Rightarrow> int" where
  "digit_val c = schar c - 48"

text \<open>The value of a digit string read from the left, starting from \<open>v\<close>.\<close>

fun dec_value :: "int \<Rightarrow> string \<Rightarrow> int" where
  "dec_value v [] = v"
| "dec_value v (c # cs) = dec_value (v * 10 + digit_val c) cs"

lemma dec_value_append [simp]: "dec_value v (xs @ ys) = dec_value (dec_value v xs) ys"
  by (induction xs arbitrary: v) auto

lemma of_char_digit [simp]: "d < 10 \<Longrightarrow> of_char (digit_char d) = 48 + (of_nat d :: int)"
proof -
  assume d: "d < 10"
  have "(of_char (digit_char d) :: nat) = 48 + d"
    using d by (simp add: digit_char_def)
  then have "int (of_char (digit_char d)) = 48 + int d" by simp
  then show ?thesis by (simp only: of_nat_of_char of_nat_id)
qed

lemma schar_digit_char [simp]: "d < 10 \<Longrightarrow> schar (digit_char d) = 48 + int d"
  by (simp add: schar_def)

lemma digit_val_digit_char [simp]: "d < 10 \<Longrightarrow> digit_val (digit_char d) = int d"
  by (simp add: digit_val_def)

lemma is_digit_digit_char [simp]: "d < 10 \<Longrightarrow> is_digit (digit_char d)"
  by (simp add: is_digit_def digit_char_def)

lemma is_digit_bounds: "is_digit c \<Longrightarrow> 0 \<le> digit_val c \<and> digit_val c \<le> 9"
proof -
  assume "is_digit c"
  then have "48 \<le> int (of_char c)" "int (of_char c) \<le> 57"
    unfolding is_digit_def by linarith+
  then have "48 \<le> (of_char c :: int)" "(of_char c :: int) \<le> 57"
    by (simp_all only: of_nat_of_char)
  then show ?thesis by (simp add: digit_val_def schar_def Let_def)
qed

lemma dec_value_dec_nat [simp]: "dec_value 0 (dec_nat n) = int n"
proof (induction n rule: dec_nat.induct)
  case (1 n)
  then show ?case
    by (cases "n < 10") (auto simp: dec_nat.simps [of n] zdiv_int zmod_int)
qed

lemma dec_nat_digits: "list_all is_digit (dec_nat n)"
proof (induction n rule: dec_nat.induct)
  case (1 n)
  then show ?case by (cases "n < 10") (auto simp: dec_nat.simps [of n])
qed

lemma dec_nat_not_Nil [simp]: "dec_nat n \<noteq> []"
  by (subst dec_nat.simps) simp

lemma dec_value_mono:
  "0 \<le> v \<Longrightarrow> list_all is_digit ds \<Longrightarrow> v \<le> dec_value v ds"
proof (induction ds arbitrary: v)
  case (Cons c ds)
  then have c: "0 \<le> digit_val c" using is_digit_bounds [of c] by simp
  have "v \<le> v * 10 + digit_val c" using Cons.prems(1) c by simp
  also have "\<dots> \<le> dec_value (v * 10 + digit_val c) ds"
    using Cons.prems c by (intro Cons.IH) auto
  finally show ?case by simp
qed simp

lemma is_digit_not_space [simp]: "is_digit c \<Longrightarrow> c \<noteq> CHR '' ''"
  by (auto simp: is_digit_def)

lemma digits_no_space: "list_all is_digit ds \<Longrightarrow> CHR '' '' \<notin> set ds"
  by (induction ds) (auto simp: is_digit_def)

lemma dec_nat_length: "n < 10 ^ k \<Longrightarrow> 0 < k \<Longrightarrow> length (dec_nat n) \<le> k"
proof (induction k arbitrary: n)
  case (Suc k)
  show ?case
  proof (cases "n < 10")
    case True
    then show ?thesis by (simp add: dec_nat.simps [of n])
  next
    case False
    with Suc.prems have k: "0 < k" by (cases k) auto
    have "n div 10 < 10 ^ k" using Suc.prems(1) by (simp add: less_mult_imp_div_less mult.commute)
    with Suc.IH k have "length (dec_nat (n div 10)) \<le> k" by blast
    with False show ?thesis by (simp add: dec_nat.simps [of n])
  qed
qed simp

section \<open>Splitting a text into terminated lines\<close>

text \<open>
  The reference for every line splitter of the program: the segments terminated by \<open>d\<close>, without
  their terminator, and the unterminated rest.
\<close>

fun break_lines :: "char \<Rightarrow> string \<Rightarrow> string list \<times> string" where
  "break_lines d [] = ([], [])"
| "break_lines d (c # cs) =
     (case break_lines d cs of (ls, r) \<Rightarrow>
        if c = d then ([] # ls, r)
        else (case ls of [] \<Rightarrow> ([], c # r) | l # ls' \<Rightarrow> ((c # l) # ls', r)))"

lemma break_lines_none: "d \<notin> set s \<Longrightarrow> break_lines d s = ([], s)"
  by (induction s) auto

lemma break_lines_first:
  "d \<notin> set l \<Longrightarrow> break_lines d (l @ d # s) = (l # fst (break_lines d s), snd (break_lines d s))"
  by (induction l) (auto split: prod.splits)

lemma break_lines_join:
  "break_lines d s = (ls, r) \<Longrightarrow> concat (map (\<lambda>l. l @ [d]) ls) @ r = s"
  by (induction s arbitrary: ls r) (auto split: prod.splits if_splits list.splits)

lemma break_lines_rest: "d \<notin> set (snd (break_lines d s))"
  by (induction s) (auto split: prod.splits list.splits)

lemma break_lines_line: "l \<in> set (fst (break_lines d s)) \<Longrightarrow> d \<notin> set l"
  by (induction s arbitrary: l) (auto split: prod.splits list.splits if_splits)

lemma break_lines_append:
  "break_lines d (s @ t) =
     (fst (break_lines d s) @ fst (break_lines d (snd (break_lines d s) @ t)),
      snd (break_lines d (snd (break_lines d s) @ t)))"
proof (induction s)
  case (Cons c s)
  show ?case
    by (cases "break_lines d s"; cases "fst (break_lines d s)")
       (auto simp: Cons.IH split: prod.splits list.splits)
qed simp

lemma break_lines_joined:
  "(\<And>l. l \<in> set ls \<Longrightarrow> d \<notin> set l) \<Longrightarrow> d \<notin> set r \<Longrightarrow>
   break_lines d (concat (map (\<lambda>l. l @ [d]) ls) @ r) = (ls, r)"
  by (induction ls) (auto simp: break_lines_none break_lines_first)

text \<open>Texts joined by a separator.\<close>

fun joined :: "string \<Rightarrow> string list \<Rightarrow> string" where
  "joined sep [] = []"
| "joined sep [x] = x"
| "joined sep (x # y # xs) = x @ sep @ joined sep (y # xs)"

end
