(* ===== verification/TextUtils.thy ===== *)
theory TextUtils
  imports Prelude
begin

text \<open>
  \<open>include/utils/string_ref.h\<close> and \<open>include/utils/utils.h\<close>: string references, the line and
  token splitters, the decimal parsers, the task list of a process and the text-file helpers.

  A \<open>StringRef\<close> holds an iterator into a string owned by somebody else; the model passes that
  string (the memory the iterator points into) to every operation that dereferences it.
\<close>

section \<open>StringRef\<close>

record string_ref =
  sr_begin :: int
  sr_size :: nat
  sr_buffer :: string

text \<open>The constructor from an iterator and a size copies the range into \<open>buffer_\<close>.\<close>

definition mk_ref :: "string \<Rightarrow> int \<Rightarrow> nat \<Rightarrow> string_ref outcome" where
  "mk_ref text b n =
     bind_outcome (range_chars text b (b + ptrdiff_of_size n))
       (\<lambda>buf. Inr \<lparr>sr_begin = b, sr_size = n, sr_buffer = buf\<rparr>)"

text \<open>The constructor from two iterators copies nothing.\<close>

definition mk_ref_range :: "int \<Rightarrow> int \<Rightarrow> string_ref" where
  "mk_ref_range b e = \<lparr>sr_begin = b, sr_size = size_of_ptrdiff (e - b), sr_buffer = []\<rparr>"

definition sr_end :: "string_ref \<Rightarrow> int" where
  "sr_end r = sr_begin r + ptrdiff_of_size (sr_size r)"

definition sr_text :: "string \<Rightarrow> string_ref \<Rightarrow> string outcome" where
  "sr_text text r = range_chars text (sr_begin r) (sr_end r)"

text \<open>
  \<open>operator<<\<close>: the text of the reference goes to \<open>std::cout\<close>, whatever stream \<open>out\<close> is; the
  pair is the contents of \<open>(out, std::cout)\<close>, for \<open>out\<close> another stream than \<open>std::cout\<close>.
\<close>

definition sr_print :: "string \<Rightarrow> string_ref \<Rightarrow> string \<times> string \<Rightarrow> (string \<times> string) outcome" where
  "sr_print text r st =
     bind_outcome (sr_text text r) (\<lambda>s. Inr (fst st, snd st @ s))"

lemma mk_ref_valid [range_simps]:
  "b + n \<le> length text \<Longrightarrow> n < 2 ^ 63 \<Longrightarrow>
   mk_ref text (int b) n = Inr \<lparr>sr_begin = int b, sr_size = n, sr_buffer = take n (drop b text)\<rparr>"
  by (simp add: mk_ref_def range_simps)

lemma mk_ref_negative [range_simps]:
  "2 ^ 63 \<le> n \<Longrightarrow> n < 2 ^ 64 \<Longrightarrow> mk_ref text b n = Inl BadRange"
  by (simp add: mk_ref_def ptrdiff_of_size_def range_chars_reversed)

lemma mk_ref_beyond [range_simps]:
  "int (length text) < b + int n \<Longrightarrow> n < 2 ^ 63 \<Longrightarrow> mk_ref text b n = Inl BadRange"
  by (simp add: mk_ref_def range_chars_beyond)

section \<open>Decimal parsers\<close>

text \<open>
  Four loops of the program accumulate \<open>v = v * 10 + (c - '0')\<close>; they differ in the type of the
  accumulator. The interface: one step, and the bound below which it is exact.
\<close>

fun digit_run :: "(int \<Rightarrow> char \<Rightarrow> int outcome) \<Rightarrow> int \<Rightarrow> string \<Rightarrow> int outcome" where
  "digit_run step v [] = Inr v"
| "digit_run step v (c # cs) = bind_outcome (step v c) (\<lambda>v'. digit_run step v' cs)"

locale decimal_loop =
  fixes step :: "int \<Rightarrow> char \<Rightarrow> int outcome" and bound :: int
  assumes step_exact:
    "0 \<le> v \<Longrightarrow> is_digit c \<Longrightarrow> v * 10 + digit_val c < bound \<Longrightarrow>
     step v c = Inr (v * 10 + digit_val c)"
begin

lemma run_exact:
  "0 \<le> v \<Longrightarrow> list_all is_digit ds \<Longrightarrow> dec_value v ds < bound \<Longrightarrow>
   digit_run step v ds = Inr (dec_value v ds)"
proof (induction ds arbitrary: v)
  case (Cons c ds)
  let ?w = "v * 10 + digit_val c"
  from Cons.prems have c: "is_digit c" and ds: "list_all is_digit ds" by simp_all
  from c Cons.prems(1) is_digit_bounds [OF c] have w: "0 \<le> ?w" by simp
  from dec_value_mono [OF w ds] Cons.prems(3) have "?w < bound" by simp
  with c Cons.prems(1) have "step v c = Inr ?w" by (intro step_exact)
  moreover have "digit_run step ?w ds = Inr (dec_value ?w ds)"
    using w ds Cons.prems(3) by (intro Cons.IH) simp_all
  ultimately show ?case by simp
qed simp

lemma run_dec_nat: "int n < bound \<Longrightarrow> digit_run step 0 (dec_nat n) = Inr (int n)"
  using run_exact [of 0 "dec_nat n"] by (simp add: dec_nat_digits)

end

text \<open>\<open>fast_atoi\<close> and \<open>SysRecord::set_pid\<close> accumulate in an \<open>int\<close>: an overflow is undefined.\<close>

definition int_step :: "int \<Rightarrow> char \<Rightarrow> int outcome" where
  "int_step v c =
     (if in_int32 (v * 10) \<and> in_int32 (v * 10 + digit_val c) then Inr (v * 10 + digit_val c)
      else Inl SignedOverflow)"

text \<open>
  \<open>str_to_short\<close> and \<open>SysRecord::set_syscall\<close> accumulate in a \<open>short\<close>: the sum is an \<open>int\<close>,
  converted back in every round.
\<close>

definition short_step :: "int \<Rightarrow> char \<Rightarrow> int outcome" where
  "short_step v c = Inr (to_int16 (v * 10 + digit_val c))"

definition fast_atoi :: "string \<Rightarrow> int \<Rightarrow> int \<Rightarrow> int outcome" where
  "fast_atoi text b e = bind_outcome (range_chars text b e) (digit_run int_step 0)"

definition str_to_short :: "string \<Rightarrow> int \<Rightarrow> int \<Rightarrow> int outcome" where
  "str_to_short text b e = bind_outcome (range_chars text b e) (digit_run short_step 0)"

interpretation int_loop: decimal_loop int_step "2 ^ 31"
proof
  fix v c assume v: "0 \<le> v" and c: "is_digit c" and lt: "v * 10 + digit_val c < 2 ^ 31"
  have "0 \<le> digit_val c" using is_digit_bounds [OF c] by simp
  with v lt have "in_int32 (v * 10)" "in_int32 (v * 10 + digit_val c)"
    by (simp_all add: in_int32_def)
  then show "int_step v c = Inr (v * 10 + digit_val c)" by (simp add: int_step_def)
qed

interpretation short_loop: decimal_loop short_step "2 ^ 15"
proof
  fix v c assume v: "0 \<le> v" and c: "is_digit c" and lt: "v * 10 + digit_val c < 2 ^ 15"
  have "0 \<le> digit_val c" using is_digit_bounds [OF c] by simp
  with v lt show "short_step v c = Inr (v * 10 + digit_val c)" by (simp add: short_step_def)
qed

lemma to_int16_mod: "(to_int16 x * 10 + d) mod 65536 = (x * 10 + d) mod 65536"
proof -
  have "to_int16 x mod 65536 = x mod 65536"
    using mod_diff_left_eq [of "x + 32768" 65536 32768] by (simp add: to_int16_def)
  then have "to_int16 x * 10 mod 65536 = x * 10 mod 65536" by (rule mod_mult_cong) simp
  then show ?thesis by (rule mod_add_cong) simp
qed

lemma to_int16_cong: "x mod 65536 = y mod 65536 \<Longrightarrow> to_int16 x = to_int16 y"
proof -
  assume "x mod 65536 = y mod 65536"
  then have "(x + 32768) mod 65536 = (y + 32768) mod 65536" by (rule mod_add_cong) simp
  then show ?thesis by (simp add: to_int16_def)
qed

text \<open>Beyond the range of \<open>short\<close> the parser returns the value modulo \<open>2 ^ 16\<close>, as a signed number.\<close>

lemma short_run_wraps: "digit_run short_step (to_int16 v) ds = Inr (to_int16 (dec_value v ds))"
proof (induction ds arbitrary: v)
  case (Cons c ds)
  have "to_int16 (to_int16 v * 10 + digit_val c) = to_int16 (v * 10 + digit_val c)"
    by (rule to_int16_cong, rule to_int16_mod)
  then show ?case using Cons.IH [of "v * 10 + digit_val c"] by (simp add: short_step_def)
qed simp

lemma short_run_dec_nat: "digit_run short_step 0 (dec_nat n) = Inr (to_int16 (int n))"
  using short_run_wraps [of 0 "dec_nat n"] by simp

text \<open>
  C31: \<open>fast_atoi\<close> inverts \<open>std::to_string\<close> on every non-negative \<open>int\<close>, wherever the digits stand
  in a larger text.
\<close>

theorem fast_atoi_inverts_to_string:
  assumes "n < 2 ^ 31"
  shows "fast_atoi (us @ dec_nat n @ vs) (int (length us)) (int (length us + length (dec_nat n)))
           = Inr (int n)"
proof -
  have "range_chars (us @ dec_nat n @ vs) (int (length us)) (int (length us) + int (length (dec_nat n)))
      = Inr (dec_nat n)"
    by (subst range_chars_valid) simp_all
  then show ?thesis using assms by (simp add: fast_atoi_def int_loop.run_dec_nat)
qed

theorem fast_atoi_inverts_to_string_witness:
  "fast_atoi (''ab'' @ dec_nat 2147483647 @ ''x'') (int (length ''ab''))
      (int (length ''ab'' + length (dec_nat 2147483647))) = Inr (int 2147483647)"
  by (rule fast_atoi_inverts_to_string) simp

section \<open>Splitters\<close>

text \<open>
  The loop the three splitters share: cut at every occurrence of the delimiter and continue one
  character after its start. The result is the references and the final \<open>prev\<close>.
\<close>

function split_loop :: "string \<Rightarrow> string \<Rightarrow> nat \<Rightarrow> string_ref list \<Rightarrow> (string_ref list \<times> nat) outcome"
where
  "split_loop str delim prev acc =
     (case str_find str delim prev of
        None \<Rightarrow> Inr (acc, prev)
      | Some pos \<Rightarrow>
          bind_outcome (mk_ref str (int prev) (size_sub pos prev))
            (\<lambda>r. split_loop str delim (pos + 1) (acc @ [r])))"
  by pat_completeness auto
termination
proof (relation "measure (\<lambda>(str, delim, prev, acc). length str + 1 - prev)")
  fix str delim prev acc pos r
  assume "str_find str delim prev = Some pos"
  from str_find_SomeD(1,2) [OF this]
  show "((str, delim, pos + 1, acc @ [r]), str, delim, prev, acc) \<in> measure (\<lambda>(str, delim, prev, acc). length str + 1 - prev)"
    by simp
qed simp

declare split_loop.simps [simp del]

text \<open>
  The tail of \<open>split_string\<close> and \<open>parse_trace\<close>: \<open>if (prev < str.size() - 1)\<close>, in \<open>size_t\<close>, the
  unterminated rest is appended to \<open>last_line\<close> and cut off \<open>str\<close>. The result is
  \<open>(strings, str, last_line)\<close>.
\<close>

definition split_string ::
    "string \<Rightarrow> string \<Rightarrow> string \<Rightarrow> (string_ref list \<times> string \<times> string) outcome" where
  "split_string str delim last_line =
     bind_outcome (split_loop str delim 0 [])
       (\<lambda>(strings, prev).
          if prev < size_sub (length str) 1
          then bind_outcome (range_chars str (int prev) (int (length str)))
                 (\<lambda>rest. Inr (strings, take prev str, last_line @ rest))
          else Inr (strings, str, last_line))"

definition parse_trace ::
    "string \<Rightarrow> string \<Rightarrow> string \<Rightarrow> (string_ref list \<times> string \<times> string) outcome" where
  "parse_trace str delim last_line =
     bind_outcome (split_loop str delim 0 [])
       (\<lambda>(strings, prev).
          if prev < size_sub (length str) 1
          then bind_outcome (range_chars str (int prev) (int (length str)))
                 (\<lambda>prevs. bind_outcome (range_chars str (int prev) (int (length str)))
                   (\<lambda>rest. Inr (strings, take prev str, last_line @ rest)))
          else Inr (strings, str, last_line))"

text \<open>
  \<open>split_fast\<close> gives the last segment the size of the whole string
  (\<open>strings.emplace_back(str.begin() + prev, str.size())\<close>).
\<close>

definition split_fast :: "string \<Rightarrow> string \<Rightarrow> string_ref list outcome" where
  "split_fast str delim =
     bind_outcome (split_loop str delim 0 [])
       (\<lambda>(strings, prev).
          if prev < length str
          then bind_outcome (mk_ref str (int prev) (length str)) (\<lambda>r. Inr (strings @ [r]))
          else Inr strings)"

text \<open>\<open>split3\<close>: a two-state scanner over the characters, \<open>it\<close> the position of the next one.\<close>

datatype scan_state = InSpace | InToken

fun split3_loop ::
    "string \<Rightarrow> char \<Rightarrow> string \<Rightarrow> nat \<Rightarrow> scan_state \<Rightarrow> nat \<Rightarrow> string_ref list \<Rightarrow> string_ref list outcome"
where
  "split3_loop str d [] it state tb acc =
     (if state = InToken
      then bind_outcome (mk_ref str (int tb) (size_of_ptrdiff (to_int32 \<bar>int it - int tb\<bar>)))
             (\<lambda>r. Inr (acc @ [r]))
      else Inr acc)"
| "split3_loop str d (c # cs) it state tb acc =
     (let newState = (if c = d then InSpace else InToken) in
      if newState \<noteq> state
      then (case newState of
              InSpace \<Rightarrow> bind_outcome (mk_ref str (int tb) (size_of_ptrdiff \<bar>int tb - int it\<bar>))
                 (\<lambda>r. split3_loop str d cs (Suc it) newState tb (acc @ [r]))
            | InToken \<Rightarrow> split3_loop str d cs (Suc it) newState it acc)
      else split3_loop str d cs (Suc it) newState tb acc)"

definition split3 :: "string \<Rightarrow> char \<Rightarrow> string_ref list outcome" where
  "split3 str d = split3_loop str d str 0 InSpace 0 []"

text \<open>The references to consecutive lines, each followed by one delimiter, from position \<open>b\<close> on.\<close>

fun refs_at :: "nat \<Rightarrow> string list \<Rightarrow> string_ref list" where
  "refs_at b [] = []"
| "refs_at b (l # ls) =
     \<lparr>sr_begin = int b, sr_size = length l, sr_buffer = l\<rparr> # refs_at (b + length l + 1) ls"

lemma refs_at_buffers [simp]: "map sr_buffer (refs_at b ls) = ls"
  by (induction ls arbitrary: b) auto

lemma length_refs_at [simp]: "length (refs_at b ls) = length ls"
  by (induction ls arbitrary: b) auto

lemma split_loop_lines:
  assumes "length us + length s < 2 ^ 63"
  shows "split_loop (us @ s) [d] (length us) acc =
           Inr (acc @ refs_at (length us) (fst (break_lines d s)),
                length us + length s - length (snd (break_lines d s)))"
  using assms
proof (induction "length s" arbitrary: us s acc rule: less_induct)
  case less
  show ?case
  proof (cases "d \<in> set s")
    case False
    then show ?thesis
      by (simp add: split_loop.simps str_find_char_none break_lines_none)
  next
    case True
    then obtain l s' where s: "s = l @ d # s'" and l: "d \<notin> set l"
      by (meson split_list_first)
    have find: "str_find (us @ s) [d] (length us) = Some (length us + length l)"
      using l by (simp add: s str_find_char_first)
    have ref: "mk_ref (us @ s) (int (length us)) (length l) =
        Inr \<lparr>sr_begin = int (length us), sr_size = length l, sr_buffer = l\<rparr>" (is "_ = Inr ?r")
      using less.prems by (subst mk_ref_valid) (simp_all add: s)
    have len: "length (snd (break_lines d s')) \<le> length s'"
      using break_lines_join [of d s' "fst (break_lines d s')" "snd (break_lines d s')"]
      by (metis le_add2 length_append prod.collapse)
    have "split_loop ((us @ l @ [d]) @ s') [d] (length (us @ l @ [d])) (acc @ [?r]) =
        Inr ((acc @ [?r]) @ refs_at (length (us @ l @ [d])) (fst (break_lines d s')),
             length (us @ l @ [d]) + length s' - length (snd (break_lines d s')))"
      using less.prems by (intro less.hyps) (simp_all add: s)
    then show ?thesis
      using len by (subst split_loop.simps)
        (simp add: find ref [simplified s] find [simplified s] s break_lines_first [OF l])
  qed
qed

lemma split_loop_start:
  "length s < 2 ^ 63 \<Longrightarrow>
   split_loop s [d] 0 [] =
     Inr (refs_at 0 (fst (break_lines d s)), length s - length (snd (break_lines d s)))"
  using split_loop_lines [of "[]" s d "[]"] by simp

lemma break_lines_rest_length: "length (snd (break_lines d s)) \<le> length s"
  using break_lines_join [of d s "fst (break_lines d s)" "snd (break_lines d s)"]
  by (metis le_add2 length_append prod.collapse)

lemma drop_to_rest:
  "drop (length s - length (snd (break_lines d s))) s = snd (break_lines d s)"
proof -
  let ?c = "concat (map (\<lambda>l. l @ [d]) (fst (break_lines d s)))"
  have s: "?c @ snd (break_lines d s) = s"
    by (rule break_lines_join) simp
  have n: "length s - length (snd (break_lines d s)) = length ?c"
    using arg_cong [OF s, of length] by simp
  show ?thesis unfolding n by (subst s [symmetric]) simp
qed

lemma take_to_rest:
  "take (length s - length (snd (break_lines d s))) s =
     concat (map (\<lambda>l. l @ [d]) (fst (break_lines d s)))"
proof -
  let ?c = "concat (map (\<lambda>l. l @ [d]) (fst (break_lines d s)))"
  have s: "?c @ snd (break_lines d s) = s"
    by (rule break_lines_join) simp
  have n: "length s - length (snd (break_lines d s)) = length ?c"
    using arg_cong [OF s, of length] by simp
  show ?thesis unfolding n by (subst s [symmetric]) simp
qed

section \<open>What the splitters return\<close>

lemma split_string_chunk:
  assumes "length str < 2 ^ 63"
  shows "split_string str [d] last_line =
    (let (ls, rest) = break_lines d str in
     Inr (refs_at 0 ls,
          (if length rest = 1 then str else concat (map (\<lambda>l. l @ [d]) ls)),
          (if length rest = 1 then last_line else last_line @ rest)))"
proof (cases "str = []")
  case True
  then show ?thesis
    by (simp add: split_string_def split_loop.simps str_find_def size_sub_def range_chars_def)
next
  case False
  let ?ls = "fst (break_lines d str)" and ?r = "snd (break_lines d str)"
  have le: "length ?r \<le> length str" by (rule break_lines_rest_length)
  have "range_chars str (int (length str - length ?r)) (int (length str - length ?r) + int (length ?r))
      = Inr (take (length ?r) (drop (length str - length ?r) str))"
    using le by (subst range_chars_valid) simp_all
  then have rc: "range_chars str (int (length str - length ?r)) (int (length str)) = Inr ?r"
    using le by (simp add: drop_to_rest)
  have join: "concat (map (\<lambda>l. l @ [d]) ?ls) @ ?r = str" by (rule break_lines_join) simp
  have cond: "length str - length ?r < size_sub (length str) 1 \<longleftrightarrow> 2 \<le> length ?r"
    using False le by (cases str) auto
  show ?thesis
  proof (cases "2 \<le> length ?r")
    case True
    then have "length ?r \<noteq> 1" by simp
    with True show ?thesis
      using cond rc by (simp add: split_string_def split_loop_start [OF assms] take_to_rest
          prod.case_eq_if)
  next
    case False
    then have "length ?r = 1 \<or> length ?r = 0" by linarith
    then have "length ?r = 1 \<or> ?r = []" by simp
    then show ?thesis
      using cond False join by (auto simp: split_string_def split_loop_start [OF assms]
          prod.case_eq_if)
  qed
qed

text \<open>
  C29: \<open>split_string\<close> never faults; its references are the newline-terminated segments, in order and
  at their places. The unterminated rest moves from \<open>str\<close> to \<open>last_line\<close> when it has two or more
  characters; a rest of exactly one character stays behind in \<open>str\<close> and is in neither result.
\<close>

theorem split_string_lines:
  assumes "length str < 2 ^ 63"
  shows "split_string str [d] last_line =
    (let (ls, rest) = break_lines d str in
     Inr (refs_at 0 ls,
          (if length rest = 1 then str else concat (map (\<lambda>l. l @ [d]) ls)),
          (if length rest = 1 then last_line else last_line @ rest)))"
  using assms by (rule split_string_chunk)

theorem split_string_lines_witness:
  "split_string ''ab?cde?fgh'' ''?'' ''x'' =
     (let (ls, rest) = break_lines (CHR ''?'') ''ab?cde?fgh'' in
      Inr (refs_at 0 ls,
           (if length rest = 1 then ''ab?cde?fgh'' else concat (map (\<lambda>l. l @ ''?'') ls)),
           (if length rest = 1 then ''x'' else ''x'' @ rest)))"
  by (rule split_string_lines) simp

lemma parse_trace_eq: "parse_trace str delim last_line = split_string str delim last_line"
  by (simp add: parse_trace_def split_string_def bind_outcome_def prod.case_eq_if
      split: sum.splits)

text \<open>
  Whenever text follows the last delimiter, \<open>split_fast\<close> builds a reference that runs past the
  end of its string: with at least one delimiter and a non-empty rest the range is invalid.
\<close>

theorem split_fast_overruns:
  assumes "length str < 2 ^ 62" and "d \<in> set str" and "last str \<noteq> d"
  shows "split_fast str [d] = Inl BadRange"
proof -
  let ?r = "snd (break_lines d str)"
  have join: "concat (map (\<lambda>l. l @ [d]) (fst (break_lines d str))) @ ?r = str"
    by (rule break_lines_join) simp
  have "?r \<noteq> []"
  proof
    assume "?r = []"
    with join have j: "concat (map (\<lambda>l. l @ [d]) (fst (break_lines d str))) = str" by simp
    then show False using assms(2,3)
      by (cases "fst (break_lines d str)" rule: rev_cases) auto
  qed
  moreover have "length ?r \<noteq> length str"
  proof
    assume "length ?r = length str"
    then have "?r = str" using drop_to_rest [of str d] by simp
    then show False using assms(2) break_lines_rest [of d str] by simp
  qed
  ultimately have "0 < length ?r" "length ?r < length str"
    using break_lines_rest_length [of d str] by auto
  then have "length str - length ?r < length str" "int (length str) < int (length str - length ?r) + int (length str)"
    by linarith+
  then show ?thesis using assms(1)
    by (simp add: split_fast_def split_loop_start mk_ref_beyond)
qed

theorem split_fast_overruns_witness: "split_fast ''ab,c'' '','' = Inl BadRange"
  by (rule split_fast_overruns) simp_all

text \<open>The tokens of a text: its maximal non-empty runs without the delimiter.\<close>

definition tokens :: "char \<Rightarrow> string \<Rightarrow> string list" where
  "tokens d s = filter (\<lambda>l. l \<noteq> []) (fst (break_lines d s) @ [snd (break_lines d s)])"

lemma tokens_Nil [simp]: "tokens d [] = []"
  by (simp add: tokens_def)

lemma tokens_delim [simp]: "tokens d (d # s) = tokens d s"
  using break_lines_first [of d "[]" s] by (simp add: tokens_def)

lemma tokens_first: "d \<notin> set t \<Longrightarrow> t \<noteq> [] \<Longrightarrow> tokens d (t @ d # s) = t # tokens d s"
  by (simp add: tokens_def break_lines_first)

lemma tokens_only: "d \<notin> set t \<Longrightarrow> t \<noteq> [] \<Longrightarrow> tokens d t = [t]"
  by (simp add: tokens_def break_lines_none)

lemma split3_loop_tokens:
  assumes "length str < 2 ^ 31"
  shows "str = us @ cs \<Longrightarrow> \<exists>R. split3_loop str d cs (length us) InSpace tb acc = Inr (acc @ R) \<and>
           map sr_buffer R = tokens d cs \<and> list_all (\<lambda>r. sr_text str r = Inr (sr_buffer r)) R"
    and "str = us @ t @ cs \<Longrightarrow> t \<noteq> [] \<Longrightarrow> d \<notin> set t \<Longrightarrow>
         \<exists>R. split3_loop str d cs (length us + length t) InToken (length us) acc = Inr (acc @ R) \<and>
           map sr_buffer R = tokens d (t @ cs) \<and> list_all (\<lambda>r. sr_text str r = Inr (sr_buffer r)) R"
proof (induction cs arbitrary: us t acc tb)
  case Nil
  {
    case 1
    then show ?case by simp
  next
    case 2
    then have ref: "mk_ref str (int (length us)) (length t) =
        Inr \<lparr>sr_begin = int (length us), sr_size = length t, sr_buffer = t\<rparr>"
      using assms by (subst mk_ref_valid) simp_all
    from 2 assms have "range_chars str (int (length us)) (int (length us) + int (length t)) = Inr t"
      by (subst range_chars_valid) simp_all
    with 2 ref assms show ?case
      by (simp add: tokens_only sr_text_def sr_end_def)
  }
next
  case (Cons c cs)
  {
    case 1
    show ?case
    proof (cases "c = d")
      case True
      with Cons.IH(1) [of "us @ [c]" tb acc] 1 show ?thesis by simp
    next
      case False
      with Cons.IH(2) [of us "[c]" acc] 1 show ?thesis by (simp add: Let_def)
    qed
  next
    case 2
    show ?case
    proof (cases "c = d")
      case True
      let ?r = "\<lparr>sr_begin = int (length us), sr_size = length t, sr_buffer = t\<rparr>"
      from 2 assms have ref: "mk_ref str (int (length us)) (length t) = Inr ?r"
        by (subst mk_ref_valid) simp_all
      from 2 assms have rng: "range_chars str (int (length us)) (int (length us) + int (length t)) = Inr t"
        by (subst range_chars_valid) simp_all
      from Cons.IH(1) [of "us @ t @ [c]" "length us" "acc @ [?r]"] 2 obtain R where
        R: "split3_loop str d cs (length us + length t + 1) InSpace (length us) (acc @ [?r])
              = Inr ((acc @ [?r]) @ R)"
          "map sr_buffer R = tokens d cs" "list_all (\<lambda>r. sr_text str r = Inr (sr_buffer r)) R"
        by auto
      from 2 assms have "length t < 2 ^ 63" by simp
      with R ref rng True 2 show ?thesis
        by (intro exI [of _ "?r # R"]) (simp add: tokens_first sr_text_def sr_end_def)
    next
      case False
      with Cons.IH(2) [of us "t @ [c]" acc] 2 show ?thesis by simp
    qed
  }
qed

text \<open>
  C30: \<open>split3\<close> never faults; the references it builds are the maximal delimiter-free runs of the
  string, in order, and each one reads back, through its iterator and size, the text it copied.
\<close>

theorem split3_tokens:
  assumes "length str < 2 ^ 31"
  shows "\<exists>R. split3 str d = Inr R \<and> map sr_buffer R = tokens d str \<and>
           list_all (\<lambda>r. sr_text str r = Inr (sr_buffer r)) R"
  using split3_loop_tokens(1) [OF assms, of "[]" str d 0 "[]"] by (simp add: split3_def)

theorem split3_tokens_witness:
  "\<exists>R. split3 '' ab  c'' (CHR '' '') = Inr R \<and> map sr_buffer R = tokens (CHR '' '') '' ab  c'' \<and>
     list_all (\<lambda>r. sr_text '' ab  c'' r = Inr (sr_buffer r)) R"
  by (rule split3_tokens) simp

section \<open>Text files\<close>

text \<open>
  The part of the machine the helpers change: the contents of the regular files, and the log of
  what was written to which path (the control files of the kernel's tracer act on each write).
  Which paths can be opened for writing is fixed. \<open>write_to\<close> appends unless told otherwise.
\<close>

record machine =
  files :: "string \<rightharpoonup> string"
  writes :: "(string \<times> string) list"
  writable :: "string \<Rightarrow> bool"

definition write_to :: "string \<Rightarrow> string \<Rightarrow> bool \<Rightarrow> machine \<Rightarrow> machine" where
  "write_to filename content app m =
     (if writable m filename then
        m\<lparr>files := (files m)(filename \<mapsto>
              (if app then (case files m filename of None \<Rightarrow> [] | Some s \<Rightarrow> s) else [])
              @ content @ [CHR 0x0A]),
          writes := writes m @ [(filename, content @ [CHR 0x0A])]\<rparr>
      else m)"

text \<open>
  \<open>find_last_linefeed\<close> scans back from the last but one character; it has no \<open>return\<close> for a file
  with no newline there.
\<close>

function last_linefeed_loop :: "string \<Rightarrow> nat \<Rightarrow> nat outcome" where
  "last_linefeed_loop infile n =
     (if n < length infile then
        (if infile ! (length infile - n - 1) = CHR 0x0A then Inr (length infile - n)
         else last_linefeed_loop infile (n + 1))
      else Inl MissingReturn)"
  by pat_completeness auto
termination
  by (relation "measure (\<lambda>(infile, n). length infile - n)") auto

declare last_linefeed_loop.simps [simp del]

definition find_last_linefeed :: "string \<Rightarrow> nat outcome" where
  "find_last_linefeed infile = last_linefeed_loop infile 1"

section \<open>The tasks of a process\<close>

text \<open>
  \<open>fgets\<close> into a buffer of \<open>k + 1\<close> bytes: the characters up to and with the first newline, at most
  \<open>k\<close> of them; and the rest of the input.
\<close>

fun fgets_chunk :: "nat \<Rightarrow> string \<Rightarrow> string \<times> string" where
  "fgets_chunk 0 s = ([], s)"
| "fgets_chunk (Suc k) [] = ([], [])"
| "fgets_chunk (Suc k) (c # s) =
     (if c = CHR 0x0A then ([c], s)
      else (case fgets_chunk k s of (a, b) \<Rightarrow> (c # a, b)))"

lemma fgets_chunk_join: "fgets_chunk k s = (a, b) \<Longrightarrow> a @ b = s"
  by (induction k s arbitrary: a b rule: fgets_chunk.induct) (auto split: if_splits prod.splits)

lemma fgets_chunk_progress: "fgets_chunk (Suc k) (c # s) = (a, b) \<Longrightarrow> length b < Suc (length s)"
  using fgets_chunk_join [of "Suc k" "c # s" a b]
  by (cases a) (auto split: if_splits prod.splits dest: arg_cong [where f = length])

lemma fgets_chunk_line:
  "CHR 0x0A \<notin> set l \<Longrightarrow> length l < k \<Longrightarrow> fgets_chunk k (l @ CHR 0x0A # s) = (l @ [CHR 0x0A], s)"
  by (induction l arbitrary: k) (case_tac k; auto)+

text \<open>One line of the listing: lines of ten characters or fewer are skipped.\<close>

definition task_of_line :: "string \<Rightarrow> int list outcome" where
  "task_of_line buffer =
     (let result = takeWhile (\<lambda>c. c \<noteq> CHR 0x00) buffer in
      if length result > 10
      then bind_outcome
             (str_to_short result
                (case find_last (CHR '' '') result of None \<Rightarrow> 0 | Some i \<Rightarrow> int i + 1)
                (int (length result) - 1))
             (\<lambda>pid. Inr [pid])
      else Inr [])"

function get_pids_loop :: "string \<Rightarrow> int list \<Rightarrow> int list outcome" where
  "get_pids_loop [] pids = Inr pids"
| "get_pids_loop (c # s) pids =
     bind_outcome (task_of_line (fst (fgets_chunk 127 (c # s))))
       (\<lambda>ps. get_pids_loop (snd (fgets_chunk 127 (c # s))) (pids @ ps))"
  by pat_completeness auto
termination
proof (relation "measure (\<lambda>(s, pids). length s)")
  fix c :: char and s pids and ps :: "int list"
  obtain a b where "fgets_chunk (Suc 126) (c # s) = (a, b)" by fastforce
  then show "((snd (fgets_chunk 127 (c # s)), pids @ ps), c # s, pids) \<in> measure (\<lambda>(s, pids). length s)"
    using fgets_chunk_progress [of 126 c s a b] by simp
qed simp

text \<open>\<open>popen\<close> is the environment's: the output of a command, or \<open>None\<close> when it cannot be run.\<close>

definition task_command :: "int \<Rightarrow> string" where
  "task_command ppid = ''ls -l /proc/'' @ dec_int ppid @ ''/task''"

definition get_pids :: "(string \<Rightarrow> string option) \<Rightarrow> int \<Rightarrow> int list outcome" where
  "get_pids popen ppid =
     (case popen (task_command ppid) of None \<Rightarrow> Inr [] | Some out \<Rightarrow> get_pids_loop out [])"

text \<open>A line of the listing of a task: anything, a space, the task's number.\<close>

definition task_line :: "string \<Rightarrow> nat \<Rightarrow> string" where
  "task_line pre tid = pre @ '' '' @ dec_nat tid @ [CHR 0x0A]"

definition task_line_ok :: "string \<Rightarrow> nat \<Rightarrow> bool" where
  "task_line_ok pre tid \<longleftrightarrow> CHR 0x0A \<notin> set pre \<and> CHR 0x00 \<notin> set pre \<and>
     10 < length (task_line pre tid) \<and> length (task_line pre tid) < 128"

lemma dec_nat_no_control: "CHR 0x0A \<notin> set (dec_nat n)" "CHR 0x00 \<notin> set (dec_nat n)"
  using dec_nat_digits [of n] by (auto simp: list_all_iff is_digit_def)

lemma task_of_line_exact:
  assumes "task_line_ok pre tid"
  shows "task_of_line (task_line pre tid) = Inr [to_int16 (int tid)]"
proof -
  let ?l = "task_line pre tid" and ?ds = "dec_nat tid"
  have tw: "takeWhile (\<lambda>c. c \<noteq> CHR 0x00) ?l = ?l"
    using assms dec_nat_no_control(2) [of tid]
    by (auto simp: task_line_def task_line_ok_def takeWhile_eq_all_conv)
  have fl: "find_last (CHR '' '') ?l = Some (length pre)"
    unfolding task_line_def using digits_no_space [OF dec_nat_digits [of tid]]
    by (simp add: find_last_split)
  have "range_chars ?l (int (length pre + 1)) (int (length pre + 1) + int (length ?ds)) = Inr ?ds"
    by (subst range_chars_valid) (simp_all add: task_line_def)
  moreover have "int (length ?l) - 1 = int (length pre + 1) + int (length ?ds)"
    by (simp add: task_line_def)
  ultimately have "str_to_short ?l (int (length pre) + 1) (int (length ?l) - 1) =
      Inr (to_int16 (int tid))"
    by (simp add: str_to_short_def short_run_dec_nat ac_simps)
  then show ?thesis using assms fl
    by (simp add: task_of_line_def Let_def tw task_line_ok_def)
qed

lemma get_pids_loop_line:
  assumes "task_line_ok pre tid"
  shows "get_pids_loop (task_line pre tid @ s) pids = get_pids_loop s (pids @ [to_int16 (int tid)])"
proof -
  have f: "fgets_chunk 127 (task_line pre tid @ s) = (task_line pre tid, s)"
    using assms fgets_chunk_line [of "pre @ '' '' @ dec_nat tid" 127 s] dec_nat_no_control(1) [of tid]
    by (simp add: task_line_def task_line_ok_def)
  obtain c r where "task_line pre tid @ s = c # r"
    by (cases "task_line pre tid @ s") (auto simp: task_line_def)
  with f task_of_line_exact [OF assms] show ?thesis by simp
qed

lemma get_pids_loop_lines:
  "list_all (\<lambda>(pre, tid). task_line_ok pre tid) ts \<Longrightarrow>
   get_pids_loop (concat (map (\<lambda>(pre, tid). task_line pre tid) ts)) pids =
     Inr (pids @ map (\<lambda>(pre, tid). to_int16 (int tid)) ts)"
  by (induction ts arbitrary: pids) (auto simp: get_pids_loop_line)

lemma get_pids_listed:
  assumes "popen (task_command ppid) =
      Some (''total 0'' @ [CHR 0x0A] @ concat (map (\<lambda>(pre, tid). task_line pre tid) ts))"
    and "list_all (\<lambda>(pre, tid). task_line_ok pre tid) ts"
  shows "get_pids popen ppid = Inr (map (\<lambda>(pre, tid). to_int16 (int tid)) ts)"
proof -
  let ?s = "concat (map (\<lambda>(pre, tid). task_line pre tid) ts)"
  have "fgets_chunk 127 (''total 0'' @ CHR 0x0A # ?s) = (''total 0'' @ [CHR 0x0A], ?s)"
    by (rule fgets_chunk_line) simp_all
  moreover have "task_of_line (''total 0'' @ [CHR 0x0A]) = Inr []"
    by (simp add: task_of_line_def)
  ultimately have "get_pids_loop (''total 0'' @ [CHR 0x0A] @ ?s) [] = get_pids_loop ?s []"
    by simp
  with assms show ?thesis by (simp add: get_pids_def get_pids_loop_lines)
qed

text \<open>
  C32: on the listing of a task directory (a \<open>total 0\<close> line, then one line per task) \<open>get_pids\<close>
  returns the task numbers in order, each one reduced to a 16-bit signed number.
\<close>

theorem get_pids_listing:
  assumes "popen (task_command ppid) =
      Some (''total 0'' @ [CHR 0x0A] @ concat (map (\<lambda>(pre, tid). task_line pre tid) ts))"
    and "list_all (\<lambda>(pre, tid). task_line_ok pre tid) ts"
  shows "get_pids popen ppid = Inr (map (\<lambda>(pre, tid). to_int16 (int tid)) ts)"
  using assms by (rule get_pids_listed)

theorem get_pids_listing_witness:
  "get_pids (\<lambda>_. Some (''total 0'' @ [CHR 0x0A] @ concat (map (\<lambda>(pre, tid). task_line pre tid)
       [(''dr-xr-xr-x 7 root root 0 Jan 1'', 812), (''dr-xr-xr-x 7 root root 0 Jan 1'', 40000)]))) 812
   = Inr [812, -25536]"
proof -
  have "get_pids (\<lambda>_. Some (''total 0'' @ [CHR 0x0A] @ concat (map (\<lambda>(pre, tid). task_line pre tid)
       [(''dr-xr-xr-x 7 root root 0 Jan 1'', 812), (''dr-xr-xr-x 7 root root 0 Jan 1'', 40000)]))) 812
   = Inr (map (\<lambda>(pre, tid). to_int16 (int tid))
       [(''dr-xr-xr-x 7 root root 0 Jan 1'', 812), (''dr-xr-xr-x 7 root root 0 Jan 1'', 40000)])"
    by (rule get_pids_listing) (simp_all add: task_line_ok_def task_line_def dec_nat.simps)
  then show ?thesis by (simp add: to_int16_def)
qed

end
