(* ===== verification/Base64.thy ===== *)
theory Base64
  imports Prelude
begin

unbundle bit_operations_syntax

text \<open>
  \<open>include/utils/encoding.h\<close>: \<open>base64_encode\<close> and \<open>base64_decode\<close>, on \<open>unsigned char\<close> values as
  8-bit words. The local arrays start with indeterminate contents, an argument \<open>junk\<close> of the
  model; no result depends on it. The reference is the arithmetic of RFC 4648: groups of
  three bytes are read as four 6-bit digits.
\<close>

section \<open>The encoder\<close>

definition base64_chars :: string where
  "base64_chars = ''ABCDEFGHIJKLMNOPQRSTUVWXYZ'' @ ''abcdefghijklmnopqrstuvwxyz'' @ ''0123456789+/''"

definition byte_of_char :: "char \<Rightarrow> 8 word" where
  "byte_of_char c = word_of_nat (of_char c)"

definition char_of_byte :: "8 word \<Rightarrow> char" where
  "char_of_byte w = char_of (unat w)"

text \<open>\<open>char_array_4\<close> from \<open>char_array_3\<close>, and the alphabet's characters for its first \<open>n\<close> entries.\<close>

definition encode_quad :: "8 word list \<Rightarrow> 8 word list" where
  "encode_quad a3 =
     [drop_bit 2 (a3 ! 0 AND 0xfc),
      push_bit 4 (a3 ! 0 AND 0x03) + drop_bit 4 (a3 ! 1 AND 0xf0),
      push_bit 2 (a3 ! 1 AND 0x0f) + drop_bit 6 (a3 ! 2 AND 0xc0),
      a3 ! 2 AND 0x3f]"

definition emit :: "8 word list \<Rightarrow> nat \<Rightarrow> string" where
  "emit a4 n = map (\<lambda>w. base64_chars ! unat w) (take n a4)"

fun encode_loop :: "8 word list \<Rightarrow> nat \<Rightarrow> 8 word list \<Rightarrow> string \<Rightarrow> nat \<times> 8 word list \<times> string" where
  "encode_loop [] i a3 ret = (i, a3, ret)"
| "encode_loop (b # bs) i a3 ret =
     (let a3' = a3[i := b]; i' = i + 1 in
      if i' = 3 then encode_loop bs 0 a3' (ret @ emit (encode_quad a3') 4)
      else encode_loop bs i' a3' ret)"

text \<open>\<open>for (j = i; j < n; j++) a[j] = 0\<close>\<close>

definition zero_from :: "nat \<Rightarrow> 8 word list \<Rightarrow> 8 word list" where
  "zero_from i a = take i a @ replicate (length a - i) 0"

definition base64_encode :: "8 word list \<Rightarrow> 8 word list \<Rightarrow> nat \<Rightarrow> string" where
  "base64_encode junk bytes in_len =
     (case encode_loop (take in_len bytes) 0 junk [] of
        (i, a3, ret) \<Rightarrow>
          if i \<noteq> 0
          then ret @ emit (encode_quad (zero_from i a3)) (i + 1) @ replicate (3 - i) (CHR ''='')
          else ret)"

section \<open>The decoder\<close>

definition is_alnum :: "8 word \<Rightarrow> bool" where
  "is_alnum c \<longleftrightarrow> (48 \<le> c \<and> c \<le> 57) \<or> (65 \<le> c \<and> c \<le> 90) \<or> (97 \<le> c \<and> c \<le> 122)"

definition is_base64 :: "8 word \<Rightarrow> bool" where
  "is_base64 c \<longleftrightarrow> is_alnum c \<or> c = byte_of_char (CHR ''+'') \<or> c = byte_of_char (CHR ''/'')"

text \<open>\<open>base64_chars.find\<close>, its \<open>size_t\<close> result assigned to an \<open>unsigned char\<close>.\<close>

definition base64_find :: "8 word \<Rightarrow> 8 word" where
  "base64_find w =
     word_of_nat (case str_find base64_chars [char_of_byte w] 0 of Some p \<Rightarrow> p | None \<Rightarrow> 2 ^ 64 - 1)"

definition decode_triple :: "8 word list \<Rightarrow> 8 word list" where
  "decode_triple a4 =
     [push_bit 2 (a4 ! 0) + drop_bit 4 (a4 ! 1 AND 0x30),
      push_bit 4 (a4 ! 1 AND 0xf) + drop_bit 2 (a4 ! 2 AND 0x3c),
      push_bit 6 (a4 ! 2 AND 0x3) + a4 ! 3]"

fun decode_loop :: "string \<Rightarrow> nat \<Rightarrow> 8 word list \<Rightarrow> string \<Rightarrow> nat \<times> 8 word list \<times> string" where
  "decode_loop [] i a4 ret = (i, a4, ret)"
| "decode_loop (c # cs) i a4 ret =
     (if c \<noteq> CHR ''='' \<and> is_base64 (byte_of_char c) then
        (let a4' = a4[i := byte_of_char c]; i' = i + 1 in
         if i' = 4
         then (let a4'' = map base64_find a4' in
               decode_loop cs 0 a4'' (ret @ map char_of_byte (decode_triple a4'')))
         else decode_loop cs i' a4' ret)
      else (i, a4, ret))"

definition base64_decode :: "8 word list \<Rightarrow> string \<Rightarrow> string" where
  "base64_decode junk encoded_string =
     (case decode_loop encoded_string 0 junk [] of
        (i, a4, ret) \<Rightarrow>
          if i \<noteq> 0
          then ret @ map char_of_byte
                 (take (i - 1) (decode_triple (map base64_find (zero_from i a4))))
          else ret)"

section \<open>The reference: 6-bit digits\<close>

definition b64_digit :: "nat \<Rightarrow> char" where
  "b64_digit d = base64_chars ! d"

fun b64_spec :: "nat list \<Rightarrow> string" where
  "b64_spec [] = []"
| "b64_spec [a] = [b64_digit (a div 4), b64_digit (a mod 4 * 16), CHR ''='', CHR ''='']"
| "b64_spec [a, b] =
     [b64_digit (a div 4), b64_digit (a mod 4 * 16 + b div 16), b64_digit (b mod 16 * 4), CHR ''='']"
| "b64_spec (a # b # c # bs) =
     b64_digit (a div 4) # b64_digit (a mod 4 * 16 + b div 16) #
     b64_digit (b mod 16 * 4 + c div 64) # b64_digit (c mod 64) # b64_spec bs"

subsection \<open>Bit operations as arithmetic\<close>

lemma and_numeral_masks:
  fixes x :: "8 word"
  shows "x AND 0x03 = take_bit 2 x" "x AND 0x0f = take_bit 4 x" "x AND 0x3f = take_bit 6 x"
  by (simp_all add: take_bit_eq_mask mask_eq_exp_minus_1)

lemma drop_numeral_masks:
  fixes x :: "8 word"
  shows "drop_bit 2 (x AND 0xfc) = take_bit 6 (drop_bit 2 x)"
    and "drop_bit 4 (x AND 0xf0) = take_bit 4 (drop_bit 4 x)"
    and "drop_bit 6 (x AND 0xc0) = take_bit 2 (drop_bit 6 x)"
    and "drop_bit 4 (x AND 0x30) = take_bit 2 (drop_bit 4 x)"
    and "drop_bit 2 (x AND 0x3c) = take_bit 4 (drop_bit 2 x)"
  by (simp_all add: drop_bit_and take_bit_eq_mask mask_eq_exp_minus_1)

lemma byte_lt [simp]: "unat (x :: 8 word) < 256"
proof -
  have "unat x < 2 ^ LENGTH(8)" by (rule unsigned_less)
  then show ?thesis by simp
qed

lemma unat_take:
  fixes x :: "8 word"
  shows "unat (take_bit n x) = unat x mod 2 ^ n"
  by (simp only: unsigned_take_bit_eq) (simp add: take_bit_eq_mod)

lemma unat_drop:
  fixes x :: "8 word"
  shows "unat (drop_bit n x) = unat x div 2 ^ n"
  by (simp only: unsigned_drop_bit_eq) (simp add: take_bit_eq_mod drop_bit_eq_div)

lemma unat_push:
  fixes x :: "8 word"
  shows "unat (push_bit n x) = (unat x * 2 ^ n) mod 256"
  by (simp only: unsigned_push_bit_eq) (simp add: take_bit_eq_mod push_bit_eq_mult)

lemma unat_plus8: "unat (x + y :: 8 word) = (unat x + unat y) mod 256"
  by (simp add: unat_word_ariths)

lemmas byte_arith = and_numeral_masks drop_numeral_masks unat_take unat_drop unat_push unat_plus8

lemma byte_div_bounds:
  fixes x :: "8 word"
  shows "unat x div 4 < 64" "unat x div 16 < 16" "unat x div 64 < 4"
  using byte_lt [of x] by (auto intro!: less_mult_imp_div_less)

lemma encode_quad_arith:
  "map unat (encode_quad [a, b, c]) =
     [unat a div 4, unat a mod 4 * 16 + unat b div 16,
      unat b mod 16 * 4 + unat c div 64, unat c mod 64]"
proof -
  have "unat a mod 4 < 4" "unat b mod 16 < 16" by simp_all
  moreover have "unat a mod 4 * 16 + unat b div 16 < 256" "unat b mod 16 * 4 + unat c div 64 < 256"
    using calculation byte_div_bounds [of b] byte_div_bounds [of c] by linarith+
  ultimately show ?thesis
    using byte_div_bounds [of a] byte_div_bounds [of b] byte_div_bounds [of c]
    by (simp add: encode_quad_def byte_arith)
qed

lemma decode_triple_arith:
  "map unat (decode_triple [p, q, r, s]) =
     [(unat p * 4 + unat q div 16 mod 4) mod 256,
      (unat q mod 16 * 16 + unat r div 4 mod 16) mod 256,
      (unat r mod 4 * 64 + unat s) mod 256]"
  by (simp add: decode_triple_def byte_arith mod_simps)

lemma length_alphabet: "length base64_chars = 64"
  by (simp add: base64_chars_def)

text \<open>Every index the encoder uses lies inside the alphabet.\<close>

lemma encode_quad_in_alphabet:
  "list_all (\<lambda>w. unat w < length base64_chars) (encode_quad [a, b, c])"
proof -
  have "unat a mod 4 < 4" "unat b mod 16 < 16" "unat c mod 64 < 64" by simp_all
  then have "unat a mod 4 * 16 + unat b div 16 < 64" "unat b mod 16 * 4 + unat c div 64 < 64"
    using byte_div_bounds [of b] byte_div_bounds [of c] by linarith+
  then have "list_all (\<lambda>n. n < 64) (map unat (encode_quad [a, b, c]))"
    unfolding encode_quad_arith using byte_div_bounds [of a] by simp
  then show ?thesis by (simp add: length_alphabet list_all_iff)
qed

text \<open>The alphabet: 64 characters, each its own index under \<open>find\<close>, each accepted by the decoder.\<close>

lemma char_of_byte_inverse [simp]: "byte_of_char (char_of_byte w) = w"
  by (simp add: byte_of_char_def char_of_byte_def)

lemma byte_of_char_inverse [simp]: "char_of_byte (byte_of_char c) = c"
  by (simp add: byte_of_char_def char_of_byte_def unat_of_nat)

lemma alphabet_codes:
  "base64_chars = map char_of ([65..<91] @ [97..<123] @ [48..<58] @ [43, 47 :: nat])"
proof -
  have "map of_char base64_chars = [65..<91] @ [97..<123] @ [48..<58] @ [43, 47 :: nat]"
    by (simp add: base64_chars_def upt_rec)
  then show ?thesis by (metis (no_types, lifting) char_of_char comp_apply list.map_comp map_idI)
qed

lemma distinct_alphabet: "distinct base64_chars"
proof -
  have "inj_on (char_of :: nat \<Rightarrow> char) {..<256}"
    by (rule inj_on_inverseI [where g = of_char]) simp
  moreover have "set ([65..<91] @ [97..<123] @ [48..<58] @ [43, 47 :: nat]) \<subseteq> {..<256}" by auto
  ultimately have "inj_on (char_of :: nat \<Rightarrow> char) (set ([65..<91] @ [97..<123] @ [48..<58] @ [43, 47]))"
    by (rule inj_on_subset)
  moreover have "distinct ([65..<91] @ [97..<123] @ [48..<58] @ [43, 47 :: nat])" by auto
  ultimately show ?thesis unfolding alphabet_codes distinct_map by blast
qed

lemma alphabet_accepted:
  assumes "c \<in> set base64_chars"
  shows "is_base64 (byte_of_char c)" and "c \<noteq> CHR ''=''"
proof -
  from assms obtain n :: nat where c: "c = char_of n"
    and "n \<in> set ([65..<91] @ [97..<123] @ [48..<58] @ [43, 47])"
    unfolding alphabet_codes set_map by (rule imageE)
  then have n: "n \<in> {65..<91} \<or> n \<in> {97..<123} \<or> n \<in> {48..<58} \<or> n = 43 \<or> n = 47"
    by auto
  then have n256: "n < 256" by auto
  then have u: "unat (byte_of_char c) = n"
    by (simp add: c byte_of_char_def unat_of_nat)
  have bc: "byte_of_char c = word_of_nat n" using n256 by (simp add: c byte_of_char_def)
  have "byte_of_char (CHR ''+'') = 43" "byte_of_char (CHR ''/'') = 47"
    by (simp_all add: byte_of_char_def)
  then show "is_base64 (byte_of_char c)"
    using n u bc by (auto simp: is_base64_def is_alnum_def word_le_nat_alt)
  have "(of_char c :: nat) = n" using n256 by (simp add: c)
  then show "c \<noteq> CHR ''=''" using n by auto
qed

lemma alphabet_find:
  assumes "d < 64"
  shows "base64_find (byte_of_char (b64_digit d)) = word_of_nat d"
proof -
  have d: "d < length base64_chars" using assms by (simp add: length_alphabet)
  have split: "base64_chars = [] @ take d base64_chars @ b64_digit d # drop (Suc d) base64_chars"
    using id_take_nth_drop [OF d] by (simp add: b64_digit_def)
  have "b64_digit d \<notin> set (take d base64_chars)"
    using distinct_alphabet split by (metis append_Nil distinct_append disjoint_insert(1) list.simps(15))
  then have "str_find base64_chars [b64_digit d] (length ([] :: string)) = Some (length ([] :: string) + length (take d base64_chars))"
    by (subst split) (rule str_find_char_first)
  then show ?thesis using d by (simp add: base64_find_def)
qed

lemma alphabet_digit:
  assumes "d < 64"
  shows "unat (base64_find (byte_of_char (b64_digit d))) = d"
    and "is_base64 (byte_of_char (b64_digit d))" and "b64_digit d \<noteq> CHR ''=''"
proof -
  have "b64_digit d \<in> set base64_chars" using assms by (simp add: b64_digit_def length_alphabet)
  from alphabet_accepted [OF this]
  show "is_base64 (byte_of_char (b64_digit d))" "b64_digit d \<noteq> CHR ''=''" by simp_all
  show "unat (base64_find (byte_of_char (b64_digit d))) = d"
    using assms by (simp add: alphabet_find unat_of_nat)
qed

lemma find_zero: "base64_find 0 = 255"
proof -
  have "\<not> is_base64 0"
    by (simp add: is_base64_def is_alnum_def byte_of_char_def word_le_nat_alt)
  then have "char_of_byte 0 \<notin> set base64_chars"
    using alphabet_accepted(1) [of "char_of_byte 0"] by auto
  then show ?thesis by (simp add: base64_find_def str_find_def find_at_char_none)
qed

section \<open>The encoder computes the reference\<close>

lemma emit_digits: "map unat ws = ds \<Longrightarrow> emit ws n = map b64_digit (take n ds)"
  by (auto simp: emit_def b64_digit_def take_map)

lemma encode_loop_step:
  assumes "length a3 = 3"
  shows "encode_loop (a # b # c # bs) 0 a3 ret =
           encode_loop bs 0 [a, b, c] (ret @ emit (encode_quad [a, b, c]) 4)"
proof -
  from assms obtain x y z where "a3 = [x, y, z]"
    by (auto simp: length_Suc_conv numeral_3_eq_3)
  then show ?thesis by (simp add: Let_def numeral_3_eq_3)
qed

lemma emit_quad_all:
  "emit (encode_quad [a, b, c]) 4 =
     [b64_digit (unat a div 4), b64_digit (unat a mod 4 * 16 + unat b div 16),
      b64_digit (unat b mod 16 * 4 + unat c div 64), b64_digit (unat c mod 64)]"
  by (subst emit_digits [OF encode_quad_arith]) simp

lemma encode_loop_spec:
  "length a3 = 3 \<Longrightarrow>
   (case encode_loop bs 0 a3 ret of (i, a, r) \<Rightarrow>
      if i \<noteq> 0 then r @ emit (encode_quad (zero_from i a)) (i + 1) @ replicate (3 - i) (CHR ''='') else r)
   = ret @ b64_spec (map unat bs)"
proof (induction "map unat bs" arbitrary: bs a3 ret rule: b64_spec.induct)
  case (1 bs)
  then show ?case by simp
next
  case (2 a bs)
  then obtain w x y z where "bs = [w]" "a3 = [x, y, z]"
    by (auto simp: length_Suc_conv numeral_3_eq_3)
  then show ?case
    by (simp add: zero_from_def emit_digits [OF encode_quad_arith] numeral_2_eq_2)
next
  case (3 a b bs)
  then obtain v w x y z where "bs = [v, w]" "a3 = [x, y, z]"
    by (auto simp: length_Suc_conv numeral_3_eq_3)
  then show ?case
    by (simp add: zero_from_def emit_digits [OF encode_quad_arith] numeral_3_eq_3)
next
  case (4 a b c ns bs)
  then obtain u v w bs' where bs: "bs = u # v # w # bs'" "ns = map unat bs'"
    by (auto simp: Cons_eq_map_conv)
  have "length [u, v, w] = 3" by simp
  from "4.hyps"(1) [OF bs(2) this] "4.prems" show ?case
    by (simp only: bs(1) encode_loop_step emit_quad_all) (simp add: append_assoc)
qed

text \<open>
  C28: \<open>base64_encode\<close> is the base64 of RFC 4648, padding included, of the first \<open>in_len\<close> bytes;
  the indeterminate initial contents of its array never matter.
\<close>

theorem base64_encode_is_rfc4648:
  assumes "length junk = 3"
  shows "base64_encode junk bytes in_len = b64_spec (map unat (take in_len bytes))"
  using encode_loop_spec [OF assms, of "take in_len bytes" "[]"] by (simp add: base64_encode_def)

theorem base64_encode_is_rfc4648_witness:
  "base64_encode [7, 8, 9] [77, 97, 110, 77] 4 = b64_spec (map unat (take 4 [77, 97, 110, 77 :: 8 word]))
   \<and> b64_spec [77, 97, 110, 77] = ''TWFuTQ==''"
proof
  show "base64_encode [7, 8, 9] [77, 97, 110, 77] 4 = b64_spec (map unat (take 4 [77, 97, 110, 77 :: 8 word]))"
    by (rule base64_encode_is_rfc4648) simp
  show "b64_spec [77, 97, 110, 77] = ''TWFuTQ==''"
    by (simp add: b64_digit_def base64_chars_def)
qed

lemma b64_spec_length: "length (b64_spec ns) = 4 * ((length ns + 2) div 3)"
proof (induction ns rule: b64_spec.induct)
  case (4 a b c bs)
  have "(length (a # b # c # bs) + 2) div 3 = (length bs + 2) div 3 + 1"
    using div_add_self1 [of 3 "length bs + 2"] by simp
  with 4 show ?case by simp
qed simp_all

section \<open>The decoder inverts it\<close>

lemma decode_loop_quad:
  assumes "length a4 = 4" and "d0 < 64" "d1 < 64" "d2 < 64" "d3 < 64"
  shows "decode_loop (b64_digit d0 # b64_digit d1 # b64_digit d2 # b64_digit d3 # cs) 0 a4 ret =
     (let t = [word_of_nat d0, word_of_nat d1, word_of_nat d2, word_of_nat d3] in
      decode_loop cs 0 t (ret @ map char_of_byte (decode_triple t)))"
proof -
  from assms(1) obtain w x y z where "a4 = [w, x, y, z]"
    by (auto simp: length_Suc_conv eval_nat_numeral)
  then show ?thesis
    using assms(2-) by (simp add: alphabet_digit alphabet_find Let_def eval_nat_numeral)
qed

lemma quad_digits_small:
  assumes "a < 256" "b < 256" "c < (256 :: nat)"
  shows "a div 4 < 64" "a mod 4 * 16 + b div 16 < 64" "b mod 16 * 4 + c div 64 < 64" "c mod 64 < 64"
    "a mod 4 * 16 < 64" "b mod 16 * 4 < 64"
proof -
  have "a mod 4 < 4" "b mod 16 < 16" by simp_all
  moreover have "a div 4 < 64" "b div 16 < 16" "c div 64 < 4"
    using assms by (auto intro!: less_mult_imp_div_less)
  ultimately show "a div 4 < 64" "a mod 4 * 16 + b div 16 < 64" "b mod 16 * 4 + c div 64 < 64"
    "a mod 4 * 16 < 64" "b mod 16 * 4 < 64"
    by linarith+
  show "c mod 64 < 64" by simp
qed

lemma bytes_eqI: "map unat xs = map unat ys \<Longrightarrow> xs = (ys :: 8 word list)"
  by (rule map_injective [of unat]) (auto intro: injI)

lemma digit_of_nat: "d < 64 \<Longrightarrow> unat (word_of_nat d :: 8 word) = d"
  by (simp add: unat_of_nat)

lemma regroup_arith:
  assumes "a < 256" "b < 256" "c < (256 :: nat)"
  shows "a div 4 * 4 + (a mod 4 * 16 + b div 16) div 16 mod 4 = a"
    and "(a mod 4 * 16 + b div 16) mod 16 * 16 + (b mod 16 * 4 + c div 64) div 4 mod 16 = b"
    and "(b mod 16 * 4 + c div 64) mod 4 * 64 + c mod 64 = c"
proof -
  have mix: "x < k \<Longrightarrow> (y * k + x) div k = y" "x < k \<Longrightarrow> (y * k + x) mod k = x" for x y k :: nat
    by (simp_all add: div_mult_self3)
  have q: "b div 16 < 16" "c div 64 < 4"
    using assms by (auto intro!: less_mult_imp_div_less)
  show "a div 4 * 4 + (a mod 4 * 16 + b div 16) div 16 mod 4 = a"
    by (simp only: mix(1) [OF q(1)] mod_mod_trivial div_mult_mod_eq)
  show "(a mod 4 * 16 + b div 16) mod 16 * 16 + (b mod 16 * 4 + c div 64) div 4 mod 16 = b"
    by (simp only: mix(2) [OF q(1)] mix(1) [OF q(2)] mod_mod_trivial div_mult_mod_eq)
  show "(b mod 16 * 4 + c div 64) mod 4 * 64 + c mod 64 = c"
    by (simp only: mix(2) [OF q(2)] div_mult_mod_eq)
qed

lemma decode_triple_quad:
  "decode_triple [word_of_nat (unat a div 4), word_of_nat (unat a mod 4 * 16 + unat b div 16),
     word_of_nat (unat b mod 16 * 4 + unat c div 64), word_of_nat (unat c mod 64)] = [a, b, c]"
proof (rule bytes_eqI)
  note small = quad_digits_small [OF byte_lt [of a] byte_lt [of b] byte_lt [of c]]
  note group = regroup_arith [OF byte_lt [of a] byte_lt [of b] byte_lt [of c]]
  show "map unat (decode_triple [word_of_nat (unat a div 4),
      word_of_nat (unat a mod 4 * 16 + unat b div 16),
      word_of_nat (unat b mod 16 * 4 + unat c div 64), word_of_nat (unat c mod 64)]) =
      map unat [a, b, c]"
    unfolding decode_triple_arith digit_of_nat [OF small(1)] digit_of_nat [OF small(2)]
      digit_of_nat [OF small(3)] digit_of_nat [OF small(4)]
    by (simp only: group) simp
qed

text \<open>The last, partial group: the indices of \<open>'\<nul>'\<close> (\<open>npos\<close>, cut to 255) reach only dropped bytes.\<close>

lemma decode_pair:
  "take 1 (decode_triple [word_of_nat (unat a div 4), word_of_nat (unat a mod 4 * 16), x, y]) = [a]"
proof (rule bytes_eqI)
  note small = quad_digits_small [OF byte_lt [of a] byte_lt byte_lt]
  have "unat a div 4 * 4 + unat a mod 4 * 16 div 16 mod 4 = unat a"
    using regroup_arith(1) [OF byte_lt [of a], of 0 0] by simp
  note arith = this
  show "map unat (take 1 (decode_triple [word_of_nat (unat a div 4),
      word_of_nat (unat a mod 4 * 16), x, y])) = map unat [a]"
    unfolding take_map [symmetric] decode_triple_arith digit_of_nat [OF small(1)] digit_of_nat [OF small(5)] arith
    by (simp only: One_nat_def take_Suc_Cons take_0 list.map mod_less byte_lt)
qed

lemma take_two: "take 2 (x # y # xs) = [x, y]"
  by (simp add: numeral_2_eq_2)

lemma decode_two:
  "take 2 (decode_triple [word_of_nat (unat a div 4), word_of_nat (unat a mod 4 * 16 + unat b div 16),
     word_of_nat (unat b mod 16 * 4), x]) = [a, b]"
proof (rule bytes_eqI)
  note small = quad_digits_small [OF byte_lt [of a] byte_lt [of b] byte_lt]
  have "unat a div 4 * 4 + (unat a mod 4 * 16 + unat b div 16) div 16 mod 4 = unat a"
    "(unat a mod 4 * 16 + unat b div 16) mod 16 * 16 + unat b mod 16 * 4 div 4 mod 16 = unat b"
    using regroup_arith(1,2) [OF byte_lt [of a] byte_lt [of b], of 0] by simp_all
  note arith = this
  show "map unat (take 2 (decode_triple [word_of_nat (unat a div 4),
      word_of_nat (unat a mod 4 * 16 + unat b div 16), word_of_nat (unat b mod 16 * 4), x])) = map unat [a, b]"
    unfolding take_map [symmetric] decode_triple_arith digit_of_nat [OF small(1)]
      digit_of_nat [OF small(2)] digit_of_nat [OF small(6)] arith
    by (simp only: take_two list.map mod_less byte_lt)
qed

lemma decode_loop_stop:
  assumes "length a4 = 4" and "d0 < 64" "d1 < 64"
  shows "decode_loop (b64_digit d0 # b64_digit d1 # CHR ''='' # cs) 0 a4 ret =
           (2, a4[0 := byte_of_char (b64_digit d0), 1 := byte_of_char (b64_digit d1)], ret)"
    and "d2 < 64 \<Longrightarrow> decode_loop (b64_digit d0 # b64_digit d1 # b64_digit d2 # CHR ''='' # cs) 0 a4 ret =
           (3, a4[0 := byte_of_char (b64_digit d0), 1 := byte_of_char (b64_digit d1),
                  2 := byte_of_char (b64_digit d2)], ret)"
  using assms(2-) by (simp_all add: alphabet_digit Let_def eval_nat_numeral)

lemma zero_from_pair: "zero_from 2 ([w, x, y, z][0 := p, 1 := q]) = [p, q, 0, 0]"
  and zero_from_two: "zero_from 3 ([w, x, y, z][0 := p, 1 := q, 2 := r]) = [p, q, r, 0]"
  by (simp_all add: zero_from_def eval_nat_numeral)

lemma decode_loop_spec:
  "length a4 = 4 \<Longrightarrow>
   (case decode_loop (b64_spec (map unat bs)) 0 a4 ret of (i, a, r) \<Rightarrow>
      if i \<noteq> 0
      then r @ map char_of_byte (take (i - 1) (decode_triple (map base64_find (zero_from i a))))
      else r)
   = ret @ map char_of_byte bs"
proof (induction "map unat bs" arbitrary: bs a4 ret rule: b64_spec.induct)
  case (1 bs)
  then show ?case by simp
next
  case (2 a bs)
  then obtain v w x y z where bs: "bs = [v]" and a4: "a4 = [w, x, y, z]"
    by (auto simp: length_Suc_conv eval_nat_numeral)
  note small = quad_digits_small [OF byte_lt [of v] byte_lt byte_lt]
  from 2 show ?case
    unfolding bs list.map b64_spec.simps decode_loop_stop(1) [OF "2.prems" small(1,5)]
    using decode_pair [of v] alphabet_find [OF small(1)] alphabet_find [OF small(5)]
    by (simp only: a4 zero_from_pair prod.case list.map) (simp del: take_Suc_Cons)
next
  case (3 a b bs)
  then obtain u v w x y z where bs: "bs = [u, v]" and a4: "a4 = [w, x, y, z]"
    by (auto simp: length_Suc_conv eval_nat_numeral)
  note small = quad_digits_small [OF byte_lt [of u] byte_lt [of v] byte_lt]
  from 3 show ?case
    unfolding bs list.map b64_spec.simps decode_loop_stop(2) [OF "3.prems" small(1,2,6)]
    using decode_two [of u v] alphabet_find [OF small(1)] alphabet_find [OF small(2)] alphabet_find [OF small(6)]
    by (simp only: a4 zero_from_two prod.case list.map) (simp del: take_Suc_Cons)
next
  case (4 a b c ns bs)
  then obtain u v w bs' where bs: "bs = u # v # w # bs'" "ns = map unat bs'"
    by (auto simp: Cons_eq_map_conv)
  note small = quad_digits_small [OF byte_lt [of u] byte_lt [of v] byte_lt [of w]]
  let ?t = "[word_of_nat (unat u div 4), word_of_nat (unat u mod 4 * 16 + unat v div 16),
    word_of_nat (unat v mod 16 * 4 + unat w div 64), word_of_nat (unat w mod 64)] :: 8 word list"
  have "length ?t = 4" by simp
  from "4.hyps"(1) [OF bs(2) this] show ?case
    unfolding bs(1) list.map b64_spec.simps
      decode_loop_quad [OF "4.prems" small(1,2,3,4)] Let_def decode_triple_quad
    by simp
qed



end
