(* ===== verification/FmtBuffer.thy ===== *)
theory FmtBuffer
  imports Prelude
begin

text \<open>
  \<open>fmt::internal::Buffer\<close>, \<open>MemoryBuffer\<close> and \<open>FixedBuffer\<close> of \<open>include/utils/format.h\<close> and
  \<open>lib/format.cc\<close>: a contiguous character store with a size and a capacity, that grows by half.

  The storage behind \<open>ptr_\<close> is a list of \<open>capacity_\<close> elements; those at \<open>size_\<close> and beyond are
  indeterminate. Storage that \<open>allocate\<close> returns is filled with an arbitrary element, the
  parameter \<open>junk\<close>, of which no result depends. \<open>grow\<close> is the virtual member: a parameter of the
  operations that call it.
\<close>

section \<open>The store\<close>

record 'a buf =
  ptr :: "'a list"
  buf_size :: nat
  buf_capacity :: nat

definition buffer_ok :: "'a buf \<Rightarrow> bool" where
  "buffer_ok b \<longleftrightarrow> length (ptr b) = buf_capacity b \<and> buf_size b \<le> buf_capacity b"

text \<open>What a buffer means: the elements written.\<close>

definition written :: "'a buf \<Rightarrow> 'a list" where
  "written b = take (buf_size b) (ptr b)"

definition memory_buffer :: "nat \<Rightarrow> 'a \<Rightarrow> 'a buf" where
  "memory_buffer n junk = \<lparr>ptr = replicate n junk, buf_size = 0, buf_capacity = n\<rparr>"

text \<open>\<open>MemoryBuffer::grow\<close>: the larger of the request and one and a half times the old capacity.\<close>

definition memory_grow :: "'a \<Rightarrow> nat \<Rightarrow> 'a buf \<Rightarrow> 'a buf outcome" where
  "memory_grow junk n b =
     (let new_capacity = max n (buf_capacity b + buf_capacity b div 2) in
      Inr (b\<lparr>ptr := take (buf_size b) (ptr b) @ replicate (new_capacity - buf_size b) junk,
             buf_capacity := new_capacity\<rparr>))"

definition fixed_grow :: "nat \<Rightarrow> 'a buf \<Rightarrow> 'a buf outcome" where
  "fixed_grow n b = Inl RuntimeError"

section \<open>Operations\<close>

definition buf_clear :: "'a buf \<Rightarrow> 'a buf" where
  "buf_clear b = b\<lparr>buf_size := 0\<rparr>"

definition buf_reserve :: "(nat \<Rightarrow> 'a buf \<Rightarrow> 'a buf outcome) \<Rightarrow> nat \<Rightarrow> 'a buf \<Rightarrow> 'a buf outcome" where
  "buf_reserve grow n b = (if n > buf_capacity b then grow n b else Inr b)"

definition buf_resize :: "(nat \<Rightarrow> 'a buf \<Rightarrow> 'a buf outcome) \<Rightarrow> nat \<Rightarrow> 'a buf \<Rightarrow> 'a buf outcome" where
  "buf_resize grow new_size b =
     bind_outcome (if new_size > buf_capacity b then grow new_size b else Inr b)
       (\<lambda>b'. Inr (b'\<lparr>buf_size := new_size\<rparr>))"

definition buf_push_back :: "(nat \<Rightarrow> 'a buf \<Rightarrow> 'a buf outcome) \<Rightarrow> 'a \<Rightarrow> 'a buf \<Rightarrow> 'a buf outcome" where
  "buf_push_back grow v b =
     bind_outcome (if buf_size b = buf_capacity b then grow (buf_size b + 1) b else Inr b)
       (\<lambda>b'. Inr (b'\<lparr>ptr := (ptr b')[buf_size b' := v], buf_size := buf_size b' + 1\<rparr>))"

text \<open>\<open>std::copy\<close> of \<open>xs\<close> to position \<open>i\<close> of an array that has room for it.\<close>

definition copy_at :: "nat \<Rightarrow> 'a list \<Rightarrow> 'a list \<Rightarrow> 'a list" where
  "copy_at i xs a = take i a @ xs @ drop (i + length xs) a"

lemma take_copy_at: "i + length xs \<le> length a \<Longrightarrow> take (i + length xs) (copy_at i xs a) = take i a @ xs"
  by (simp add: copy_at_def)

lemma length_copy_at: "i + length xs \<le> length a \<Longrightarrow> length (copy_at i xs a) = length a"
  by (simp add: copy_at_def)

definition buf_append :: "(nat \<Rightarrow> 'a buf \<Rightarrow> 'a buf outcome) \<Rightarrow> 'a list \<Rightarrow> 'a buf \<Rightarrow> 'a buf outcome" where
  "buf_append grow xs b =
     bind_outcome (if buf_size b + length xs > buf_capacity b then grow (buf_size b + length xs) b else Inr b)
       (\<lambda>b'. Inr (b'\<lparr>ptr := copy_at (buf_size b') xs (ptr b'), buf_size := buf_size b' + length xs\<rparr>))"

text \<open>
  \<open>BasicWriter::grow_buffer\<close>: resize by \<open>n\<close> and return the position of the new area; the writers
  then fill it in place with \<open>write_area\<close>.
\<close>

definition grow_buffer :: "(nat \<Rightarrow> 'a buf \<Rightarrow> 'a buf outcome) \<Rightarrow> nat \<Rightarrow> 'a buf \<Rightarrow> (nat \<times> 'a buf) outcome" where
  "grow_buffer grow n b = bind_outcome (buf_resize grow (buf_size b + n) b) (\<lambda>b'. Inr (buf_size b, b'))"

definition write_area :: "nat \<Rightarrow> 'a list \<Rightarrow> 'a buf \<Rightarrow> 'a buf" where
  "write_area i xs b = b\<lparr>ptr := copy_at i xs (ptr b)\<rparr>"

section \<open>The contract of a growth policy\<close>

text \<open>
  What the operations rely on: \<open>grow\<close> keeps the elements and the size and reaches the capacity it
  was asked for, unless it throws.
\<close>

locale growable =
  fixes grow :: "nat \<Rightarrow> 'a buf \<Rightarrow> 'a buf outcome"
  assumes grow_keeps: "buffer_ok b \<Longrightarrow> buf_capacity b < n \<Longrightarrow> grow n b = Inr b' \<Longrightarrow>
      buffer_ok b' \<and> n \<le> buf_capacity b' \<and> buf_size b' = buf_size b \<and> written b' = written b"
begin

lemma ensured:
  assumes "buffer_ok b" and "(if n > buf_capacity b then grow n b else Inr b) = Inr b'"
  shows "buffer_ok b' \<and> n \<le> buf_capacity b' \<and> buf_size b' = buf_size b \<and> written b' = written b"
  using assms grow_keeps [of b n b'] by (auto split: if_splits)

lemma reserve_keeps:
  assumes "buffer_ok b" and "buf_reserve grow n b = Inr b'"
  shows "buffer_ok b' \<and> n \<le> buf_capacity b' \<and> written b' = written b"
  using ensured [OF assms(1), of n b'] assms(2) by (simp add: buf_reserve_def)

lemma push_back_appends:
  assumes ok: "buffer_ok b" and step: "buf_push_back grow v b = Inr b'"
  shows "buffer_ok b' \<and> written b' = written b @ [v]"
proof -
  from step obtain c where c: "(if buf_size b = buf_capacity b then grow (buf_size b + 1) b else Inr b) = Inr c"
    and b': "b' = c\<lparr>ptr := (ptr c)[buf_size c := v], buf_size := buf_size c + 1\<rparr>"
    by (auto simp: buf_push_back_def bind_outcome_eq_Inr)
  have "buffer_ok c \<and> buf_size c < buf_capacity c \<and> buf_size c = buf_size b \<and> written c = written b"
  proof (cases "buf_size b = buf_capacity b")
    case True
    with c ok grow_keeps [of b "buf_size b + 1" c] show ?thesis by simp
  next
    case False
    with c ok show ?thesis by (auto simp: buffer_ok_def)
  qed
  moreover from this have "written b' = written c @ [v]"
    by (simp add: b' buffer_ok_def written_def take_Suc_conv_app_nth)
  ultimately show ?thesis by (simp add: b' buffer_ok_def)
qed

lemma append_appends:
  assumes ok: "buffer_ok b" and step: "buf_append grow xs b = Inr b'"
  shows "buffer_ok b' \<and> written b' = written b @ xs"
proof -
  from step obtain c where c: "(if buf_size b + length xs > buf_capacity b then grow (buf_size b + length xs) b else Inr b) = Inr c"
    and b': "b' = c\<lparr>ptr := copy_at (buf_size c) xs (ptr c), buf_size := buf_size c + length xs\<rparr>"
    by (auto simp: buf_append_def bind_outcome_eq_Inr)
  note c_ok = ensured [OF ok c]
  then have "written b' = written c @ xs"
    by (simp add: b' buffer_ok_def written_def copy_at_def)
  moreover have "buffer_ok b'" using c_ok by (auto simp: b' buffer_ok_def copy_at_def)
  ultimately show ?thesis using c_ok by metis
qed

lemma grow_buffer_area:
  assumes ok: "buffer_ok b" and step: "grow_buffer grow n b = Inr (i, b')" and len: "length xs = n"
  shows "buffer_ok (write_area i xs b') \<and> written (write_area i xs b') = written b @ xs"
proof -
  from step obtain c where c: "(if buf_size b + n > buf_capacity b then grow (buf_size b + n) b else Inr b) = Inr c"
    and b': "b' = c\<lparr>buf_size := buf_size b + n\<rparr>" and i: "i = buf_size b"
    unfolding grow_buffer_def buf_resize_def bind_outcome_eq_Inr by blast
  note c_ok = ensured [OF ok c]
  then have size: "buf_size c = buf_size b" and room: "buf_size c + length xs \<le> length (ptr c)"
    using len by (simp_all add: buffer_ok_def)
  have "written (write_area i xs b') = take (buf_size c + length xs) (copy_at (buf_size c) xs (ptr c))"
    unfolding b' i write_area_def written_def size len by simp
  also have "\<dots> = written c @ xs" using take_copy_at [OF room] by (simp add: written_def)
  finally have "written (write_area i xs b') = written c @ xs" .
  moreover have "buffer_ok (write_area i xs b')"
    using c_ok len size length_copy_at [OF room] by (simp add: b' i write_area_def buffer_ok_def)
  ultimately show ?thesis using c_ok by metis
qed

end

text \<open>\<open>MemoryBuffer\<close> never throws (allocation failure apart), \<open>FixedBuffer\<close> always does.\<close>

locale total_growable = growable +
  assumes grow_total: "\<exists>b'. grow n b = Inr b'"
begin

lemma append_total: "buffer_ok b \<Longrightarrow> \<exists>b'. buf_append grow xs b = Inr b' \<and> buffer_ok b' \<and> written b' = written b @ xs"
proof -
  assume ok: "buffer_ok b"
  obtain c where "grow (buf_size b + length xs) b = Inr c" using grow_total by blast
  then have "\<exists>b'. buf_append grow xs b = Inr b'" by (simp add: buf_append_def)
  then obtain b' where "buf_append grow xs b = Inr b'" ..
  with append_appends [OF ok this] show ?thesis by blast
qed

lemma push_back_total: "buffer_ok b \<Longrightarrow> \<exists>b'. buf_push_back grow v b = Inr b' \<and> buffer_ok b' \<and> written b' = written b @ [v]"
proof -
  assume ok: "buffer_ok b"
  obtain c where "grow (buf_size b + 1) b = Inr c" using grow_total by blast
  then have "\<exists>b'. buf_push_back grow v b = Inr b'" by (auto simp: buf_push_back_def)
  then obtain b' where "buf_push_back grow v b = Inr b'" ..
  with push_back_appends [OF ok this] show ?thesis by blast
qed

end

interpretation memory: total_growable "memory_grow junk" for junk :: 'a
proof
  fix b b' :: "'a buf" and n
  assume "buffer_ok b" "buf_capacity b < n" "memory_grow junk n b = Inr b'"
  then show "buffer_ok b' \<and> n \<le> buf_capacity b' \<and> buf_size b' = buf_size b \<and> written b' = written b"
    by (auto simp: memory_grow_def buffer_ok_def written_def Let_def)
next
  fix b :: "'a buf" and n
  show "\<exists>b'. memory_grow junk n b = Inr b'" by (simp add: memory_grow_def Let_def)
qed

interpretation fixed: growable "fixed_grow :: nat \<Rightarrow> 'a buf \<Rightarrow> 'a buf outcome"
  by unfold_locales (simp add: fixed_grow_def)

lemma memory_buffer_ok: "buffer_ok (memory_buffer n junk) \<and> written (memory_buffer n junk) = []"
  by (simp add: memory_buffer_def buffer_ok_def written_def)

text \<open>
  Appending to a \<open>MemoryBuffer\<close> always succeeds, keeps its invariant and adds exactly the given
  elements at the end, across any reallocation and whatever fresh storage holds.
\<close>

theorem memory_buffer_append:
  assumes "buffer_ok b"
  shows "\<exists>b'. buf_append (memory_grow junk) xs b = Inr b' \<and> buffer_ok b' \<and> written b' = written b @ xs"
  using assms by (rule memory.append_total)

theorem memory_buffer_append_witness:
  "\<exists>b'. buf_append (memory_grow (0 :: nat)) [1, 2, 3] (memory_buffer 2 7) = Inr b' \<and> buffer_ok b' \<and>
     written b' = written (memory_buffer 2 7) @ [1, 2, 3]"
  by (rule memory_buffer_append) (simp add: memory_buffer_ok)

text \<open>
  A sequence of appends reallocates rarely: every \<open>grow\<close> at least multiplies the capacity by 3/2.
\<close>

lemma memory_grow_half:
  "memory_grow junk n b = Inr b' \<Longrightarrow> buf_capacity b + buf_capacity b div 2 \<le> buf_capacity b' \<and> n \<le> buf_capacity b'"
  by (auto simp: memory_grow_def Let_def)

text \<open>
  A \<open>FixedBuffer\<close> takes an append exactly when it fits and throws \<open>std::runtime_error\<close> otherwise.
\<close>

theorem fixed_buffer_append:
  assumes "buffer_ok b"
  shows "case buf_append fixed_grow xs b of
      Inl e \<Rightarrow> e = RuntimeError \<and> buf_capacity b < buf_size b + length xs
    | Inr b' \<Rightarrow> buf_size b + length xs \<le> buf_capacity b \<and> buffer_ok b' \<and> written b' = written b @ xs"
proof (cases "buf_append fixed_grow xs b")
  case (Inl e)
  then show ?thesis by (auto simp: buf_append_def fixed_grow_def split: if_splits)
next
  case (Inr b')
  from Inr have "buf_size b + length xs \<le> buf_capacity b"
    by (auto simp: buf_append_def fixed_grow_def split: if_splits)
  with Inr fixed.append_appends [OF assms Inr] show ?thesis by simp
qed

theorem fixed_buffer_append_witness:
  "buf_append fixed_grow [1, 2, 3 :: nat] (memory_buffer 2 0) = Inl RuntimeError \<and>
   (case buf_append fixed_grow [1, 2, 3 :: nat] (memory_buffer 2 0) of
      Inl e \<Rightarrow> e = RuntimeError \<and> buf_capacity (memory_buffer 2 (0 :: nat)) < buf_size (memory_buffer 2 (0 :: nat)) + length [1, 2, 3 :: nat]
    | Inr b' \<Rightarrow> buf_size (memory_buffer 2 (0 :: nat)) + length [1, 2, 3 :: nat] \<le> buf_capacity (memory_buffer 2 (0 :: nat)) \<and>
        buffer_ok b' \<and> written b' = written (memory_buffer 2 0) @ [1, 2, 3])"
proof
  show "buf_append fixed_grow [1, 2, 3 :: nat] (memory_buffer 2 0) = Inl RuntimeError"
    by (simp add: buf_append_def memory_buffer_def fixed_grow_def)
qed (rule fixed_buffer_append, simp add: memory_buffer_ok)

end
