(* ===== verification/Records.thy ===== *)
theory Records
  imports TextUtils
begin

text \<open>
  The records of the sensor and how they are made from trace lines: \<open>SysRecord\<close> and
  \<open>SysParamsRecord\<close> (\<open>include/sensor/trace/sys_record.h\<close>, \<open>sys_params_record.h\<close>), the two line
  collectors (\<open>syscalls.h\<close>, \<open>syscall_params.h\<close>), \<open>DataAggregator\<close> and \<open>EventsBulk\<close>.

  References point into the buffer of a bulk, the argument \<open>text\<close>. A \<open>pid_t\<close> is an \<open>int\<close> and a
  \<open>syscall_t\<close> a \<open>short\<close> (\<open>include/utils/types.h\<close>).
\<close>

section \<open>Scanning by iterator\<close>

text \<open>
  \<open>while (begin != end) { if (*begin == ' ') break; v = step v *begin; ++begin; }\<close>
\<close>

function scan_digits :: "(int \<Rightarrow> char \<Rightarrow> int outcome) \<Rightarrow> string \<Rightarrow> int \<Rightarrow> int \<Rightarrow> int \<Rightarrow> int outcome" where
  "scan_digits step text b e v =
     (if b = e then Inr v
      else (case deref text b of
              Inl f \<Rightarrow> Inl f
            | Inr c \<Rightarrow> if c = CHR '' '' then Inr v
                       else bind_outcome (step v c) (\<lambda>v'. scan_digits step text (b + 1) e v')))"
  by pat_completeness auto
termination
  by (relation "measure (\<lambda>(step, text, b, e, v). nat (int (length text) - b))")
     (auto simp: deref_def split: if_splits)

declare scan_digits.simps [simp del]

text \<open>\<open>while (p(*i)) ++i\<close> and \<open>while (p(*i)) --i\<close>: the loops test no bound.\<close>

function skip_forward :: "(char \<Rightarrow> bool) \<Rightarrow> string \<Rightarrow> int \<Rightarrow> int outcome" where
  "skip_forward p text i =
     (case deref text i of Inl f \<Rightarrow> Inl f | Inr c \<Rightarrow> if p c then skip_forward p text (i + 1) else Inr i)"
  by pat_completeness auto
termination
  by (relation "measure (\<lambda>(p, text, i). nat (int (length text) - i))")
     (auto simp: deref_def split: if_splits)

function skip_backward :: "(char \<Rightarrow> bool) \<Rightarrow> string \<Rightarrow> int \<Rightarrow> int outcome" where
  "skip_backward p text i =
     (case deref text i of Inl f \<Rightarrow> Inl f | Inr c \<Rightarrow> if p c then skip_backward p text (i - 1) else Inr i)"
  by pat_completeness auto
termination
  by (relation "measure (\<lambda>(p, text, i). nat (i + 1))") (auto simp: deref_def split: if_splits)

declare skip_forward.simps [simp del] skip_backward.simps [simp del]

section \<open>Records\<close>

record sys_record =
  rec_pid :: int
  rec_syscall :: int

definition set_pid :: "string \<Rightarrow> string_ref \<Rightarrow> ('a) sys_record_scheme \<Rightarrow> ('a) sys_record_scheme outcome" where
  "set_pid text pid r =
     bind_outcome (scan_digits int_step text (sr_begin pid) (sr_end pid) (rec_pid r))
       (\<lambda>v. Inr (r\<lparr>rec_pid := v\<rparr>))"

definition set_syscall :: "string \<Rightarrow> string_ref \<Rightarrow> ('a) sys_record_scheme \<Rightarrow> ('a) sys_record_scheme outcome" where
  "set_syscall text syscall_id r =
     bind_outcome (scan_digits short_step text (sr_begin syscall_id) (sr_end syscall_id) (rec_syscall r))
       (\<lambda>v. Inr (r\<lparr>rec_syscall := v\<rparr>))"

definition mk_sys_record :: "string \<Rightarrow> string_ref \<Rightarrow> string_ref \<Rightarrow> sys_record outcome" where
  "mk_sys_record text pid syscall =
     bind_outcome (set_pid text pid \<lparr>rec_pid = 0, rec_syscall = 0\<rparr>) (set_syscall text syscall)"

record sys_params_record = sys_record +
  rec_name :: string
  rec_arg :: string

definition set_name :: "string \<Rightarrow> string_ref \<Rightarrow> sys_params_record \<Rightarrow> sys_params_record outcome" where
  "set_name text name r =
     bind_outcome (skip_forward (\<lambda>c. c = CHR '' '') text (sr_begin name)) (\<lambda>b.
     bind_outcome (skip_backward (\<lambda>c. c = CHR '' '') text (sr_end name)) (\<lambda>e.
     bind_outcome (range_chars text b e) (\<lambda>s. Inr (r\<lparr>rec_name := s\<rparr>))))"

text \<open>\<open>set_arg\<close> is defined; its call in the constructor is commented out.\<close>

definition set_arg :: "string \<Rightarrow> string_ref \<Rightarrow> sys_params_record \<Rightarrow> sys_params_record outcome" where
  "set_arg text arg r =
     bind_outcome (skip_forward (\<lambda>c. c \<noteq> CHR ''('') text (sr_begin arg)) (\<lambda>b.
     bind_outcome (skip_backward (\<lambda>c. c \<noteq> CHR '')'') text (sr_end arg)) (\<lambda>e.
     bind_outcome (range_chars text b (e + 1)) (\<lambda>s. Inr (r\<lparr>rec_arg := s\<rparr>))))"

definition mk_sys_params_record ::
    "string \<Rightarrow> string_ref \<Rightarrow> string_ref \<Rightarrow> string_ref \<Rightarrow> string_ref \<Rightarrow> sys_params_record outcome" where
  "mk_sys_params_record text name pid syscall arg =
     bind_outcome (set_pid text pid \<lparr>rec_pid = 0, rec_syscall = 0, rec_name = [], rec_arg = []\<rparr>) (\<lambda>r.
     bind_outcome (set_syscall text syscall r) (set_name text name))"

section \<open>DataAggregator\<close>

record 'a aggregator =
  agg_limit :: nat
  agg_data :: "'a list"

definition new_aggregator :: "nat \<Rightarrow> 'a aggregator" where
  "new_aggregator pack_size = \<lparr>agg_limit = pack_size, agg_data = []\<rparr>"

definition agg_append :: "'a \<Rightarrow> 'a aggregator \<Rightarrow> 'a aggregator" where
  "agg_append x d = d\<lparr>agg_data := agg_data d @ [x]\<rparr>"

definition agg_ready :: "'a aggregator \<Rightarrow> bool" where
  "agg_ready d \<longleftrightarrow> agg_limit d \<le> length (agg_data d)"

definition make_new_pack :: "'a aggregator \<Rightarrow> 'a list \<times> 'a aggregator" where
  "make_new_pack d = (agg_data d, d\<lparr>agg_data := []\<rparr>)"

section \<open>EventsBulk and the collectors\<close>

text \<open>A bulk takes over the chunk and the references into it.\<close>

record events_bulk =
  bulk_buffer :: string
  bulk_lines :: "string_ref list"

definition mk_bulk :: "string \<Rightarrow> string_ref list \<Rightarrow> events_bulk" where
  "mk_bulk buffer lines = \<lparr>bulk_buffer = buffer, bulk_lines = lines\<rparr>"

text \<open>\<open>SyscallsParams<T>::collect\<close> and \<open>Syscalls<T>::collect\<close>, one round of the loop each; \<open>mk\<close> is \<open>T\<close>'s constructor.\<close>

definition collect_params_line ::
    "(string \<Rightarrow> string_ref \<Rightarrow> string_ref \<Rightarrow> string_ref \<Rightarrow> string_ref \<Rightarrow> 'a outcome) \<Rightarrow>
     string \<Rightarrow> string_ref \<Rightarrow> 'a aggregator \<Rightarrow> 'a aggregator outcome" where
  "collect_params_line mk text it data =
     (if sr_size it > 60 then
        bind_outcome (mk_ref text (sr_begin it) 16) (\<lambda>name.
        bind_outcome (mk_ref text (sr_begin it + 17) 5) (\<lambda>pid.
        bind_outcome (mk_ref text (sr_begin it + 62) 3) (\<lambda>syscall.
        bind_outcome (mk_ref text (sr_begin it + 63) (size_of_ptrdiff (sr_end it - (sr_begin it + 63)))) (\<lambda>args.
        bind_outcome (mk text name pid syscall args) (\<lambda>r. Inr (agg_append r data))))))
      else Inr data)"

fun collect_params ::
    "(string \<Rightarrow> string_ref \<Rightarrow> string_ref \<Rightarrow> string_ref \<Rightarrow> string_ref \<Rightarrow> 'a outcome) \<Rightarrow>
     string \<Rightarrow> string_ref list \<Rightarrow> 'a aggregator \<Rightarrow> 'a aggregator outcome" where
  "collect_params mk text [] data = Inr data"
| "collect_params mk text (it # its) data =
     bind_outcome (collect_params_line mk text it data) (collect_params mk text its)"

definition collect_calls_line ::
    "(string \<Rightarrow> string_ref \<Rightarrow> string_ref \<Rightarrow> 'a outcome) \<Rightarrow>
     string \<Rightarrow> string_ref \<Rightarrow> 'a aggregator \<Rightarrow> 'a aggregator outcome" where
  "collect_calls_line mk text it data =
     (if sr_size it > 60 then
        bind_outcome (mk_ref text (sr_begin it + 17) 5) (\<lambda>pid.
        bind_outcome (mk_ref text (sr_begin it + 62) 3) (\<lambda>syscall.
        bind_outcome (mk text pid syscall) (\<lambda>r. Inr (agg_append r data))))
      else Inr data)"

fun collect_calls ::
    "(string \<Rightarrow> string_ref \<Rightarrow> string_ref \<Rightarrow> 'a outcome) \<Rightarrow>
     string \<Rightarrow> string_ref list \<Rightarrow> 'a aggregator \<Rightarrow> 'a aggregator outcome" where
  "collect_calls mk text [] data = Inr data"
| "collect_calls mk text (it # its) data =
     bind_outcome (collect_calls_line mk text it data) (collect_calls mk text its)"


section \<open>Scanning lemmas\<close>

lemma deref_append: "deref (us @ c # vs) (int (length us)) = Inr c"
  by (simp add: deref_def nth_append)

lemma deref_append_add: "deref (us @ xs @ c # vs) (int (length us) + int (length xs)) = Inr c"
  using deref_append [of "us @ xs" c vs] by simp

lemma scan_digits_run:
  assumes "list_all is_digit ds" and "vs = [] \<or> e = length us + length ds \<or> hd vs = CHR '' ''"
    and "length us + length ds \<le> e" and "vs = [] \<Longrightarrow> e = length us + length ds"
  shows "scan_digits step (us @ ds @ vs) (int (length us)) (int e) v = digit_run step v ds"
  using assms
proof (induction ds arbitrary: us v)
  case Nil
  show ?case
  proof (cases "e = length us")
    case True
    then show ?thesis by (simp add: scan_digits.simps)
  next
    case False
    with Nil obtain ws where "vs = CHR '' '' # ws" by (cases vs) auto
    with False show ?thesis by (subst scan_digits.simps) (simp add: deref_append)
  qed
next
  case (Cons c ds)
  have IH: "scan_digits step ((us @ [c]) @ ds @ vs) (int (length (us @ [c]))) (int e) w = digit_run step w ds" for w
    using Cons.prems by (intro Cons.IH) auto
  have "c \<noteq> CHR '' ''" using Cons.prems(1) by auto
  moreover have "int (length us) \<noteq> int e" using Cons.prems(3) by simp
  ultimately show ?case using IH
    by (subst scan_digits.simps) (cases "step v c"; simp add: deref_append add.commute)
qed

lemma skip_forward_run:
  "list_all p xs \<Longrightarrow> \<not> p c \<Longrightarrow>
   skip_forward p (us @ xs @ c # vs) (int (length us)) = Inr (int (length us) + int (length xs))"
proof (induction xs arbitrary: us)
  case Nil
  then show ?case by (subst skip_forward.simps) (simp add: deref_append)
next
  case (Cons x xs)
  have "skip_forward p ((us @ [x]) @ xs @ c # vs) (int (length (us @ [x]))) =
      Inr (int (length (us @ [x])) + int (length xs))"
    using Cons.prems by (intro Cons.IH) simp_all
  with Cons.prems show ?case
    by (subst skip_forward.simps) (simp add: deref_append add.commute add.left_commute)
qed

lemma skip_backward_stop:
  "\<not> p c \<Longrightarrow> skip_backward p (us @ c # vs) (int (length us)) = Inr (int (length us))"
  by (subst skip_backward.simps) (simp add: deref_append)

section \<open>The lines of the kernel's tracer\<close>

text \<open>
  A line of \<open>trace_pipe\<close> for a \<open>sys_enter\<close> event: the task's name right-justified in 16 columns, a
  dash, the task's number left-justified in five, 40 columns (processor, flags, time stamp, event
  name), the system call's number, a space and its arguments.
\<close>

record trace_entry =
  te_comm :: string
  te_pid :: nat
  te_mid :: string
  te_nr :: nat
  te_rest :: string

definition trace_line :: "trace_entry \<Rightarrow> string" where
  "trace_line t =
     replicate (16 - length (te_comm t)) (CHR '' '') @ te_comm t @ CHR ''-'' #
     dec_nat (te_pid t) @ replicate (5 - length (dec_nat (te_pid t))) (CHR '' '') @ te_mid t @
     dec_nat (te_nr t) @ CHR '' '' # te_rest t"

definition trace_entry_ok :: "trace_entry \<Rightarrow> bool" where
  "trace_entry_ok t \<longleftrightarrow>
     te_comm t \<noteq> [] \<and> hd (te_comm t) \<noteq> CHR '' '' \<and> length (te_comm t) \<le> 16 \<and>
     length (te_mid t) = 40 \<and> last (te_mid t) = CHR '' '' \<and> te_nr t < 1000 \<and>
     2 \<le> length (dec_nat (te_nr t)) + length (te_rest t) \<and>
     CHR 0x0A \<notin> set (te_comm t) \<union> set (te_mid t) \<union> set (te_rest t)"

text \<open>The record made from a line whose task number fits its five columns.\<close>

definition entry_record :: "trace_entry \<Rightarrow> sys_params_record" where
  "entry_record t =
     \<lparr>rec_pid = int (te_pid t), rec_syscall = int (te_nr t), rec_name = te_comm t, rec_arg = []\<rparr>"

lemma trace_line_no_newline: "trace_entry_ok t \<Longrightarrow> CHR 0x0A \<notin> set (trace_line t)"
  using dec_nat_no_control(1) [of "te_pid t"] dec_nat_no_control(1) [of "te_nr t"]
  by (auto simp: trace_entry_ok_def trace_line_def)

text \<open>The columns of a line, as prefixes of the text before and after each field.\<close>

lemma trace_name_exact:
  assumes ok: "trace_entry_ok t" and buf: "text = us @ trace_line t @ vs"
    and start: "sr_begin name = int (length us)" and size: "sr_size name = 16"
  shows "set_name text name r = Inr (r\<lparr>rec_name := te_comm t\<rparr>)"
proof -
  let ?n = "16 - length (te_comm t)" and ?post = "dec_nat (te_pid t) @
     replicate (5 - length (dec_nat (te_pid t))) (CHR '' '') @ te_mid t @
     dec_nat (te_nr t) @ CHR '' '' # te_rest t @ vs"
  obtain c cs where comm: "te_comm t = c # cs" and c: "c \<noteq> CHR '' ''"
    using ok by (cases "te_comm t") (auto simp: trace_entry_ok_def)
  have n: "?n + length (te_comm t) = 16" using ok by (simp add: trace_entry_ok_def)
  have buf': "text = us @ replicate ?n (CHR '' '') @ te_comm t @ CHR ''-'' # ?post"
    by (simp add: buf trace_line_def)
  have b: "skip_forward (\<lambda>c. c = CHR '' '') text (int (length us)) = Inr (int (length us) + int ?n)"
    unfolding buf' comm using c skip_forward_run [of "\<lambda>c. c = CHR '' ''" "replicate (16 - length (c # cs)) (CHR '' '')" c us
        "cs @ CHR ''-'' # ?post"] by (simp add: list_all_iff)
  have e: "skip_backward (\<lambda>c. c = CHR '' '') text (int (length us) + 16) = Inr (int (length us) + 16)"
    using skip_backward_stop [of "\<lambda>c. c = CHR '' ''" "CHR ''-''" "us @ replicate ?n (CHR '' '') @ te_comm t" ?post] n
    by (simp add: buf')
  have "range_chars text (int (length us + ?n)) (int (length us + ?n) + int (length (te_comm t))) = Inr (te_comm t)"
    by (subst range_chars_valid) (simp_all add: buf')
  moreover have "int (length us + ?n) + int (length (te_comm t)) = int (length us) + 16" using n by simp
  ultimately have "range_chars text (int (length us) + int ?n) (int (length us) + 16) = Inr (te_comm t)"
    by (simp only: of_nat_add)
  with b e show ?thesis by (simp add: set_name_def sr_end_def start size)
qed


lemma digit_run_append:
  "digit_run step v (xs @ ys) = bind_outcome (digit_run step v xs) (\<lambda>w. digit_run step w ys)"
  by (induction xs arbitrary: v) (auto simp: bind_outcome_assoc)

lemma trace_pid_exact:
  assumes ok: "trace_entry_ok t" and buf: "text = us @ trace_line t @ vs" and pid: "te_pid t < 10 ^ 5"
    and start: "sr_begin ref = int (length us) + 17" and size: "sr_size ref = 5" and zero: "rec_pid r = 0"
  shows "set_pid text ref r = Inr (r\<lparr>rec_pid := int (te_pid t)\<rparr>)"
proof -
  let ?ds = "dec_nat (te_pid t)"
  let ?us = "us @ replicate (16 - length (te_comm t)) (CHR '' '') @ te_comm t @ [CHR ''-'']"
  let ?vs = "replicate (5 - length ?ds) (CHR '' '') @ te_mid t @ dec_nat (te_nr t) @ CHR '' '' # te_rest t @ vs"
  have len: "length ?ds \<le> 5" using pid by (intro dec_nat_length) simp_all
  have us: "length ?us = length us + 17" using ok by (simp add: trace_entry_ok_def)
  have sp: "length us + 17 + 5 = length ?us + length ?ds \<or> hd ?vs = CHR '' ''"
    using len us by (cases "5 - length ?ds") auto
  have "scan_digits int_step (?us @ ?ds @ ?vs) (int (length ?us)) (int (length us + 17 + 5)) 0 = digit_run int_step 0 ?ds"
    using sp len us by (intro scan_digits_run dec_nat_digits) auto
  also have "\<dots> = Inr (int (te_pid t))" using pid by (intro int_loop.run_dec_nat) simp
  also have "?us @ ?ds @ ?vs = text" by (simp add: buf trace_line_def)
  finally have "scan_digits int_step text (int (length us) + 17) (int (length us) + 17 + 5) 0 = Inr (int (te_pid t))"
    by (simp only: us of_nat_add of_nat_numeral)
  then show ?thesis by (simp add: set_pid_def sr_end_def start size zero)
qed

lemma trace_syscall_exact:
  assumes ok: "trace_entry_ok t" and buf: "text = us @ trace_line t @ vs" and pid: "te_pid t < 10 ^ 5"
    and start: "sr_begin ref = int (length us) + 62" and size: "sr_size ref = 3" and zero: "rec_syscall r = 0"
  shows "set_syscall text ref r = Inr (r\<lparr>rec_syscall := int (te_nr t)\<rparr>)"
proof -
  let ?ds = "dec_nat (te_nr t)"
  let ?us = "us @ replicate (16 - length (te_comm t)) (CHR '' '') @ te_comm t @ CHR ''-'' #
     dec_nat (te_pid t) @ replicate (5 - length (dec_nat (te_pid t))) (CHR '' '') @ te_mid t"
  let ?vs = "CHR '' '' # te_rest t @ vs"
  have "length (dec_nat (te_pid t)) \<le> 5" using pid by (intro dec_nat_length) simp_all
  then have us: "length ?us = length us + 62" using ok by (simp add: trace_entry_ok_def)
  have nr: "te_nr t < 10 ^ 3" using ok by (simp add: trace_entry_ok_def)
  then have len: "length ?ds \<le> 3" by (intro dec_nat_length) simp_all
  have "scan_digits short_step (?us @ ?ds @ ?vs) (int (length ?us)) (int (length us + 62 + 3)) 0 = digit_run short_step 0 ?ds"
    using len us by (intro scan_digits_run dec_nat_digits) auto
  also have "\<dots> = Inr (int (te_nr t))" using nr by (intro short_loop.run_dec_nat) simp
  also have "?us @ ?ds @ ?vs = text" by (simp add: buf trace_line_def)
  finally have "scan_digits short_step text (int (length us) + 62) (int (length us) + 62 + 3) 0 = Inr (int (te_nr t))"
    by (simp only: us of_nat_add of_nat_numeral)
  then show ?thesis by (simp add: set_syscall_def sr_end_def start size zero)
qed

lemma trace_line_length:
  "trace_entry_ok t \<Longrightarrow> 65 \<le> length (trace_line t)"
  "trace_entry_ok t \<Longrightarrow> te_pid t < 10 ^ 5 \<Longrightarrow>
     length (trace_line t) = 63 + length (dec_nat (te_nr t)) + length (te_rest t)"
  using dec_nat_length [of "te_pid t" 5] by (auto simp: trace_entry_ok_def trace_line_def)

lemma line_ref:
  assumes "b + n \<le> length text" and "n < 2 ^ 63"
  shows "mk_ref text (int b) n = Inr \<lparr>sr_begin = int b, sr_size = n, sr_buffer = take n (drop b text)\<rparr>"
  using assms by (rule mk_ref_valid)

text \<open>One round of the collector on a well-formed line, anywhere in the buffer.\<close>

lemma collect_params_trace_line:
  assumes ok: "trace_entry_ok t" and buf: "text = us @ trace_line t @ vs" and small: "length text < 2 ^ 63"
    and it: "sr_begin it = int (length us)" "sr_size it = length (trace_line t)"
    and mk: "\<And>name pid call arg.
       sr_begin name = int (length us) \<Longrightarrow> sr_size name = 16 \<Longrightarrow>
       sr_begin pid = int (length us) + 17 \<Longrightarrow> sr_size pid = 5 \<Longrightarrow>
       sr_begin call = int (length us) + 62 \<Longrightarrow> sr_size call = 3 \<Longrightarrow>
       mk text name pid call arg = Inr x"
  shows "collect_params_line mk text it data = Inr (agg_append x data)"
proof -
  let ?n = "length (trace_line t)"
  have n: "65 \<le> ?n" using trace_line_length(1) [OF ok] .
  have total: "length us + ?n \<le> length text" by (simp add: buf)
  have "?n < 2 ^ 63" using total small by simp
  then have rest: "size_of_ptrdiff (sr_end it - (int (length us) + 63)) = ?n - 63"
    using n by (simp add: sr_end_def it nat_diff_distrib)
  have cols: "\<exists>r. mk_ref text (int (length us) + int k) m = Inr r \<and> sr_begin r = int (length us) + int k \<and> sr_size r = m"
    if "k + m \<le> ?n" for k m
    using line_ref [of "length us + k" m "text"] that total small by simp
  obtain name pid call arg where
    r: "mk_ref text (int (length us)) 16 = Inr name" "sr_begin name = int (length us)" "sr_size name = 16"
       "mk_ref text (int (length us) + 17) 5 = Inr pid" "sr_begin pid = int (length us) + 17" "sr_size pid = 5"
       "mk_ref text (int (length us) + 62) 3 = Inr call" "sr_begin call = int (length us) + 62" "sr_size call = 3"
       "mk_ref text (int (length us) + 63) (?n - 63) = Inr arg"
    using cols [of 0 16] cols [of 17 5] cols [of 62 3] cols [of 63 "?n - 63"] n by auto
  with n rest mk [of name pid call arg] show ?thesis
    by (simp add: collect_params_line_def it)
qed


lemma mk_entry_record:
  assumes ok: "trace_entry_ok t" and buf: "text = us @ trace_line t @ vs" and pid: "te_pid t < 10 ^ 5"
    and "sr_begin name = int (length us)" "sr_size name = 16"
    and "sr_begin p = int (length us) + 17" "sr_size p = 5"
    and "sr_begin call = int (length us) + 62" "sr_size call = 3"
  shows "mk_sys_params_record text name p call arg = Inr (entry_record t)"
  using assms(4-)
  by (simp add: mk_sys_params_record_def trace_pid_exact [OF ok buf pid] trace_syscall_exact [OF ok buf pid]
      trace_name_exact [OF ok buf] entry_record_def)

section \<open>Collecting a chunk\<close>

text \<open>
  What a chunk of \<open>trace_pipe\<close> holds, line by line: events, and lines of at most 60 characters (the
  tracer's \<open>LOST EVENTS\<close> marks among them), which the collector skips.
\<close>

datatype trace_item = Short string | Event trace_entry

fun item_line :: "trace_item \<Rightarrow> string" where
  "item_line (Short l) = l"
| "item_line (Event t) = trace_line t"

fun item_ok :: "trace_item \<Rightarrow> bool" where
  "item_ok (Short l) \<longleftrightarrow> length l \<le> 60 \<and> CHR 0x0A \<notin> set l"
| "item_ok (Event t) \<longleftrightarrow> trace_entry_ok t \<and> te_pid t < 10 ^ 5"

fun item_records :: "trace_item \<Rightarrow> sys_params_record list" where
  "item_records (Short l) = []"
| "item_records (Event t) = [entry_record t]"

definition trace_text :: "trace_item list \<Rightarrow> string" where
  "trace_text ts = concat (map (\<lambda>t. item_line t @ [CHR 0x0A]) ts)"

lemma trace_text_simps [simp]:
  "trace_text [] = []"
  "trace_text (t # ts) = item_line t @ CHR 0x0A # trace_text ts"
  by (simp_all add: trace_text_def)

lemma trace_text_lines:
  "list_all item_ok ts \<Longrightarrow> CHR 0x0A \<notin> set r \<Longrightarrow>
   break_lines (CHR 0x0A) (trace_text ts @ r) = (map item_line ts, r)"
proof (induction ts)
  case (Cons t ts)
  then have "CHR 0x0A \<notin> set (item_line t)" by (cases t) (auto dest: trace_line_no_newline)
  with Cons show ?case by (simp add: break_lines_first)
qed (simp add: break_lines_none)

lemma agg_append_Nil [simp]: "d\<lparr>agg_data := agg_data d\<rparr> = d" by simp

lemma collect_params_items:
  assumes "list_all item_ok ts" and "text = us @ trace_text ts @ vs" and "length text < 2 ^ 63"
  shows "collect_params mk_sys_params_record text (refs_at (length us) (map item_line ts)) d =
           Inr (d\<lparr>agg_data := agg_data d @ concat (map item_records ts)\<rparr>)"
  using assms
proof (induction ts arbitrary: us d)
  case (Cons t ts)
  let ?it = "\<lparr>sr_begin = int (length us), sr_size = length (item_line t), sr_buffer = item_line t\<rparr>"
  have step: "collect_params_line mk_sys_params_record text ?it d =
      Inr (d\<lparr>agg_data := agg_data d @ item_records t\<rparr>)"
  proof (cases t)
    case (Short l)
    with Cons.prems show ?thesis by (simp add: collect_params_line_def)
  next
    case (Event e)
    then have ok: "trace_entry_ok e" "te_pid e < 10 ^ 5" using Cons.prems(1) by simp_all
    have buf: "text = us @ trace_line e @ CHR 0x0A # trace_text ts @ vs" using Cons.prems(2) Event by simp
    show ?thesis
      using collect_params_trace_line [OF ok(1) buf Cons.prems(3), of ?it mk_sys_params_record "entry_record e" d]
        mk_entry_record [OF ok(1) buf ok(2)] Event
      by (simp add: agg_append_def)
  qed
  have "collect_params mk_sys_params_record text
      (refs_at (length (us @ item_line t @ [CHR 0x0A])) (map item_line ts)) (d\<lparr>agg_data := agg_data d @ item_records t\<rparr>) =
      Inr (d\<lparr>agg_data := (agg_data d @ item_records t) @ concat (map item_records ts)\<rparr>)"
    using Cons.prems by (subst Cons.IH) simp_all
  with step show ?case by (simp add: add.assoc)
qed simp

text \<open>
  C22: splitting a chunk of well-formed trace lines and collecting its references appends exactly one
  record per event, in order, with the event's task number, system call and task name; short lines
  are skipped and the unterminated rest of two or more characters is kept for the next chunk.
\<close>

theorem collect_trace_chunk:
  assumes "list_all item_ok ts" and "CHR 0x0A \<notin> set rest" and "length rest \<noteq> 1"
    and "length (trace_text ts @ rest) < 2 ^ 63"
  shows "bind_outcome (split_string (trace_text ts @ rest) [CHR 0x0A] [])
           (\<lambda>(strings, str, last_line).
              bind_outcome (collect_params mk_sys_params_record str strings d) (\<lambda>d'. Inr (d', last_line)))
         = Inr (d\<lparr>agg_data := agg_data d @ concat (map item_records ts)\<rparr>, rest)"
proof -
  have lines: "concat (map (\<lambda>l. l @ [CHR 0x0A]) (map item_line ts)) = trace_text ts"
    by (simp add: trace_text_def comp_def)
  have "collect_params mk_sys_params_record (trace_text ts) (refs_at 0 (map item_line ts)) d =
      Inr (d\<lparr>agg_data := agg_data d @ concat (map item_records ts)\<rparr>)"
    using collect_params_items [OF assms(1), of "trace_text ts" "[]" "[]" d] assms(4) by simp
  moreover have "split_string (trace_text ts @ rest) [CHR 0x0A] [] =
      Inr (refs_at 0 (map item_line ts), trace_text ts, rest)"
    unfolding split_string_chunk [OF assms(4)] trace_text_lines [OF assms(1,2)] using assms(3)
    by (simp only: Let_def prod.case lines if_False append_Nil)
  ultimately show ?thesis by simp
qed

definition sample_event :: trace_item where
  "sample_event = Event \<lparr>te_comm = ''bash'', te_pid = 1234,
     te_mid = '' [001] ....   123.456789: sys_enter: NR '', te_nr = 3, te_rest = ''(1, 2)''\<rparr>"

theorem collect_trace_chunk_witness:
  "bind_outcome (split_string (trace_text [Short ''CPU:1 [LOST 4 EVENTS]'', sample_event] @ ''     sh'') [CHR 0x0A] [])
     (\<lambda>(strings, str, last_line).
        bind_outcome (collect_params mk_sys_params_record str strings (new_aggregator 1024))
          (\<lambda>d'. Inr (d', last_line)))
   = Inr ((new_aggregator 1024)\<lparr>agg_data :=
        agg_data (new_aggregator 1024) @ concat (map item_records [Short ''CPU:1 [LOST 4 EVENTS]'', sample_event])\<rparr>, ''     sh'')"
  by (rule collect_trace_chunk)
     (simp_all add: sample_event_def trace_entry_ok_def trace_line_def trace_text_def dec_nat.simps)

section \<open>Task numbers of six digits\<close>

text \<open>
  The columns of a line are fixed only while the task number fits five columns; beyond that the
  rest of the line moves right and the collector reads the wrong columns.
\<close>

lemma dec_nat_exact_length: "10 ^ k \<le> n \<Longrightarrow> n < 10 ^ Suc k \<Longrightarrow> length (dec_nat n) = Suc k"
proof (induction k arbitrary: n)
  case 0
  then show ?case by (simp add: dec_nat.simps [of n])
next
  case (Suc k)
  have "(1 :: nat) \<le> 10 ^ k" by simp
  with Suc.prems(1) have "\<not> n < 10" unfolding power_Suc by linarith
  moreover from Suc.prems have "10 ^ k \<le> n div 10" "n div 10 < 10 ^ Suc k"
    by (simp_all add: less_mult_imp_div_less less_eq_div_iff_mult_less_eq)
  ultimately show ?case using Suc.IH [of "n div 10"] by (simp add: dec_nat.simps [of n])
qed

text \<open>
  C33: for a task number of six digits the record made from its line has the first five digits
  as its task number, and 0 as its system call, whatever the call was.
\<close>

theorem six_digit_task_misread:
  assumes ok: "trace_entry_ok t" and pid: "10 ^ 5 \<le> te_pid t" "te_pid t < 10 ^ 6"
    and small: "length (us @ trace_line t @ vs) < 2 ^ 63"
  shows "collect_params_line mk_sys_params_record (us @ trace_line t @ vs)
           \<lparr>sr_begin = int (length us), sr_size = length (trace_line t), sr_buffer = trace_line t\<rparr> d
         = Inr (agg_append \<lparr>rec_pid = int (te_pid t div 10), rec_syscall = 0, rec_name = te_comm t, rec_arg = []\<rparr> d)"
proof (rule collect_params_trace_line [OF ok refl small])
  fix name p call arg :: string_ref
  assume r: "sr_begin name = int (length us)" "sr_size name = 16"
    "sr_begin p = int (length us) + 17" "sr_size p = 5"
    "sr_begin call = int (length us) + 62" "sr_size call = 3"
  let ?text = "us @ trace_line t @ vs" and ?q = "te_pid t div 10"
  have q: "10 ^ 4 \<le> ?q" "?q < 10 ^ 5" using pid by (auto simp: less_mult_imp_div_less)
  have len: "length (dec_nat ?q) = 5" using dec_nat_exact_length [of 4 ?q] q by simp
  have ds: "dec_nat (te_pid t) = dec_nat ?q @ [digit_char (te_pid t mod 10)]"
    using pid(1) by (subst dec_nat.simps) simp
  have name: "set_name ?text name r' = Inr (r'\<lparr>rec_name := te_comm t\<rparr>)" for r'
    by (rule trace_name_exact [OF ok refl r(1,2)])
  let ?us = "us @ replicate (16 - length (te_comm t)) (CHR '' '') @ te_comm t @ [CHR ''-'']"
  let ?vs = "digit_char (te_pid t mod 10) # te_mid t @ dec_nat (te_nr t) @ CHR '' '' # te_rest t @ vs"
  have us: "length ?us = length us + 17" using ok by (simp add: trace_entry_ok_def)
  have "scan_digits int_step (?us @ dec_nat ?q @ ?vs) (int (length ?us)) (int (length us + 17 + 5)) 0 = digit_run int_step 0 (dec_nat ?q)"
    using us len by (intro scan_digits_run dec_nat_digits) auto
  also have "\<dots> = Inr (int ?q)" using q by (intro int_loop.run_dec_nat) simp
  also have "?us @ dec_nat ?q @ ?vs = ?text" by (simp add: trace_line_def ds len)
  finally have "scan_digits int_step ?text (int (length us) + 17) (int (length us) + 17 + 5) 0 = Inr (int ?q)"
    by (simp only: us of_nat_add of_nat_numeral)
  then have p: "set_pid ?text p r' = Inr (r'\<lparr>rec_pid := int ?q\<rparr>)" if "rec_pid r' = 0" for r' :: sys_params_record
    using that by (simp add: set_pid_def sr_end_def r)
  have mid: "te_mid t = butlast (te_mid t) @ [CHR '' '']" "length (butlast (te_mid t)) = 39"
    using ok append_butlast_last_id [of "te_mid t"] by (cases "te_mid t = []"; simp add: trace_entry_ok_def)+
  let ?us' = "?us @ dec_nat (te_pid t) @ butlast (te_mid t)" and ?vs' = "CHR '' '' # dec_nat (te_nr t) @ CHR '' '' # te_rest t @ vs"
  have us': "length ?us' = length us + 62" using us ds len mid(2) by simp
  have "?text = ?us' @ [] @ ?vs'"
    using arg_cong [OF mid(1), of "\<lambda>m. m @ dec_nat (te_nr t) @ CHR '' '' # te_rest t @ vs"]
    by (simp add: trace_line_def ds len)
  moreover have "scan_digits short_step (?us' @ [] @ ?vs') (int (length ?us')) (int (length us + 62 + 3)) 0 = digit_run short_step 0 []"
    using us' by (intro scan_digits_run) auto
  ultimately have "scan_digits short_step ?text (int (length us) + 62) (int (length us) + 62 + 3) 0 = Inr 0"
    by (simp only: us' of_nat_add of_nat_numeral digit_run.simps)
  then have c: "set_syscall ?text call r' = Inr r'" if "rec_syscall r' = 0" for r' :: sys_params_record
    using that by (simp add: set_syscall_def sr_end_def r)
  show "mk_sys_params_record ?text name p call arg =
      Inr \<lparr>rec_pid = int ?q, rec_syscall = 0, rec_name = te_comm t, rec_arg = []\<rparr>"
    by (simp add: mk_sys_params_record_def p c name)
qed simp_all

theorem six_digit_task_misread_witness:
  "collect_params_line mk_sys_params_record
      ([] @ trace_line \<lparr>te_comm = ''sh'', te_pid = 123456, te_mid = '' [001] ....   123.456789: sys_enter: NR '',
         te_nr = 59, te_rest = ''(1)''\<rparr> @ [])
      \<lparr>sr_begin = int (length ([] :: string)),
       sr_size = length (trace_line \<lparr>te_comm = ''sh'', te_pid = 123456,
         te_mid = '' [001] ....   123.456789: sys_enter: NR '', te_nr = 59, te_rest = ''(1)''\<rparr>),
       sr_buffer = trace_line \<lparr>te_comm = ''sh'', te_pid = 123456,
         te_mid = '' [001] ....   123.456789: sys_enter: NR '', te_nr = 59, te_rest = ''(1)''\<rparr>\<rparr> (new_aggregator 1)
   = Inr (agg_append \<lparr>rec_pid = 12345, rec_syscall = 0, rec_name = ''sh'', rec_arg = []\<rparr> (new_aggregator 1))"
  using six_digit_task_misread [of "\<lparr>te_comm = ''sh'', te_pid = 123456, te_mid = '' [001] ....   123.456789: sys_enter: NR '',
         te_nr = 59, te_rest = ''(1)''\<rparr>" "[]" "[]" "new_aggregator 1"]
  by (simp add: trace_entry_ok_def trace_line_def dec_nat.simps)

section \<open>Lines between the length test and the columns\<close>

text \<open>
  The collector takes lines longer than 60 characters but reads up to column 65: on a line of 61
  or 62 characters the size of the arguments' reference wraps to \<open>2 ^ 64 - 2\<close> or \<open>2 ^ 64 - 1\<close> and its
  copy faults, whatever surrounds the line.
\<close>

theorem short_event_line_faults:
  assumes "sr_size it = 61 \<or> sr_size it = 62"
    and "sr_begin it = int b" and "b + sr_size it \<le> length text" and "length text < 2 ^ 62"
  shows "collect_params_line mk text it d = Inl BadRange"
proof -
  have args: "mk_ref text (int b + 63) (size_of_ptrdiff (sr_end it - (int b + 63))) = Inl BadRange"
    using assms(1,2) by (intro mk_ref_negative) (auto simp: sr_end_def size_of_ptrdiff_def)
  have name: "mk_ref text (int b) 16 = Inr \<lparr>sr_begin = int b, sr_size = 16, sr_buffer = take 16 (drop b text)\<rparr>"
    using assms(1,3) by (intro line_ref) auto
  have pid: "mk_ref text (int b + 17) 5 = Inr \<lparr>sr_begin = int b + 17, sr_size = 5, sr_buffer = take 5 (drop (b + 17) text)\<rparr>"
    using line_ref [of "b + 17" 5 "text"] assms(1,3) by auto
  have "mk_ref text (int b + 62) 3 = Inl BadRange \<or> (\<exists>r. mk_ref text (int b + 62) 3 = Inr r)"
    by (cases "b + 65 \<le> length text") (auto simp: mk_ref_def range_chars_def)
  with args name pid assms(1,2) show ?thesis
    by (auto simp: collect_params_line_def)
qed

theorem short_event_line_faults_witness:
  "collect_params_line mk_sys_params_record (replicate 200 (CHR ''x''))
     \<lparr>sr_begin = int 10, sr_size = 61, sr_buffer = []\<rparr> (new_aggregator 1) = Inl BadRange"
  by (rule short_event_line_faults [of _ 10]) simp_all

end
