(* ===== verification/Queues.thy ===== *)
theory Queues
  imports Prelude
begin

text \<open>
  \<open>SafeQueue\<close> (\<open>include/queue/simple/simple_queue.h\<close>) and \<open>message_queue\<close>
  (\<open>include/queue/message_queue.h\<close>), the queues between the threads of the sensor.

  Every operation holds the mutex \<open>m\<close> from its first statement to its return, except inside
  \<open>c.wait(lock)\<close>. The first part models the operations as the atomic actions that this makes
  them; the second part models the mutex, the condition variable and the loops statement by
  statement and shows mutual exclusion, the order of the messages and that no wake-up is lost.
\<close>

section \<open>The operations, atomically\<close>

type_synonym 'm safe_queue = "'m list"

definition sq_enqueue :: "'m \<Rightarrow> 'm safe_queue \<Rightarrow> 'm safe_queue" where
  "sq_enqueue t q = q @ [t]"

text \<open>A blocked call is \<open>None\<close>: the caller waits, and nothing changes.\<close>

definition sq_dequeue :: "'m safe_queue \<Rightarrow> ('m \<times> 'm safe_queue) option" where
  "sq_dequeue q = (case q of [] \<Rightarrow> None | val # q' \<Rightarrow> Some (val, q'))"

text \<open>The loop of \<open>enqueue_bulk\<close>; \<open>n\<close> counts the rounds left, reading beyond the array faults.\<close>

fun sq_push_all :: "'m list \<Rightarrow> nat \<Rightarrow> 'm safe_queue \<Rightarrow> 'm safe_queue outcome" where
  "sq_push_all messages 0 q = Inr q"
| "sq_push_all [] (Suc n) q = Inl BadDeref"
| "sq_push_all (m # messages) (Suc n) q = sq_push_all messages n (q @ [m])"

definition sq_enqueue_bulk :: "'m list \<Rightarrow> nat \<Rightarrow> 'm safe_queue \<Rightarrow> 'm safe_queue outcome" where
  "sq_enqueue_bulk messages n q = sq_push_all messages n q"

text \<open>The loop of \<open>wait_dequeue_bulk\<close>, with the messages taken and \<open>size\<close>.\<close>

fun sq_take_all :: "nat \<Rightarrow> 'm list \<Rightarrow> 'm safe_queue \<Rightarrow> 'm list \<times> 'm safe_queue" where
  "sq_take_all 0 message q = (message, q)"
| "sq_take_all (Suc capacity) message [] = (message, [])"
| "sq_take_all (Suc capacity) message (m # q) = sq_take_all capacity (message @ [m]) q"

definition sq_wait_dequeue_bulk :: "nat \<Rightarrow> 'm safe_queue \<Rightarrow> ('m list \<times> 'm safe_queue) option" where
  "sq_wait_dequeue_bulk capacity q = (if q = [] then None else Some (sq_take_all capacity [] q))"

definition sq_size_approx :: "'m safe_queue \<Rightarrow> nat" where
  "sq_size_approx q = length q"

text \<open>\<open>message_queue\<close> forwards to its \<open>_queue\<close>.\<close>

record 'm message_queue =
  mq_queue :: "'m safe_queue"

definition mq_enqueue :: "'m \<Rightarrow> 'm message_queue \<Rightarrow> 'm message_queue" where
  "mq_enqueue message mq = mq\<lparr>mq_queue := sq_enqueue message (mq_queue mq)\<rparr>"

definition mq_enqueue_bulk :: "'m list \<Rightarrow> nat \<Rightarrow> 'm message_queue \<Rightarrow> 'm message_queue outcome" where
  "mq_enqueue_bulk messages n mq =
     bind_outcome (sq_enqueue_bulk messages n (mq_queue mq)) (\<lambda>q. Inr (mq\<lparr>mq_queue := q\<rparr>))"

definition mq_wait_dequeue_bulk :: "nat \<Rightarrow> 'm message_queue \<Rightarrow> ('m list \<times> 'm message_queue) option" where
  "mq_wait_dequeue_bulk capacity mq =
     (case sq_wait_dequeue_bulk capacity (mq_queue mq) of
        None \<Rightarrow> None | Some (message, q) \<Rightarrow> Some (message, mq\<lparr>mq_queue := q\<rparr>))"

definition mq_size :: "'m message_queue \<Rightarrow> nat" where
  "mq_size mq = sq_size_approx (mq_queue mq)"

definition empty_mq :: "'m message_queue" where
  "empty_mq = \<lparr>mq_queue = []\<rparr>"

section \<open>The contract of a bulk queue\<close>

text \<open>
  What the threads rely on: messages leave in the order in which they entered, a call that
  returns has at least one message, and it takes as many as are there, up to its capacity.
\<close>

locale bulk_fifo =
  fixes enq :: "'m \<Rightarrow> 'q \<Rightarrow> 'q"
    and enq_bulk :: "'m list \<Rightarrow> nat \<Rightarrow> 'q \<Rightarrow> 'q outcome"
    and deq_bulk :: "nat \<Rightarrow> 'q \<Rightarrow> ('m list \<times> 'q) option"
    and contents :: "'q \<Rightarrow> 'm list"
  assumes enq_contents: "contents (enq m q) = contents q @ [m]"
    and enq_bulk_contents: "n \<le> length ms \<Longrightarrow>
      \<exists>q'. enq_bulk ms n q = Inr q' \<and> contents q' = contents q @ take n ms"
    and deq_blocks: "deq_bulk c q = None \<longleftrightarrow> contents q = []"
    and deq_contents: "deq_bulk c q = Some (ms, q') \<Longrightarrow>
      ms = take c (contents q) \<and> contents q' = drop c (contents q)"
begin

lemma deq_split: "deq_bulk c q = Some (ms, q') \<Longrightarrow> contents q = ms @ contents q'"
  using deq_contents by force

lemma deq_nonempty: "deq_bulk c q = Some (ms, q') \<Longrightarrow> 0 < c \<Longrightarrow> ms \<noteq> [] \<and> length ms \<le> c"
  using deq_contents [of c q ms q'] deq_blocks [of c q] by auto

lemma deq_returns: "contents q \<noteq> [] \<Longrightarrow>
  \<exists>q'. deq_bulk c q = Some (take c (contents q), q') \<and> contents q' = drop c (contents q)"
proof -
  assume "contents q \<noteq> []"
  then obtain ms q' where "deq_bulk c q = Some (ms, q')" using deq_blocks [of c q] by fastforce
  with deq_contents [OF this] show ?thesis by auto
qed

lemma enq_bulk_result: "enq_bulk ms n q = Inr q' \<Longrightarrow> n \<le> length ms \<Longrightarrow> contents q' = contents q @ take n ms"
  using enq_bulk_contents [of n ms q] by auto

lemma bulk_round_trip:
  assumes "contents q = []" and "enq_bulk ms (length ms) q = Inr q'" and "ms \<noteq> []" and "length ms \<le> c"
  shows "\<exists>q''. deq_bulk c q' = Some (ms, q'') \<and> contents q'' = []"
  using enq_bulk_result [OF assms(2)] deq_returns [of q' c] assms(1,3,4) by auto

end

lemma sq_push_all_take: "n \<le> length ms \<Longrightarrow> sq_push_all ms n q = Inr (q @ take n ms)"
  by (induction ms n q rule: sq_push_all.induct) auto

lemma sq_take_all_split: "sq_take_all c acc q = (acc @ take c q, drop c q)"
  by (induction c acc q rule: sq_take_all.induct) auto

interpretation sq: bulk_fifo sq_enqueue sq_enqueue_bulk sq_wait_dequeue_bulk "\<lambda>q. q"
  by unfold_locales
    (auto simp: sq_enqueue_def sq_enqueue_bulk_def sq_push_all_take sq_wait_dequeue_bulk_def
      sq_take_all_split split: if_splits)

interpretation mq: bulk_fifo mq_enqueue mq_enqueue_bulk mq_wait_dequeue_bulk mq_queue
proof
  fix n :: nat and ms :: "'a list" and q :: "'a message_queue"
  assume "n \<le> length ms"
  from sq.enq_bulk_contents [OF this, of "mq_queue q"]
  show "\<exists>q'. mq_enqueue_bulk ms n q = Inr q' \<and> mq_queue q' = mq_queue q @ take n ms"
    by (auto simp: mq_enqueue_bulk_def)
next
  fix c :: nat and q q' :: "'a message_queue" and ms :: "'a list"
  assume "mq_wait_dequeue_bulk c q = Some (ms, q')"
  then show "ms = take c (mq_queue q) \<and> mq_queue q' = drop c (mq_queue q)"
    by (auto simp: mq_wait_dequeue_bulk_def dest: sq.deq_contents split: option.splits)
next
  fix c :: nat and q :: "'a message_queue"
  show "(mq_wait_dequeue_bulk c q = None) = (mq_queue q = [])"
    using sq.deq_blocks [of c "mq_queue q"]
    by (auto simp: mq_wait_dequeue_bulk_def split: option.splits)
qed (simp add: mq_enqueue_def sq_enqueue_def)


section \<open>The operations, statement by statement\<close>

text \<open>
  Where a thread is in an operation: before \<open>lock(m)\<close>, at the next \<open>q.push\<close> (and, when none is
  left, at \<open>notify_all\<close>), at the release of the mutex, at the test \<open>while(q.empty())\<close>, inside
  \<open>c.wait(lock)\<close>, or in the loop that takes messages. \<open>enqueue\<close> is \<open>enqueue_bulk\<close> of one message,
  \<open>dequeue\<close> is \<open>wait_dequeue_bulk\<close> of capacity one.
\<close>

datatype 'm pc =
    Idle
  | EnqLock "'m list" | EnqPush "'m list" | EnqUnlock
  | DeqLock nat | DeqTest nat | DeqAsleep nat | DeqTake nat "'m list"

text \<open>
  The shared state: the queue, the owner of the mutex, the threads. \<open>qs_pushed\<close>, \<open>qs_popped\<close>
  and \<open>qs_batches\<close> record every \<open>push\<close>, every \<open>pop\<close> and every returned batch.
\<close>

record 'm queue_state =
  qs_q :: "'m list"
  qs_owner :: "nat option"
  qs_pc :: "nat \<Rightarrow> 'm pc"
  qs_pushed :: "'m list"
  qs_popped :: "'m list"
  qs_batches :: "'m list list"

datatype step_kind = Call | Run | Spurious

definition goto :: "nat \<Rightarrow> 'm pc \<Rightarrow> 'm queue_state \<Rightarrow> 'm queue_state" where
  "goto t p s = s\<lparr>qs_pc := (qs_pc s)(t := p)\<rparr>"

text \<open>\<open>notify_all\<close>: every thread inside \<open>wait\<close> goes on to take the mutex again.\<close>

definition wake_all :: "'m queue_state \<Rightarrow> 'm queue_state" where
  "wake_all s = s\<lparr>qs_pc := (\<lambda>u. case qs_pc s u of DeqAsleep c \<Rightarrow> DeqLock c | p \<Rightarrow> p)\<rparr>"

inductive queue_step :: "step_kind \<Rightarrow> 'm queue_state \<Rightarrow> 'm queue_state \<Rightarrow> bool" where
  call_enqueue: "qs_pc s t = Idle \<Longrightarrow> queue_step Call s (goto t (EnqLock ms) s)"
| call_dequeue: "qs_pc s t = Idle \<Longrightarrow> 0 < c \<Longrightarrow> queue_step Call s (goto t (DeqLock c) s)"
| enq_lock: "qs_pc s t = EnqLock ms \<Longrightarrow> qs_owner s = None \<Longrightarrow>
    queue_step Run s (goto t (EnqPush ms) (s\<lparr>qs_owner := Some t\<rparr>))"
| enq_push: "qs_pc s t = EnqPush (m # ms) \<Longrightarrow>
    queue_step Run s (goto t (EnqPush ms) (s\<lparr>qs_q := qs_q s @ [m], qs_pushed := qs_pushed s @ [m]\<rparr>))"
| enq_notify: "qs_pc s t = EnqPush [] \<Longrightarrow> queue_step Run s (goto t EnqUnlock (wake_all s))"
| enq_unlock: "qs_pc s t = EnqUnlock \<Longrightarrow> queue_step Run s (goto t Idle (s\<lparr>qs_owner := None\<rparr>))"
| deq_lock: "qs_pc s t = DeqLock c \<Longrightarrow> qs_owner s = None \<Longrightarrow>
    queue_step Run s (goto t (DeqTest c) (s\<lparr>qs_owner := Some t\<rparr>))"
| deq_wait: "qs_pc s t = DeqTest c \<Longrightarrow> qs_q s = [] \<Longrightarrow>
    queue_step Run s (goto t (DeqAsleep c) (s\<lparr>qs_owner := None\<rparr>))"
| deq_go: "qs_pc s t = DeqTest c \<Longrightarrow> qs_q s \<noteq> [] \<Longrightarrow> queue_step Run s (goto t (DeqTake c []) s)"
| deq_take: "qs_pc s t = DeqTake (Suc c) ms \<Longrightarrow> qs_q s = m # q \<Longrightarrow>
    queue_step Run s (goto t (DeqTake c (ms @ [m])) (s\<lparr>qs_q := q, qs_popped := qs_popped s @ [m]\<rparr>))"
| deq_return: "qs_pc s t = DeqTake c ms \<Longrightarrow> c = 0 \<or> qs_q s = [] \<Longrightarrow>
    queue_step Run s (goto t Idle (s\<lparr>qs_owner := None, qs_batches := qs_batches s @ [ms]\<rparr>))"
| spurious: "qs_pc s t = DeqAsleep c \<Longrightarrow> queue_step Spurious s (goto t (DeqLock c) s)"

definition queue_start :: "'m queue_state" where
  "queue_start = \<lparr>qs_q = [], qs_owner = None, qs_pc = (\<lambda>_. Idle), qs_pushed = [], qs_popped = [], qs_batches = []\<rparr>"

inductive queue_reachable :: "'m queue_state \<Rightarrow> bool" where
  start: "queue_reachable queue_start"
| step: "queue_reachable s \<Longrightarrow> queue_step k s s' \<Longrightarrow> queue_reachable s'"

section \<open>The invariant\<close>

fun holds_lock :: "'m pc \<Rightarrow> bool" where
  "holds_lock (EnqPush ms) = True"
| "holds_lock EnqUnlock = True"
| "holds_lock (DeqTest c) = True"
| "holds_lock (DeqTake c ms) = True"
| "holds_lock _ = False"

fun taken :: "'m pc \<Rightarrow> 'm list" where
  "taken (DeqTake c ms) = ms"
| "taken _ = []"

definition owner_taken :: "'m queue_state \<Rightarrow> 'm list" where
  "owner_taken s = (case qs_owner s of None \<Rightarrow> [] | Some t \<Rightarrow> taken (qs_pc s t))"

text \<open>A thread sleeps on a non-empty queue only while the thread that filled it has yet to notify.\<close>

definition sleepers_ok :: "'m queue_state \<Rightarrow> bool" where
  "sleepers_ok s \<longleftrightarrow> (\<forall>t c. qs_pc s t = DeqAsleep c \<longrightarrow>
     qs_q s = [] \<or> (\<exists>u ms. qs_owner s = Some u \<and> qs_pc s u = EnqPush ms))"

fun cap_ok :: "'m list \<Rightarrow> 'm pc \<Rightarrow> bool" where
  "cap_ok q (DeqLock c) \<longleftrightarrow> 0 < c"
| "cap_ok q (DeqTest c) \<longleftrightarrow> 0 < c"
| "cap_ok q (DeqAsleep c) \<longleftrightarrow> 0 < c"
| "cap_ok q (DeqTake c ms) \<longleftrightarrow> (ms = [] \<longrightarrow> 0 < c \<and> q \<noteq> [])"
| "cap_ok q _ \<longleftrightarrow> True"

definition capacities_ok :: "'m queue_state \<Rightarrow> bool" where
  "capacities_ok s \<longleftrightarrow> (\<forall>t. cap_ok (qs_q s) (qs_pc s t))"

definition order_ok :: "'m queue_state \<Rightarrow> bool" where
  "order_ok s \<longleftrightarrow> qs_pushed s = qs_popped s @ qs_q s \<and>
     qs_popped s = concat (qs_batches s) @ owner_taken s"

definition locked :: "(nat \<Rightarrow> 'm pc) \<Rightarrow> nat option \<Rightarrow> bool" where
  "locked pc_of owner \<longleftrightarrow> (\<forall>t. holds_lock (pc_of t) \<longleftrightarrow> owner = Some t)"

definition lock_ok :: "'m queue_state \<Rightarrow> bool" where
  "lock_ok s \<longleftrightarrow> locked (qs_pc s) (qs_owner s)"

definition queue_inv :: "'m queue_state \<Rightarrow> bool" where
  "queue_inv s \<longleftrightarrow>
     lock_ok s \<and>
     order_ok s \<and>
     (\<forall>b \<in> set (qs_batches s). b \<noteq> []) \<and>
     sleepers_ok s \<and> capacities_ok s"

lemma queue_inv_start: "queue_inv queue_start"
  by (simp add: queue_inv_def lock_ok_def locked_def order_ok_def queue_start_def owner_taken_def sleepers_ok_def capacities_ok_def)

lemma holds_lock_woken [simp]:
  "holds_lock (case p of DeqAsleep c \<Rightarrow> DeqLock c | p \<Rightarrow> p) = holds_lock p"
  by (cases p) auto

lemma holds_lock_taken: "\<not> holds_lock p \<Longrightarrow> taken p = []"
  by (cases p) auto


lemmas queue_step_defs = goto_def wake_all_def

lemma locked_keep: "locked f w \<Longrightarrow> holds_lock p = holds_lock (f t) \<Longrightarrow> locked (f(t := p)) w"
  by (simp add: locked_def)

lemma locked_acquire: "locked f None \<Longrightarrow> holds_lock p \<Longrightarrow> locked (f(t := p)) (Some t)"
  by (simp add: locked_def)

lemma locked_release: "locked f w \<Longrightarrow> holds_lock (f t) \<Longrightarrow> \<not> holds_lock p \<Longrightarrow> locked (f(t := p)) None"
  by (auto simp: locked_def)

lemma locked_wake: "locked f w \<Longrightarrow> locked (\<lambda>u. case f u of DeqAsleep c \<Rightarrow> DeqLock c | p \<Rightarrow> p) w"
  by (simp add: locked_def)

lemma locked_owner: "locked f w \<Longrightarrow> holds_lock (f t) \<Longrightarrow> w = Some t"
  by (simp add: locked_def)

lemma lock_ok_step: "queue_step k s s' \<Longrightarrow> lock_ok s \<Longrightarrow> lock_ok s'"
  unfolding lock_ok_def
  by (cases k s s' rule: queue_step.cases)
     (simp_all add: queue_step_defs locked_keep locked_acquire locked_wake locked_release)

lemma owner_at: "lock_ok s \<Longrightarrow> holds_lock (qs_pc s t) \<Longrightarrow> qs_owner s = Some t"
  by (simp add: lock_ok_def locked_owner)

text \<open>What the owner of the mutex has taken, before and after a step of thread \<open>t\<close>.\<close>

lemma owner_taken_at:
  "lock_ok s \<Longrightarrow> holds_lock (qs_pc s t) \<Longrightarrow> owner_taken s = taken (qs_pc s t)"
  by (simp add: owner_taken_def owner_at)

lemma owner_taken_goto:
  "lock_ok s \<Longrightarrow> taken p = taken (qs_pc s t) \<Longrightarrow> owner_taken (goto t p s) = owner_taken s"
  by (auto simp: owner_taken_def goto_def split: option.splits)

lemma owner_taken_free: "qs_owner s = None \<Longrightarrow> owner_taken s = []"
  by (simp add: owner_taken_def)

lemma order_goto: "lock_ok s \<Longrightarrow> order_ok s \<Longrightarrow> taken p = taken (qs_pc s t) \<Longrightarrow> order_ok (goto t p s)"
  using owner_taken_goto [of s p t] by (simp add: order_ok_def) (simp add: goto_def)

lemma order_step:
  assumes "queue_step k s s'" and lock: "lock_ok s" and order: "order_ok s"
  shows "order_ok s'"
  using assms(1)
proof cases
  case (enq_push t m ms)
  then have "qs_owner s = Some t" using owner_at [OF lock, of t] by simp
  with enq_push order show ?thesis by (simp add: order_ok_def goto_def owner_taken_def)
next
  case (enq_notify t)
  then have "qs_owner s = Some t" using owner_at [OF lock, of t] by simp
  with enq_notify order show ?thesis by (simp add: order_ok_def queue_step_defs owner_taken_def)
next
  case (deq_take t c ms m q)
  then have "qs_owner s = Some t" using owner_at [OF lock, of t] by simp
  with deq_take order show ?thesis by (simp add: order_ok_def goto_def owner_taken_def)
next
  case (deq_return t c ms)
  with owner_taken_at [OF lock, of t] order show ?thesis
    by (simp add: order_ok_def goto_def owner_taken_free)
next
  case (enq_unlock t)
  with owner_taken_at [OF lock, of t] order show ?thesis
    by (simp add: order_ok_def goto_def owner_taken_free)
next
  case (deq_wait t c)
  with owner_taken_at [OF lock, of t] order show ?thesis
    by (simp add: order_ok_def goto_def owner_taken_free)
next
  case (enq_lock t ms)
  with owner_taken_free [of s] order show ?thesis
    by (simp add: order_ok_def goto_def owner_taken_def)
next
  case (deq_lock t c)
  with owner_taken_free [of s] order show ?thesis
    by (simp add: order_ok_def goto_def owner_taken_def)
qed (use order_goto [OF lock order] in simp_all)

lemma batches_step:
  assumes "queue_step k s s'" and "capacities_ok s" and "\<forall>b \<in> set (qs_batches s). b \<noteq> []"
  shows "\<forall>b \<in> set (qs_batches s'). b \<noteq> []"
  using assms(1)
proof cases
  case (deq_return t c ms)
  have "cap_ok (qs_q s) (DeqTake c ms)" using assms(2) deq_return(3) by (metis capacities_ok_def)
  with deq_return have "ms \<noteq> []" by auto
  with deq_return assms(3) show ?thesis by (simp add: goto_def)
qed (use assms(3) in \<open>simp_all add: queue_step_defs\<close>)

lemma cap_ok_grow: "cap_ok q p \<Longrightarrow> cap_ok (q @ xs) p"
  by (cases p) auto

lemma cap_ok_other: "\<not> holds_lock p \<Longrightarrow> cap_ok q' p = cap_ok q p"
  by (cases p) auto

lemma cap_ok_woken [simp]: "cap_ok q (case p of DeqAsleep c \<Rightarrow> DeqLock c | p \<Rightarrow> p) = cap_ok q p"
  by (cases p) auto

lemma capacities_step:
  assumes "queue_step k s s'" and lock: "lock_ok s" and caps: "capacities_ok s"
  shows "capacities_ok s'"
proof -
  have at: "cap_ok (qs_q s) p" if "qs_pc s t = p" for t p
    using that caps by (auto simp: capacities_ok_def)
  show ?thesis using assms(1)
  proof cases
    case (enq_push t m ms)
    with caps show ?thesis by (simp add: capacities_ok_def goto_def cap_ok_grow)
  next
    case (deq_take t c ms m q)
    then have "qs_owner s = Some t" using owner_at [OF lock, of t] by simp
    then have "\<not> holds_lock (qs_pc s u)" if "u \<noteq> t" for u
      using that lock by (auto simp: lock_ok_def locked_def)
    then have "cap_ok q (qs_pc s u)" if "u \<noteq> t" for u
      using that at [of u] cap_ok_other by blast
    with deq_take show ?thesis by (simp add: capacities_ok_def goto_def)
  next
    case (deq_lock t c)
    with at [OF deq_lock(3)] caps show ?thesis by (simp add: capacities_ok_def goto_def)
  next
    case (deq_wait t c)
    with at [OF deq_wait(3)] caps show ?thesis by (simp add: capacities_ok_def goto_def)
  next
    case (deq_go t c)
    with at [OF deq_go(3)] caps show ?thesis by (simp add: capacities_ok_def goto_def)
  next
    case (spurious t c)
    with at [OF spurious(3)] caps show ?thesis by (simp add: capacities_ok_def goto_def)
  qed (use caps in \<open>simp_all add: capacities_ok_def queue_step_defs\<close>)
qed

lemma sleepers_step:
  assumes "queue_step k s s'" and lock: "lock_ok s" and sl: "sleepers_ok s"
  shows "sleepers_ok s'"
proof -
  have asleep: "qs_q s = [] \<or> (\<exists>u ms. qs_owner s = Some u \<and> qs_pc s u = EnqPush ms)" if "qs_pc s v = DeqAsleep c" for v c
    using that sl by (auto simp: sleepers_ok_def)
  have mine: "qs_q s = []" if "qs_pc s v = DeqAsleep c" "holds_lock (qs_pc s t)" "\<And>ms. qs_pc s t \<noteq> EnqPush ms" for v c t
    using asleep [OF that(1)] owner_at [OF lock that(2)] that(3) by auto
  have free: "qs_q s = []" if "qs_pc s v = DeqAsleep c" "qs_owner s = None" for v c
    using asleep [OF that(1)] that(2) by auto
  show ?thesis using assms(1)
  proof cases
    case (enq_push t m ms)
    then have "qs_owner s = Some t" using owner_at [OF lock, of t] by simp
    with enq_push show ?thesis by (auto simp: sleepers_ok_def goto_def)
  next
    case (enq_notify t)
    then show ?thesis by (auto simp: sleepers_ok_def queue_step_defs split: pc.splits)
  next
    case (enq_lock t ms)
    with free show ?thesis by (auto simp: sleepers_ok_def goto_def)
  next
    case (deq_lock t c)
    with free show ?thesis by (auto simp: sleepers_ok_def goto_def)
  next
    case (enq_unlock t)
    with mine [of _ _ t] show ?thesis by (auto simp: sleepers_ok_def goto_def)
  next
    case (deq_wait t c)
    with mine [of _ _ t] show ?thesis by (auto simp: sleepers_ok_def goto_def)
  next
    case (deq_go t c)
    with mine [of _ _ t] show ?thesis by (auto simp: sleepers_ok_def goto_def)
  next
    case (deq_take t c ms m q)
    with mine [of _ _ t] show ?thesis by (auto simp: sleepers_ok_def goto_def)
  next
    case (deq_return t c ms)
    with mine [of _ _ t] show ?thesis by (auto simp: sleepers_ok_def goto_def)
  qed (use asleep in \<open>auto simp: sleepers_ok_def goto_def; metis pc.distinct pc.simps\<close>)+
qed


lemma queue_inv_step: "queue_step k s s' \<Longrightarrow> queue_inv s \<Longrightarrow> queue_inv s'"
  unfolding queue_inv_def
  by (elim conjE, intro conjI)
     (assumption | erule lock_ok_step order_step batches_step sleepers_step capacities_step)+

lemma queue_reachable_inv: "queue_reachable s \<Longrightarrow> queue_inv s"
  by (induction rule: queue_reachable.induct) (auto intro: queue_inv_start queue_inv_step)

text \<open>
  C20: in every reachable state of any number of threads at most one thread is between the lock
  and the unlock of an operation, and the messages pushed are, in order, those of the returned
  batches, those the current owner has taken, and those in the queue; no batch is empty. So no
  message is lost, duplicated or overtaken.
\<close>

theorem safe_queue_fifo:
  assumes "queue_reachable s"
  shows "(\<nexists>t u. t \<noteq> u \<and> holds_lock (qs_pc s t) \<and> holds_lock (qs_pc s u)) \<and>
     qs_pushed s = concat (qs_batches s) @ owner_taken s @ qs_q s \<and> [] \<notin> set (qs_batches s)"
  using queue_reachable_inv [OF assms]
  by (auto simp: queue_inv_def lock_ok_def locked_def order_ok_def)

text \<open>A run with a consumer that goes to sleep on the empty queue and a producer that wakes it.\<close>

definition sleeping_consumer :: "nat queue_state" where
  "sleeping_consumer = queue_start\<lparr>qs_pc := (\<lambda>_. Idle)(1 := DeqAsleep 2)\<rparr>"

lemma reach_sleeping_consumer: "queue_reachable sleeping_consumer"
proof -
  have "queue_reachable (goto 1 (DeqLock 2) queue_start :: nat queue_state)"
    by (rule queue_reachable.step [OF queue_reachable.start call_dequeue]) (simp_all add: queue_start_def)
  then have "queue_reachable (goto 1 (DeqTest 2) ((goto 1 (DeqLock 2) queue_start)\<lparr>qs_owner := Some 1\<rparr>) :: nat queue_state)"
    by (rule queue_reachable.step [OF _ deq_lock]) (simp_all add: queue_start_def goto_def)
  then have "queue_reachable (goto 1 (DeqAsleep 2)
      ((goto 1 (DeqTest 2) ((goto 1 (DeqLock 2) queue_start)\<lparr>qs_owner := Some 1\<rparr>))\<lparr>qs_owner := None\<rparr>) :: nat queue_state)"
    by (rule queue_reachable.step [OF _ deq_wait]) (simp_all add: queue_start_def goto_def)
  then show ?thesis by (simp add: sleeping_consumer_def queue_start_def goto_def)
qed

theorem safe_queue_fifo_witness:
  "(\<nexists>t u. t \<noteq> u \<and> holds_lock (qs_pc sleeping_consumer t) \<and> holds_lock (qs_pc sleeping_consumer u)) \<and>
   qs_pushed sleeping_consumer =
     concat (qs_batches sleeping_consumer) @ owner_taken sleeping_consumer @ qs_q sleeping_consumer \<and>
   [] \<notin> set (qs_batches sleeping_consumer)"
  by (rule safe_queue_fifo [OF reach_sleeping_consumer])

text \<open>
  C21: no wake-up is lost: whenever a call is in progress, some thread can take a step of its own
  (not a spurious wake-up, not a new call), unless every call in progress is a \<open>wait_dequeue\<close>
  asleep on the empty queue.
\<close>

theorem safe_queue_progress:
  assumes "queue_reachable s" and "qs_pc s t \<noteq> Idle"
  shows "(\<exists>s'. queue_step Run s s') \<or>
         (qs_q s = [] \<and> (\<forall>u. qs_pc s u = Idle \<or> (\<exists>c. qs_pc s u = DeqAsleep c)))"
proof (cases "qs_owner s")
  case (Some u)
  from queue_reachable_inv [OF assms(1)] Some have h: "holds_lock (qs_pc s u)"
    by (simp add: queue_inv_def lock_ok_def locked_def)
  have "\<exists>s'. queue_step Run s s'"
  proof (cases "qs_pc s u")
    case (EnqPush ms)
    then show ?thesis by (cases ms) (blast intro: enq_push enq_notify)+
  next
    case (DeqTest c)
    then show ?thesis by (cases "qs_q s = []") (blast intro: deq_wait deq_go)+
  next
    case (DeqTake c ms)
    then show ?thesis
      using deq_take [of s u] deq_return [of s u c ms] by (cases c; cases "qs_q s") blast+
  qed (use h in \<open>auto intro: enq_unlock\<close>)
  then show ?thesis ..
next
  case None
  have idle: "qs_pc s u = Idle \<or> (\<exists>ms. qs_pc s u = EnqLock ms) \<or> (\<exists>c. qs_pc s u = DeqLock c) \<or> (\<exists>c. qs_pc s u = DeqAsleep c)" for u
    using queue_reachable_inv [OF assms(1)] None
    by (cases "qs_pc s u") (auto simp: queue_inv_def lock_ok_def locked_def dest: spec [of _ u])
  show ?thesis
  proof (cases "\<exists>u ms c. qs_pc s u = EnqLock ms \<or> qs_pc s u = DeqLock c")
    case True
    then show ?thesis using None by (blast intro: enq_lock deq_lock)
  next
    case False
    with idle have all: "qs_pc s u = Idle \<or> (\<exists>c. qs_pc s u = DeqAsleep c)" for u by blast
    with assms(2) obtain c where "qs_pc s t = DeqAsleep c" by blast
    then have "qs_q s = []"
      using queue_reachable_inv [OF assms(1)] None by (auto simp: queue_inv_def sleepers_ok_def)
    with all show ?thesis by blast
  qed
qed

theorem safe_queue_progress_witness:
  "(\<exists>s'. queue_step Run sleeping_consumer s') \<or>
   (qs_q sleeping_consumer = [] \<and>
    (\<forall>u. qs_pc sleeping_consumer u = Idle \<or> (\<exists>c. qs_pc sleeping_consumer u = DeqAsleep c)))"
  by (rule safe_queue_progress [OF reach_sleeping_consumer, of 1])
     (simp add: sleeping_consumer_def)

end
