(* ===== verification/Watch.thy ===== *)
theory Watch
  imports Prelude
begin

text \<open>
  \<open>EventsWatch\<close> (\<open>include/sensor/events_measure.h\<close>), the event counters of the three threads;
  \<open>comma_numpunct\<close> (\<open>include/utils/comma_numpunct.h\<close>), the digit grouping of the status text;
  and the texts that \<open>multithreaded_sensor::get_status\<close> and \<open>get_summary\<close> build of them.

  A time point is a number of nanoseconds; the clock's readings are arguments. Counters are
  \<open>size_t\<close> and wrap.
\<close>

section \<open>EventsWatch\<close>

record events_watch =
  start_p :: int
  start_all :: int
  stop_p :: int
  events :: nat
  total_events :: nat
  watch_finished :: bool

definition new_watch :: events_watch where
  "new_watch = \<lparr>start_p = 0, start_all = 0, stop_p = 0, events = 0, total_events = 0, watch_finished = False\<rparr>"

definition watch_start :: "int \<Rightarrow> events_watch \<Rightarrow> events_watch" where
  "watch_start clock w = w\<lparr>start_p := clock, start_all := clock\<rparr>"

text \<open>The parameter is an \<open>int\<close>, the sums are taken in \<open>size_t\<close>.\<close>

definition watch_add :: "int \<Rightarrow> events_watch \<Rightarrow> events_watch" where
  "watch_add n w =
     w\<lparr>events := (events w + size_of_ptrdiff n) mod 2 ^ 64,
       total_events := (total_events w + size_of_ptrdiff n) mod 2 ^ 64\<rparr>"

definition watch_stop :: "int \<Rightarrow> events_watch \<Rightarrow> events_watch" where
  "watch_stop clock w = w\<lparr>stop_p := clock, watch_finished := True\<rparr>"

definition watch_reset :: "int \<Rightarrow> events_watch \<Rightarrow> events_watch" where
  "watch_reset clock w = w\<lparr>events := 0, start_p := clock\<rparr>"

text \<open>\<open>duration_cast\<close> and the signed division truncate towards zero.\<close>

definition trunc_div :: "int \<Rightarrow> int \<Rightarrow> int" where
  "trunc_div a b = (if 0 \<le> a then a div b else - ((- a) div b))"

definition microseconds :: "int \<Rightarrow> int \<Rightarrow> int" where
  "microseconds from til = trunc_div (til - from) 1000"

definition whole_seconds :: "int \<Rightarrow> int \<Rightarrow> int" where
  "whole_seconds from til = trunc_div (microseconds from til) 1000000"

text \<open>\<open>now()\<close> reads the clock once for the elapsed time and once more in \<open>reset\<close>.\<close>

definition watch_now :: "int \<Rightarrow> int \<Rightarrow> events_watch \<Rightarrow> nat \<times> events_watch" where
  "watch_now clock clock' w =
     (let sec = whole_seconds (start_p w) clock in
      if sec = 0 then (0, w)
      else (events w div size_of_ptrdiff sec, watch_reset clock' w))"

definition watch_total :: "events_watch \<Rightarrow> nat" where
  "watch_total w =
     (let sec = whole_seconds (start_all w) (stop_p w) in
      if sec = 0 then 0 else total_events w div size_of_ptrdiff sec)"

definition watch_microsec :: "events_watch \<Rightarrow> int" where
  "watch_microsec w = microseconds (start_all w) (stop_p w)"

definition all_events :: "events_watch \<Rightarrow> nat" where
  "all_events w = total_events w"

lemma watch_add_small [simp]:
  "0 \<le> n \<Longrightarrow> n < 2 ^ 63 \<Longrightarrow> watch_add n w =
     w\<lparr>events := (events w + nat n) mod 2 ^ 64, total_events := (total_events w + nat n) mod 2 ^ 64\<rparr>"
  by (simp add: watch_add_def)

lemma whole_seconds_forward:
  "s \<le> e \<Longrightarrow> whole_seconds s e = (e - s) div 1000000000"
  by (simp add: whole_seconds_def microseconds_def trunc_div_def zdiv_zmult2_eq [symmetric]
      pos_imp_zdiv_nonneg_iff)

text \<open>
  For a clock that does not run backwards, \<open>now()\<close> leaves the counter alone and answers 0 in
  the first second; after that it answers the events per whole second elapsed, rounded down, and
  starts a new interval with the counter at zero.
\<close>

theorem watch_now_rate:
  assumes "start_p w \<le> clock" and "clock - start_p w < 10 ^ 18"
  shows "watch_now clock clock' w =
    (if clock - start_p w < 10 ^ 9 then (0, w)
     else (events w div nat ((clock - start_p w) div 10 ^ 9), w\<lparr>events := 0, start_p := clock'\<rparr>))"
proof -
  let ?d = "clock - start_p w"
  have sec: "whole_seconds (start_p w) clock = ?d div 1000000000"
    using assms(1) by (rule whole_seconds_forward)
  have zero: "?d div 1000000000 = 0 \<longleftrightarrow> ?d < 1000000000"
    using assms(1) by (auto simp: div_pos_pos_trivial)
  have nn: "0 \<le> ?d div 1000000000" using assms(1) by (simp add: pos_imp_zdiv_nonneg_iff)
  have "?d div 1000000000 \<le> ?d" using assms(1) zdiv_mono2 [of ?d 1 1000000000] by simp
  then have "?d div 1000000000 < 2 ^ 64" using assms(2) by simp
  with nn have "size_of_ptrdiff (?d div 1000000000) = nat (?d div 1000000000)" by simp
  with sec zero show ?thesis by (simp add: watch_now_def watch_reset_def Let_def)
qed

theorem watch_now_rate_witness:
  "watch_now 2500000000 2500000100 (watch_add 9 (watch_start 100 new_watch)) =
     (if 2500000000 - start_p (watch_add 9 (watch_start 100 new_watch)) < 10 ^ 9
      then (0, watch_add 9 (watch_start 100 new_watch))
      else (events (watch_add 9 (watch_start 100 new_watch))
              div nat ((2500000000 - start_p (watch_add 9 (watch_start 100 new_watch))) div 10 ^ 9),
            (watch_add 9 (watch_start 100 new_watch))\<lparr>events := 0, start_p := 2500000100\<rparr>))"
  by (rule watch_now_rate) (simp_all add: watch_start_def new_watch_def)

section \<open>Digit grouping\<close>

text \<open>
  A locale with \<open>comma_numpunct\<close> writes a comma before every third digit from the right:
  \<open>do_grouping\<close> is groups of three throughout. The argument is the digits in reverse.
\<close>

definition do_thousands_sep :: char where "do_thousands_sep = CHR '',''"

definition do_grouping :: string where "do_grouping = [CHR 0x03]"

fun group_rev :: "nat \<Rightarrow> char \<Rightarrow> string \<Rightarrow> string" where
  "group_rev g sep ds =
     (if g = 0 \<or> length ds \<le> g then ds else take g ds @ sep # group_rev g sep (drop g ds))"

declare group_rev.simps [simp del]

definition comma_number :: "nat \<Rightarrow> string" where
  "comma_number n = rev (group_rev (of_char (hd do_grouping)) do_thousands_sep (rev (dec_nat n)))"

text \<open>The last three decimal digits, zeros included.\<close>

definition three_digits :: "nat \<Rightarrow> string" where
  "three_digits n = [digit_char (n div 100 mod 10), digit_char (n div 10 mod 10), digit_char (n mod 10)]"

lemma dec_nat_thousand: "1000 \<le> n \<Longrightarrow> dec_nat n = dec_nat (n div 1000) @ three_digits n"
proof -
  assume n: "1000 \<le> n"
  have "dec_nat n = dec_nat (n div 10) @ [digit_char (n mod 10)]"
    using n by (subst dec_nat.simps) simp
  also have "dec_nat (n div 10) = dec_nat (n div 10 div 10) @ [digit_char (n div 10 mod 10)]"
    using n by (subst dec_nat.simps) simp
  also have "dec_nat (n div 10 div 10) = dec_nat (n div 10 div 10 div 10) @ [digit_char (n div 10 div 10 mod 10)]"
    using n by (subst dec_nat.simps) simp
  finally show ?thesis by (simp add: three_digits_def div_mult2_eq [symmetric])
qed

lemma dec_nat_length_gt: "1000 \<le> n \<Longrightarrow> 3 < length (dec_nat n)"
  by (simp add: dec_nat_thousand three_digits_def)

lemma comma_number_three: "comma_number n = rev (group_rev 3 (CHR '','') (rev (dec_nat n)))"
proof -
  have "of_char (hd do_grouping) = (3 :: nat)" by (simp add: do_grouping_def)
  then show ?thesis unfolding comma_number_def do_thousands_sep_def by (simp only:)
qed

text \<open>
  In detail: \<open>comma_numpunct\<close> prints a number below 1000 plainly, and any other as its thousands, a comma,
  and exactly three digits.
\<close>

theorem comma_number_groups:
  "comma_number n =
     (if n < 1000 then dec_nat n else comma_number (n div 1000) @ CHR '','' # three_digits n)"
proof (cases "n < 1000")
  case True
  then have "length (dec_nat n) \<le> 3" by (intro dec_nat_length) simp_all
  with True show ?thesis by (simp add: comma_number_three group_rev.simps)
next
  case False
  then have n: "1000 \<le> n" by simp
  have "group_rev 3 (CHR '','') (rev (dec_nat n)) =
      rev (three_digits n) @ CHR '','' # group_rev 3 (CHR '','') (rev (dec_nat (n div 1000)))"
    using dec_nat_length_gt [OF n] by (subst group_rev.simps) (simp add: dec_nat_thousand [OF n] three_digits_def)
  with False show ?thesis by (simp add: comma_number_three)
qed

section \<open>The status and summary texts\<close>

text \<open>\<open>setw(n) << left\<close>: at least \<open>n\<close> columns, filled with spaces on the right.\<close>

definition setw_left :: "nat \<Rightarrow> string \<Rightarrow> string" where
  "setw_left n s = s @ replicate (n - length s) (CHR '' '')"

definition status_line :: "string \<Rightarrow> nat \<Rightarrow> string \<Rightarrow> string" where
  "status_line label value unit = setw_left 25 label @ ''= '' @ setw_left 15 (comma_number value) @ unit"

definition newline :: string where "newline = [CHR 0x0A]"

text \<open>
  \<open>get_status\<close>: the three rates, then the lengths of the two queues. The clock is read twice by
  each \<open>now()\<close>.
\<close>

definition get_status ::
    "int \<times> int \<Rightarrow> int \<times> int \<Rightarrow> int \<times> int \<Rightarrow> nat \<Rightarrow> nat \<Rightarrow>
     events_watch \<times> events_watch \<times> events_watch \<Rightarrow> string \<times> events_watch \<times> events_watch \<times> events_watch" where
  "get_status c1 c2 c3 stream_size result_size ws =
     (case ws of (reader, worker, sender) \<Rightarrow>
        let (r, reader') = watch_now (fst c1) (snd c1) reader;
            (p, worker') = watch_now (fst c2) (snd c2) worker;
            (s, sender') = watch_now (fst c3) (snd c3) sender
        in (status_line ''Read Events '' r ('' events/sec'' @ newline) @
            status_line ''Process Events '' p ('' events/sec'' @ newline) @
            status_line ''Send Events '' s ('' events/sec'' @ newline) @
            status_line ''Stream Queue size '' stream_size newline @
            status_line ''Result Queue size '' result_size (newline @ newline),
            reader', worker', sender'))"

definition get_summary :: "events_watch \<Rightarrow> events_watch \<Rightarrow> events_watch \<Rightarrow> string" where
  "get_summary reader worker sender =
     status_line ''All Events '' (all_events reader) ('' events'' @ newline) @
     status_line ''Read Events '' (watch_total reader) ('' events/sec'' @ newline) @
     status_line ''Process Events '' (watch_total worker) ('' events/sec'' @ newline) @
     status_line ''Send Events '' (watch_total sender) ('' events/sec'' @ newline @ newline)"

text \<open>A watch to which nothing is added reports 0 for ever.\<close>

lemma idle_watch: "events w = 0 \<Longrightarrow> fst (watch_now c c' w) = 0"
  by (simp add: watch_now_def Let_def)

lemma idle_watch_total: "total_events w = 0 \<Longrightarrow> watch_total w = 0"
  by (simp add: watch_total_def Let_def)

end
