(* ===== verification/Pipeline.thy ===== *)
theory Pipeline
  imports Records Queues Watch
begin

text \<open>
  The three threads of \<open>multithreaded_sensor\<close> (\<open>include/sensor/multithreaded_sensor.h\<close>):
  \<open>_read_stream\<close> cuts \<open>trace_pipe\<close> into bulks, \<open>_process_traces\<close> makes records of them and packs of
  the records, \<open>_send_stream\<close> gives each pack to the stream. A null pointer in a queue is the
  mark of the end.

  The threads run as interleaved steps over the shared state; a step is a thread's local work
  together with the queue operation it does. The stream's \<open>dispatch\<close> is virtual: a parameter, that
  takes a pack and the state of the stream and returns the new state and, when it throws a
  \<open>std::exception\<close>, what it says.
\<close>

section \<open>Reading the trace\<close>

definition READ_BUFFER_SIZE :: nat where "READ_BUFFER_SIZE = 1024"
definition BULK_CAPACITY :: nat where "BULK_CAPACITY = 512"

text \<open>
  The \<open>ifstream\<close> on \<open>trace_pipe\<close>: whether it could be opened, what it will still deliver, \<open>eofbit\<close>.
  \<open>read(line, n)\<close> delivers \<open>n\<close> characters, or fewer and sets \<open>eofbit\<close>; on a stream that is not open,
  or has failed before, it delivers nothing and leaves \<open>eofbit\<close> as it is.
\<close>

record trace_file =
  tf_open :: bool
  tf_rest :: string
  tf_eof :: bool

definition file_read :: "nat \<Rightarrow> trace_file \<Rightarrow> string \<times> trace_file" where
  "file_read n f =
     (if \<not> tf_open f \<or> tf_eof f then ([], f)
      else if length (tf_rest f) < n then (tf_rest f, f\<lparr>tf_rest := [], tf_eof := True\<rparr>)
      else (take n (tf_rest f), f\<lparr>tf_rest := drop n (tf_rest f)\<rparr>))"

text \<open>
  One round of the inner loop of \<open>_read_stream\<close>: \<open>std::move\<close> leaves \<open>last_line\<close> empty, and
  \<open>split_string\<close> appends the unterminated rest to it. The result is the bulk, the stream and
  the new \<open>last_line\<close>.
\<close>

definition read_bulk :: "trace_file \<Rightarrow> string \<Rightarrow> (events_bulk \<times> trace_file \<times> string) outcome" where
  "read_bulk f last_line =
     (case file_read READ_BUFFER_SIZE f of (line, f') \<Rightarrow>
        let str_line = last_line @ line @ (if tf_eof f' then [CHR 0x0A] else []) in
        bind_outcome (split_string str_line [CHR 0x0A] [])
          (\<lambda>(lines, str, last). Inr (mk_bulk str lines, f', last)))"

section \<open>The shared state\<close>

text \<open>Where each thread is.\<close>

datatype reader_pc = RInit | RFill "events_bulk list" | RSentinel | RDone
datatype worker_pc = WInit | WWait | WBatch "events_bulk option list" | WFlush | WEcho | WEnd | WDone | WCrashed fault
datatype sender_pc = SInit | SWait | SBatch "sys_params_record list option list" | SDone

text \<open>\<open>p_sent\<close> records the packs given to \<open>dispatch\<close>, \<open>p_out\<close> what went to \<open>std::cout\<close>.\<close>

record 'st pipeline =
  p_file :: trace_file
  p_last :: string
  p_reader :: reader_pc
  p_reader_watch :: events_watch
  p_stream_queue :: "events_bulk option message_queue"
  p_worker :: worker_pc
  p_data :: "sys_params_record aggregator"
  p_worker_watch :: events_watch
  p_result_queue :: "sys_params_record list option message_queue"
  p_sender :: sender_pc
  p_sender_watch :: events_watch
  p_stream :: 'st
  p_finished :: bool
  p_out :: "string list"
  p_sent :: "sys_params_record list list"

definition pipeline_start :: "string \<Rightarrow> bool \<Rightarrow> 'st \<Rightarrow> 'st pipeline" where
  "pipeline_start trace opened st =
     \<lparr>p_file = \<lparr>tf_open = opened, tf_rest = trace, tf_eof = False\<rparr>, p_last = [],
      p_reader = RInit, p_reader_watch = new_watch, p_stream_queue = empty_mq,
      p_worker = WInit, p_data = new_aggregator 1024, p_worker_watch = new_watch, p_result_queue = empty_mq,
      p_sender = SInit, p_sender_watch = new_watch, p_stream = st, p_finished = False, p_out = [], p_sent = []\<rparr>"

section \<open>The reader\<close>

inductive reader_step :: "'st pipeline \<Rightarrow> 'st pipeline \<Rightarrow> bool" where
  r_start: "p_reader s = RInit \<Longrightarrow>
    reader_step s (s\<lparr>p_reader := RFill [], p_reader_watch := watch_start clock (p_reader_watch s)\<rparr>)"
| r_fill: "p_reader s = RFill bulks \<Longrightarrow> length bulks < BULK_CAPACITY \<Longrightarrow> \<not> tf_eof (p_file s) \<Longrightarrow>
    read_bulk (p_file s) (p_last s) = Inr (b, f', last') \<Longrightarrow>
    reader_step s (s\<lparr>p_reader := RFill (bulks @ [b]), p_file := f', p_last := last',
      p_reader_watch := watch_add (to_int32 (int (length (bulk_lines b)))) (p_reader_watch s)\<rparr>)"
| r_publish: "p_reader s = RFill bulks \<Longrightarrow> \<not> (length bulks < BULK_CAPACITY \<and> \<not> tf_eof (p_file s)) \<Longrightarrow>
    mq_enqueue_bulk (map Some bulks) (length bulks) (p_stream_queue s) = Inr q' \<Longrightarrow>
    reader_step s (s\<lparr>p_reader := (if tf_eof (p_file s) then RSentinel else RFill []), p_stream_queue := q'\<rparr>)"
| r_sentinel: "p_reader s = RSentinel \<Longrightarrow>
    reader_step s (s\<lparr>p_reader := RDone, p_stream_queue := mq_enqueue None (p_stream_queue s),
      p_reader_watch := watch_stop clock (p_reader_watch s)\<rparr>)"

section \<open>The worker\<close>

text \<open>\<open>if (_data->ready()) ... _result_queue->enqueue(make_new_pack())\<close>\<close>

definition flush_ready :: "'r aggregator \<Rightarrow> 'r list option message_queue \<Rightarrow> 'r aggregator \<times> 'r list option message_queue" where
  "flush_ready data rq =
     (if agg_ready data then (case make_new_pack data of (pack, data') \<Rightarrow> (data', mq_enqueue (Some pack) rq))
      else (data, rq))"

definition collect_bulk :: "events_bulk \<Rightarrow> sys_params_record aggregator \<Rightarrow> sys_params_record aggregator outcome" where
  "collect_bulk b = collect_params mk_sys_params_record (bulk_buffer b) (bulk_lines b)"

inductive worker_step :: "'st pipeline \<Rightarrow> 'st pipeline \<Rightarrow> bool" where
  w_start: "p_worker s = WInit \<Longrightarrow>
    worker_step s (s\<lparr>p_worker := WWait, p_worker_watch := watch_start clock (p_worker_watch s)\<rparr>)"
| w_wait: "p_worker s = WWait \<Longrightarrow> mq_wait_dequeue_bulk BULK_CAPACITY (p_stream_queue s) = Some (ms, q') \<Longrightarrow>
    worker_step s (s\<lparr>p_worker := WBatch ms, p_stream_queue := q'\<rparr>)"
| w_bulk: "p_worker s = WBatch (Some b # ms) \<Longrightarrow> collect_bulk b (p_data s) = Inr d \<Longrightarrow>
    flush_ready d (p_result_queue s) = (d', rq') \<Longrightarrow>
    worker_step s (s\<lparr>p_worker := WBatch ms, p_data := d', p_result_queue := rq'\<rparr>)"
| w_crash: "p_worker s = WBatch (Some b # ms) \<Longrightarrow> collect_bulk b (p_data s) = Inl e \<Longrightarrow>
    worker_step s (s\<lparr>p_worker := WCrashed e\<rparr>)"
| w_loop: "p_worker s = WBatch [] \<Longrightarrow> worker_step s (s\<lparr>p_worker := WWait\<rparr>)"
| w_null: "p_worker s = WBatch (None # ms) \<Longrightarrow> worker_step s (s\<lparr>p_worker := WFlush\<rparr>)"
| w_flush: "p_worker s = WFlush \<Longrightarrow> make_new_pack (p_data s) = (pack, d') \<Longrightarrow>
    worker_step s (s\<lparr>p_worker := WEcho, p_data := d',
      p_result_queue := (if pack \<noteq> [] then mq_enqueue (Some pack) (p_result_queue s) else p_result_queue s)\<rparr>)"
| w_echo: "p_worker s = WEcho \<Longrightarrow>
    worker_step s (s\<lparr>p_worker := WEnd, p_stream_queue := mq_enqueue None (p_stream_queue s)\<rparr>)"
| w_end: "p_worker s = WEnd \<Longrightarrow>
    worker_step s (s\<lparr>p_worker := WDone, p_result_queue := mq_enqueue None (p_result_queue s),
      p_worker_watch := watch_stop clock (p_worker_watch s)\<rparr>)"

section \<open>The sender\<close>

text \<open>An exception leaves the loop over the batch; the messages not yet handled are dropped.\<close>

inductive sender_step ::
    "(sys_params_record list \<Rightarrow> 'st \<Rightarrow> 'st \<times> string option) \<Rightarrow> 'st pipeline \<Rightarrow> 'st pipeline \<Rightarrow> bool"
  for dispatch where
  s_start: "p_sender s = SInit \<Longrightarrow>
    sender_step dispatch s (s\<lparr>p_sender := SWait, p_sender_watch := watch_start clock (p_sender_watch s)\<rparr>)"
| s_wait: "p_sender s = SWait \<Longrightarrow> mq_wait_dequeue_bulk BULK_CAPACITY (p_result_queue s) = Some (ms, q') \<Longrightarrow>
    sender_step dispatch s (s\<lparr>p_sender := SBatch ms, p_result_queue := q'\<rparr>)"
| s_pack: "p_sender s = SBatch (Some pack # ms) \<Longrightarrow> dispatch pack (p_stream s) = (st', None) \<Longrightarrow>
    sender_step dispatch s (s\<lparr>p_sender := SBatch ms, p_stream := st', p_sent := p_sent s @ [pack],
      p_sender_watch := watch_add (to_int32 (int (length pack))) (p_sender_watch s)\<rparr>)"
| s_throw: "p_sender s = SBatch (Some pack # ms) \<Longrightarrow> dispatch pack (p_stream s) = (st', Some e) \<Longrightarrow>
    sender_step dispatch s (s\<lparr>p_sender := SWait, p_stream := st', p_sent := p_sent s @ [pack],
      p_out := p_out s @ [e @ [CHR 0x0A]]\<rparr>)"
| s_loop: "p_sender s = SBatch [] \<Longrightarrow> sender_step dispatch s (s\<lparr>p_sender := SWait\<rparr>)"
| s_null: "p_sender s = SBatch (None # ms) \<Longrightarrow>
    sender_step dispatch s (s\<lparr>p_sender := SDone, p_finished := True,
      p_sender_watch := watch_stop clock (p_sender_watch s)\<rparr>)"

section \<open>Runs\<close>

text \<open>A step of the program: one of the three threads moves, while the worker has not crashed the process.\<close>

inductive pipeline_step ::
    "(sys_params_record list \<Rightarrow> 'st \<Rightarrow> 'st \<times> string option) \<Rightarrow> 'st pipeline \<Rightarrow> 'st pipeline \<Rightarrow> bool"
  for dispatch where
  reader: "reader_step s s' \<Longrightarrow> \<forall>e. p_worker s \<noteq> WCrashed e \<Longrightarrow> pipeline_step dispatch s s'"
| worker: "worker_step s s' \<Longrightarrow> pipeline_step dispatch s s'"
| sender: "sender_step dispatch s s' \<Longrightarrow> \<forall>e. p_worker s \<noteq> WCrashed e \<Longrightarrow> pipeline_step dispatch s s'"

inductive pipeline_run ::
    "(sys_params_record list \<Rightarrow> 'st \<Rightarrow> 'st \<times> string option) \<Rightarrow> 'st pipeline \<Rightarrow> 'st pipeline \<Rightarrow> bool"
  for dispatch where
  run_refl: "pipeline_run dispatch s s"
| run_step: "pipeline_run dispatch s s' \<Longrightarrow> pipeline_step dispatch s' s'' \<Longrightarrow> pipeline_run dispatch s s''"


section \<open>What the reader will produce\<close>

text \<open>The work left in the file: every round of an open stream lowers it.\<close>

definition file_left :: "trace_file \<Rightarrow> nat" where
  "file_left f = (if tf_eof f then 0 else Suc (length (tf_rest f)))"

lemma file_read_cases:
  assumes "tf_open f" and "\<not> tf_eof f"
  obtains (final) "file_read READ_BUFFER_SIZE f = (tf_rest f, f\<lparr>tf_rest := [], tf_eof := True\<rparr>)"
      and "length (tf_rest f) < READ_BUFFER_SIZE"
    | (full) c r where "tf_rest f = c @ r" and "length c = READ_BUFFER_SIZE"
      and "file_read READ_BUFFER_SIZE f = (c, f\<lparr>tf_rest := r\<rparr>)"
proof (cases "length (tf_rest f) < READ_BUFFER_SIZE")
  case True
  with assms final show ?thesis by (simp add: file_read_def)
next
  case False
  with assms full [of "take READ_BUFFER_SIZE (tf_rest f)" "drop READ_BUFFER_SIZE (tf_rest f)"]
  show ?thesis by (simp add: file_read_def)
qed

lemma read_bulk_left:
  assumes "read_bulk f l = Inr (b, f', l')" and "tf_open f" and "\<not> tf_eof f"
  shows "tf_open f' \<and> file_left f' < file_left f"
proof (cases rule: file_read_cases [OF assms(2,3), case_names final full])
  case final
  with assms show ?thesis by (auto simp: read_bulk_def file_left_def fault_simps Let_def)
next
  case (full c r)
  have "0 < length c" using full(2) by (simp add: READ_BUFFER_SIZE_def)
  with full assms show ?thesis by (auto simp: read_bulk_def file_left_def fault_simps Let_def)
qed

text \<open>The bulks of the rest of an open stream, in order.\<close>

function bulks_from :: "trace_file \<Rightarrow> string \<Rightarrow> events_bulk list" where
  "bulks_from f l =
     (if tf_eof f \<or> \<not> tf_open f then []
      else (case read_bulk f l of Inl e \<Rightarrow> [] | Inr (b, f', l') \<Rightarrow> b # bulks_from f' l'))"
  by pat_completeness auto
termination
  by (relation "measure (\<lambda>(f, l). file_left f)") (auto dest: read_bulk_left)

declare bulks_from.simps [simp del]

text \<open>Reading faults on nothing but a string of \<open>2 ^ 63\<close> characters, which the bound excludes.\<close>

definition reading_ok :: "trace_file \<Rightarrow> string \<Rightarrow> bool" where
  "reading_ok f l \<longleftrightarrow> length l + length (tf_rest f) < 2 ^ 62"

lemma read_bulk_result:
  assumes "file_read READ_BUFFER_SIZE f = (c, f')" and "length l + length c < 2 ^ 62"
  shows "read_bulk f l =
    (let (ls, r) = break_lines (CHR 0x0A) (l @ c @ (if tf_eof f' then [CHR 0x0A] else [])) in
     Inr (mk_bulk (if length r = 1 then l @ c @ (if tf_eof f' then [CHR 0x0A] else [])
                   else concat (map (\<lambda>x. x @ [CHR 0x0A]) ls)) (refs_at 0 ls),
          f', if length r = 1 then [] else r))"
proof -
  have "length (l @ c @ (if tf_eof f' then [CHR 0x0A] else [])) < 2 ^ 63" using assms(2) by simp
  from split_string_chunk [OF this, of "CHR 0x0A" "[]"] show ?thesis
    by (simp add: read_bulk_def assms(1) Let_def prod.case_eq_if del: length_append)
qed

text \<open>Every reference of a bulk lies in the bulk's own buffer and holds the characters it points to.\<close>

definition ref_in :: "string \<Rightarrow> string_ref \<Rightarrow> bool" where
  "ref_in buffer r \<longleftrightarrow> 0 \<le> sr_begin r \<and> sr_begin r + int (sr_size r) \<le> int (length buffer) \<and>
     sr_buffer r = take (sr_size r) (drop (nat (sr_begin r)) buffer)"

lemma refs_at_in: "list_all (ref_in (pre @ concat (map (\<lambda>l. l @ [d]) ls) @ rest)) (refs_at (length pre) ls)"
proof (induction ls arbitrary: pre)
  case (Cons l ls)
  from Cons [of "pre @ l @ [d]"] show ?case by (simp add: ref_in_def add.assoc)
qed simp



lemma read_bulk_ok:
  assumes "reading_ok f l"
  shows "\<exists>b f' l'. read_bulk f l = Inr (b, f', l') \<and> reading_ok f' l'"
proof -
  obtain c f' where r: "file_read READ_BUFFER_SIZE f = (c, f')" by fastforce
  then have n: "length c + length (tf_rest f') \<le> length (tf_rest f)" and e: "\<not> tf_eof f' \<or> tf_rest f' = [] \<or> f' = f \<and> c = []"
    by (auto simp: file_read_def split: if_splits)
  with assms have small: "length l + length c < 2 ^ 62" by (simp add: reading_ok_def)
  let ?s = "l @ c @ (if tf_eof f' then [CHR 0x0A] else [])"
  have rest: "length (snd (break_lines (CHR 0x0A) ?s)) \<le> length (l @ c)"
  proof (cases "tf_eof f'")
    case True
    have "break_lines (CHR 0x0A) ?s = (fst (break_lines (CHR 0x0A) (l @ c)) @
        fst (break_lines (CHR 0x0A) (snd (break_lines (CHR 0x0A) (l @ c)) @ [CHR 0x0A])),
        snd (break_lines (CHR 0x0A) (snd (break_lines (CHR 0x0A) (l @ c)) @ [CHR 0x0A])))"
      using True break_lines_append [of "CHR 0x0A" "l @ c" "[CHR 0x0A]"] by simp
    then show ?thesis using break_lines_first [OF break_lines_rest [of "CHR 0x0A" "l @ c"], of "[]"] by simp
  next
    case False
    then show ?thesis using break_lines_rest_length [of "CHR 0x0A" "l @ c"] by simp
  qed
  show ?thesis
    unfolding read_bulk_result [OF r small] Let_def
    using rest n assms by (auto simp: reading_ok_def prod.case_eq_if)
qed

lemma bulks_from_step:
  "\<not> tf_eof f \<Longrightarrow> tf_open f \<Longrightarrow> read_bulk f l = Inr (b, f', l') \<Longrightarrow> bulks_from f l = b # bulks_from f' l'"
  by (subst bulks_from.simps) simp

lemma bulks_from_eof: "tf_eof f \<Longrightarrow> bulks_from f l = []"
  by (subst bulks_from.simps) simp

section \<open>The lines of the bulks are the lines of the file\<close>

definition bulk_texts :: "events_bulk \<Rightarrow> string list" where
  "bulk_texts b = map sr_buffer (bulk_lines b)"

text \<open>
  The rest a chunk leaves unterminated; the reader loses it when it is one character long.
  \<open>keeps_rests f l\<close>: no chunk boundary ahead falls one character after a line's beginning.
\<close>

function keeps_rests :: "trace_file \<Rightarrow> string \<Rightarrow> bool" where
  "keeps_rests f l =
     (if tf_eof f \<or> \<not> tf_open f \<or> length (tf_rest f) < READ_BUFFER_SIZE then True
      else (let r = snd (break_lines (CHR 0x0A) (l @ take READ_BUFFER_SIZE (tf_rest f))) in
            length r \<noteq> 1 \<and> keeps_rests (f\<lparr>tf_rest := drop READ_BUFFER_SIZE (tf_rest f)\<rparr>) r))"
  by pat_completeness auto
termination
  by (relation "measure (\<lambda>(f, l). file_left f)") (auto simp: file_left_def READ_BUFFER_SIZE_def)

declare keeps_rests.simps [simp del]

lemma bulk_texts_refs: "bulk_texts (mk_bulk str (refs_at k ls)) = ls"
  by (simp add: bulk_texts_def mk_bulk_def)

lemma bulks_from_lines:
  assumes "tf_open f" and "\<not> tf_eof f" and "reading_ok f l" and "keeps_rests f l"
  shows "concat (map bulk_texts (bulks_from f l)) = fst (break_lines (CHR 0x0A) (l @ tf_rest f @ [CHR 0x0A]))"
  using assms
proof (induction f l rule: bulks_from.induct)
  case (1 f l)
  show ?case
  proof (cases rule: file_read_cases [OF 1(2,3), case_names final full])
    case final
    have "length l + length (tf_rest f) < 2 ^ 62" using 1(4) by (simp add: reading_ok_def)
    from read_bulk_result [OF final(1) this] show ?thesis
      using 1(2,3) by (subst bulks_from.simps)
        (simp add: bulks_from_eof bulk_texts_def mk_bulk_def Let_def prod.case_eq_if split: sum.splits)
  next
    case (full c r)
    let ?ls = "fst (break_lines (CHR 0x0A) (l @ c))" and ?r = "snd (break_lines (CHR 0x0A) (l @ c))"
    let ?f' = "f\<lparr>tf_rest := r\<rparr>"
    have small: "length l + length c < 2 ^ 62" using 1(4) full(1) by (simp add: reading_ok_def)
    have keep: "length ?r \<noteq> 1" "keeps_rests ?f' ?r"
      using 1(2,3,5) full(1,2) by (simp_all add: keeps_rests.simps [of f l] Let_def)
    then have rb: "read_bulk f l = Inr (mk_bulk (concat (map (\<lambda>x. x @ [CHR 0x0A]) ?ls)) (refs_at 0 ?ls), ?f', ?r)"
      using read_bulk_result [OF full(3) small] 1(3) by (simp add: Let_def prod.case_eq_if)
    have ok: "reading_ok ?f' ?r"
      using read_bulk_ok [OF 1(4)] rb by auto
    have "concat (map bulk_texts (bulks_from ?f' ?r)) = fst (break_lines (CHR 0x0A) (?r @ r @ [CHR 0x0A]))"
      using 1(1) [OF _ rb] 1(2,3) ok keep by simp
    then show ?thesis
      using break_lines_append [of "CHR 0x0A" "l @ c" "r @ [CHR 0x0A]"] full(1)
      by (simp add: bulks_from_step [OF 1(3,2) rb] bulk_texts_refs)
  qed
qed

end
