(* ===== verification/Delivery.thy ===== *)
theory Delivery
  imports Pipeline
begin

text \<open>
  What the three threads of \<open>multithreaded_sensor\<close> achieve together: every record of the trace
  reaches the stream's \<open>dispatch\<close> once and in order, the run ends, and \<open>finished\<close> is set at its
  end only. The proofs rest on the contract of \<open>message_queue\<close> alone.
\<close>

section \<open>The records of a bulk\<close>

lemma collect_params_line_extend:
  "collect_params_line mk text it d =
     bind_outcome (collect_params_line mk text it \<lparr>agg_limit = 0, agg_data = []\<rparr>)
       (\<lambda>d'. Inr (d\<lparr>agg_data := agg_data d @ agg_data d'\<rparr>))"
  by (cases d) (simp add: collect_params_line_def agg_append_def bind_outcome_def split: sum.splits)

lemma collect_params_extend:
  "collect_params mk text its d =
     bind_outcome (collect_params mk text its \<lparr>agg_limit = 0, agg_data = []\<rparr>)
       (\<lambda>d'. Inr (d\<lparr>agg_data := agg_data d @ agg_data d'\<rparr>))"
proof (induction its arbitrary: d)
  case (Cons it its)
  show ?case
  proof (cases "collect_params_line mk text it \<lparr>agg_limit = 0, agg_data = []\<rparr>")
    case (Inl e)
    then show ?thesis by (simp add: collect_params_line_extend [of mk "text" it d])
  next
    case (Inr d1)
    have "collect_params mk text (it # its) d = collect_params mk text its (d\<lparr>agg_data := agg_data d @ agg_data d1\<rparr>)"
      by (simp add: collect_params_line_extend [of mk "text" it d] Inr)
    also have "\<dots> = bind_outcome (collect_params mk text its \<lparr>agg_limit = 0, agg_data = []\<rparr>)
        (\<lambda>d'. Inr (d\<lparr>agg_data := (agg_data d @ agg_data d1) @ agg_data d'\<rparr>))"
      by (subst Cons.IH) simp
    also have "\<dots> = bind_outcome (collect_params mk text (it # its) \<lparr>agg_limit = 0, agg_data = []\<rparr>)
        (\<lambda>d'. Inr (d\<lparr>agg_data := agg_data d @ agg_data d'\<rparr>))"
      by (simp add: Inr Cons.IH [of d1] bind_outcome_def split: sum.splits)
    finally show ?thesis .
  qed
qed simp

definition bulk_records :: "events_bulk \<Rightarrow> sys_params_record list" where
  "bulk_records b =
     (case collect_bulk b \<lparr>agg_limit = 0, agg_data = []\<rparr> of Inl e \<Rightarrow> [] | Inr d \<Rightarrow> agg_data d)"

lemma collect_bulk_records:
  "collect_bulk b d = Inr d' \<Longrightarrow> d' = d\<lparr>agg_data := agg_data d @ bulk_records b\<rparr>"
  using collect_params_extend [of mk_sys_params_record "bulk_buffer b" "bulk_lines b" d]
  by (auto simp: collect_bulk_def bulk_records_def bind_outcome_def split: sum.splits)

section \<open>What is on its way\<close>

fun somes :: "'a option list \<Rightarrow> 'a list" where
  "somes [] = []"
| "somes (None # xs) = somes xs"
| "somes (Some x # xs) = x # somes xs"

lemma somes_append [simp]: "somes (xs @ ys) = somes xs @ somes ys"
  by (induction xs rule: somes.induct) auto

lemma somes_map [simp]: "somes (map Some xs) = xs"
  by (induction xs) auto

fun in_reader :: "reader_pc \<Rightarrow> events_bulk list" where
  "in_reader (RFill bulks) = bulks"
| "in_reader _ = []"

fun in_worker :: "worker_pc \<Rightarrow> events_bulk option list" where
  "in_worker (WBatch ms) = ms"
| "in_worker _ = []"

fun in_sender :: "sender_pc \<Rightarrow> sys_params_record list option list" where
  "in_sender (SBatch ms) = ms"
| "in_sender _ = []"

definition stream_msgs :: "'st pipeline \<Rightarrow> events_bulk option list" where
  "stream_msgs s = in_worker (p_worker s) @ mq_queue (p_stream_queue s)"

definition result_msgs :: "'st pipeline \<Rightarrow> sys_params_record list option list" where
  "result_msgs s = in_sender (p_sender s) @ mq_queue (p_result_queue s)"

definition pending_bulks :: "'st pipeline \<Rightarrow> events_bulk list" where
  "pending_bulks s = somes (stream_msgs s) @ in_reader (p_reader s) @ bulks_from (p_file s) (p_last s)"

text \<open>The records sent, those on their way, and those the rest of the trace will give, in order.\<close>

definition all_records :: "'st pipeline \<Rightarrow> sys_params_record list" where
  "all_records s = concat (p_sent s) @ concat (somes (result_msgs s)) @ agg_data (p_data s) @
     concat (map bulk_records (pending_bulks s))"

fun active :: "worker_pc \<Rightarrow> bool" where
  "active WInit = True" | "active WWait = True" | "active (WBatch ms) = True" | "active _ = False"

fun reading :: "reader_pc \<Rightarrow> bool" where
  "reading RSentinel = False" | "reading RDone = False" | "reading _ = True"

definition reader_ok :: "'st pipeline \<Rightarrow> bool" where
  "reader_ok s \<longleftrightarrow> tf_open (p_file s) \<and> reading_ok (p_file s) (p_last s) \<and>
     (\<not> reading (p_reader s) \<longrightarrow> tf_eof (p_file s)) \<and> length (in_reader (p_reader s)) \<le> BULK_CAPACITY"

text \<open>The mark of the end is the last message of each queue, and is there when its thread is done.\<close>

definition stream_flow :: "'st pipeline \<Rightarrow> bool" where
  "stream_flow s \<longleftrightarrow>
     (active (p_worker s) \<longrightarrow>
        (\<exists>bs. stream_msgs s = map Some bs @ (if p_reader s = RDone then [None] else []))) \<and>
     (\<not> active (p_worker s) \<longrightarrow> p_reader s = RDone \<and> somes (stream_msgs s) = [])"

definition data_flow :: "'st pipeline \<Rightarrow> bool" where
  "data_flow s \<longleftrightarrow> (p_worker s \<in> {WEcho, WEnd, WDone} \<longrightarrow> agg_data (p_data s) = [])"

definition result_flow :: "'st pipeline \<Rightarrow> bool" where
  "result_flow s \<longleftrightarrow>
     (p_sender s \<noteq> SDone \<longrightarrow>
        (\<exists>ps. result_msgs s = map Some ps @ (if p_worker s = WDone then [None] else []))) \<and>
     (p_sender s = SDone \<longrightarrow> p_worker s = WDone \<and> result_msgs s = [])"

definition finish_ok :: "'st pipeline \<Rightarrow> bool" where
  "finish_ok s \<longleftrightarrow> (p_finished s \<longleftrightarrow> p_sender s = SDone)"

definition not_crashed :: "'st pipeline \<Rightarrow> bool" where
  "not_crashed s \<longleftrightarrow> (\<forall>e. p_worker s \<noteq> WCrashed e)"

definition pipeline_inv :: "'st pipeline \<Rightarrow> bool" where
  "pipeline_inv s \<longleftrightarrow> reader_ok s \<and> stream_flow s \<and> data_flow s \<and> result_flow s \<and> finish_ok s"

lemmas flow_defs = stream_flow_def data_flow_def result_flow_def finish_ok_def reader_ok_def
lemmas msgs_defs = stream_msgs_def result_msgs_def pending_bulks_def all_records_def

lemma pipeline_inv_start:
  "length trace < 2 ^ 62 \<Longrightarrow> pipeline_inv (pipeline_start trace True st)"
  by (simp add: pipeline_inv_def flow_defs msgs_defs pipeline_start_def reading_ok_def empty_mq_def)

lemma mq_enqueue_queue [simp]: "mq_queue (mq_enqueue m q) = mq_queue q @ [m]"
  by (rule mq.enq_contents)

section \<open>The reader's steps\<close>

lemma reader_step_inv:
  assumes "reader_step s s'" and "pipeline_inv s"
  shows "pipeline_inv s' \<and> all_records s' = all_records s"
  using assms(1)
proof cases
  case (r_start clock)
  with assms(2) show ?thesis by (simp add: pipeline_inv_def flow_defs msgs_defs)
next
  case (r_fill bulks b f' last')
  with assms(2) have "reading_ok (p_file s) (p_last s)" "tf_open (p_file s)"
    by (simp_all add: pipeline_inv_def reader_ok_def)
  moreover from read_bulk_ok [OF this(1)] r_fill(5) have "reading_ok f' last'" by auto
  moreover have "tf_open f'" using read_bulk_left [OF r_fill(5)] r_fill(4) calculation by blast
  moreover have "bulks_from (p_file s) (p_last s) = b # bulks_from f' last'"
    using calculation r_fill by (intro bulks_from_step) auto
  ultimately show ?thesis using r_fill assms(2)
    by (simp add: pipeline_inv_def flow_defs msgs_defs)
next
  case (r_publish bulks q')
  have q': "mq_queue q' = mq_queue (p_stream_queue s) @ map Some bulks"
    using mq.enq_bulk_result [OF r_publish(4)] by simp
  have act: "active (p_worker s)"
    using assms(2) r_publish(2) by (auto simp: pipeline_inv_def stream_flow_def)
  then obtain bs where "stream_msgs s = map Some bs"
    using assms(2) r_publish(2) by (auto simp: pipeline_inv_def stream_flow_def)
  then have m: "stream_msgs s' = map Some (bs @ bulks)"
    using q' r_publish(1) by (simp add: stream_msgs_def)
  have "stream_flow s'" unfolding stream_flow_def m using act r_publish(1) by (auto simp del: map_append)
  moreover have "all_records s' = all_records s"
    using q' r_publish(1,2) by (simp add: msgs_defs)
  moreover have "reader_ok s' \<and> data_flow s' \<and> result_flow s' \<and> finish_ok s'"
    using assms(2) r_publish(1,2) by (simp add: pipeline_inv_def flow_defs result_msgs_def)
  ultimately show ?thesis by (simp add: pipeline_inv_def)
next
  case (r_sentinel clock)
  with assms(2) show ?thesis
    by (auto simp: pipeline_inv_def flow_defs msgs_defs bulks_from_eof)
qed


section \<open>The worker's steps\<close>

lemma map_Some_Cons: "x # xs = map Some bs @ ys \<Longrightarrow> x \<noteq> None \<Longrightarrow> ys = [] \<or> hd ys = None \<Longrightarrow>
  \<exists>b bs'. x = Some b \<and> xs = map Some bs' @ ys"
  by (cases bs) auto

lemma last_mark: "None # xs = map Some bs @ (if P then [None] else []) \<Longrightarrow> P \<and> xs = []"
  by (cases bs) (auto split: if_splits)

lemma flush_ready_result:
  assumes "flush_ready d rq = (d', rq')"
  shows "\<exists>packs. mq_queue rq' = mq_queue rq @ map Some packs \<and> concat packs @ agg_data d' = agg_data d"
proof (cases "agg_ready d")
  case True
  with assms show ?thesis
    by (intro exI [of _ "[agg_data d]"]) (auto simp: flush_ready_def make_new_pack_def)
next
  case False
  with assms show ?thesis by (intro exI [of _ "[]"]) (auto simp: flush_ready_def)
qed

lemma result_flow_enqueue:
  assumes "result_flow s" and "p_worker s \<noteq> WDone" and "p_worker s' \<noteq> WDone" and "p_sender s' = p_sender s"
    and "mq_queue (p_result_queue s') = mq_queue (p_result_queue s) @ map Some packs"
  shows "result_flow s'" and "somes (result_msgs s') = somes (result_msgs s) @ packs"
proof -
  from assms(1,2) obtain ps where "p_sender s \<noteq> SDone" "result_msgs s = map Some ps"
    by (auto simp: result_flow_def)
  then have m: "result_msgs s' = map Some (ps @ packs)" "p_sender s' \<noteq> SDone" "result_msgs s = map Some ps"
    using assms(4,5) by (simp_all add: result_msgs_def)
  from m(1,2) show "result_flow s'" using assms(3) unfolding result_flow_def by (auto simp del: map_append)
  from m(1,3) show "somes (result_msgs s') = somes (result_msgs s) @ packs" by (simp del: map_append)
qed

lemma w_bulk_inv:
  assumes "p_worker s = WBatch (Some b # ms)" and "collect_bulk b (p_data s) = Inr d"
    and "flush_ready d (p_result_queue s) = (d', rq')"
    and s': "s' = s\<lparr>p_worker := WBatch ms, p_data := d', p_result_queue := rq'\<rparr>" and inv: "pipeline_inv s"
  shows "pipeline_inv s' \<and> all_records s' = all_records s"
proof -
  from flush_ready_result [OF assms(3)] obtain packs where
    packs: "mq_queue rq' = mq_queue (p_result_queue s) @ map Some packs" "concat packs @ agg_data d' = agg_data d"
    by blast
  have d: "agg_data d = agg_data (p_data s) @ bulk_records b"
    using collect_bulk_records [OF assms(2)] by simp
  have rf: "result_flow s" using inv by (simp add: pipeline_inv_def)
  have rq: "result_flow s'" "somes (result_msgs s') = somes (result_msgs s) @ packs"
    using result_flow_enqueue [OF rf, of s' packs] assms(1) packs(1) by (simp_all add: s')
  have msgs: "stream_msgs s = Some b # stream_msgs s'"
    using assms(1) by (simp add: stream_msgs_def s')
  have "stream_flow s'"
    using inv assms(1) msgs map_Some_Cons [of "Some b" "stream_msgs s'"]
    by (fastforce simp: pipeline_inv_def stream_flow_def s')
  moreover have "concat packs @ agg_data d' @ bulk_records_rest = agg_data (p_data s) @ bulk_records b @ bulk_records_rest" for bulk_records_rest
    using packs(2) d by (metis append.assoc)
  then have "all_records s' = all_records s"
    using rq(2) msgs by (simp add: all_records_def pending_bulks_def) (simp add: s')
  moreover have "reader_ok s' \<and> data_flow s' \<and> finish_ok s'"
    using inv by (simp add: pipeline_inv_def flow_defs s')
  ultimately show ?thesis using rq(1) by (simp add: pipeline_inv_def)
qed

lemma worker_step_inv:
  assumes "worker_step s s'" and inv: "pipeline_inv s" and "not_crashed s'"
  shows "pipeline_inv s' \<and> all_records s' = all_records s"
  using assms(1)
proof cases
  case (w_bulk b ms d d' rq')
  then show ?thesis by (intro w_bulk_inv [OF w_bulk(2,3,4,1) inv])
next
  case (w_wait ms q')
  have q: "mq_queue (p_stream_queue s) = ms @ mq_queue q'" using mq.deq_split [OF w_wait(3)] .
  with w_wait inv show ?thesis by (simp add: pipeline_inv_def flow_defs msgs_defs)
next
  case (w_flush pack d')
  have rf: "result_flow s" using inv by (simp add: pipeline_inv_def)
  have pk: "pack = agg_data (p_data s)" "agg_data d' = []" using w_flush(3) by (auto simp: make_new_pack_def)
  have rq: "result_flow s'" "somes (result_msgs s') = somes (result_msgs s) @ (if pack \<noteq> [] then [pack] else [])"
    using result_flow_enqueue [OF rf, of s' "if pack \<noteq> [] then [pack] else []"] w_flush(1,2) by simp_all
  have "all_records s' = all_records s"
    using rq(2) pk by (simp add: all_records_def pending_bulks_def) (simp add: w_flush(1,2) stream_msgs_def)
  moreover have "reader_ok s' \<and> data_flow s' \<and> stream_flow s' \<and> finish_ok s'"
    using inv w_flush(1,2) pk by (simp add: pipeline_inv_def flow_defs stream_msgs_def)
  ultimately show ?thesis using rq(1) by (simp add: pipeline_inv_def)
next
  case (w_end clock)
  from inv w_end(2) obtain ps where ps: "p_sender s \<noteq> SDone" "result_msgs s = map Some ps"
    by (auto simp: pipeline_inv_def result_flow_def)
  have m: "result_msgs s' = result_msgs s @ [None]" using w_end by (simp add: result_msgs_def)
  have "result_flow s'" "somes (result_msgs s') = somes (result_msgs s)"
    using ps w_end(1) unfolding result_flow_def m by auto
  then show ?thesis using inv w_end
    by (auto simp: pipeline_inv_def flow_defs msgs_defs)
next
  case (w_null ms)
  with inv obtain bs where "None # ms @ mq_queue (p_stream_queue s) = map Some bs @ (if p_reader s = RDone then [None] else [])"
    by (auto simp: pipeline_inv_def stream_flow_def stream_msgs_def)
  from last_mark [OF this] w_null inv show ?thesis
    by (auto simp: pipeline_inv_def flow_defs msgs_defs)
next
  case (w_crash b ms e)
  with assms(3) show ?thesis by (simp add: not_crashed_def)
qed (use inv in \<open>simp_all add: pipeline_inv_def flow_defs msgs_defs\<close>)


section \<open>The sender's steps\<close>

definition never_throws :: "(sys_params_record list \<Rightarrow> 'st \<Rightarrow> 'st \<times> string option) \<Rightarrow> bool" where
  "never_throws dispatch \<longleftrightarrow> (\<forall>pack st. snd (dispatch pack st) = None)"

lemma sender_step_inv:
  assumes "sender_step dispatch s s'" and inv: "pipeline_inv s" and quiet: "never_throws dispatch"
  shows "pipeline_inv s' \<and> all_records s' = all_records s"
  using assms(1)
proof cases
  case (s_wait ms q')
  have q: "mq_queue (p_result_queue s) = ms @ mq_queue q'" using mq.deq_split [OF s_wait(3)] .
  with s_wait inv show ?thesis by (simp add: pipeline_inv_def flow_defs msgs_defs)
next
  case (s_pack pack ms st')
  have m: "result_msgs s = Some pack # result_msgs s'" using s_pack by (simp add: result_msgs_def)
  from inv s_pack(2) obtain ps where "result_msgs s = map Some ps @ (if p_worker s = WDone then [None] else [])"
    by (auto simp: pipeline_inv_def result_flow_def)
  with m have "Some pack # result_msgs s' = map Some ps @ (if p_worker s = WDone then [None] else [])" by simp
  then have "\<exists>ps'. result_msgs s' = map Some ps' @ (if p_worker s = WDone then [None] else [])"
    using map_Some_Cons [of "Some pack" "result_msgs s'" ps "if p_worker s = WDone then [None] else []"] by auto
  then obtain ps' where "result_msgs s' = map Some ps' @ (if p_worker s = WDone then [None] else [])" ..
  then have "result_flow s'" using s_pack(1) by (auto simp: result_flow_def)
  moreover have "all_records s' = all_records s"
    using m by (simp add: all_records_def pending_bulks_def) (simp add: s_pack(1) stream_msgs_def)
  moreover have "reader_ok s' \<and> data_flow s' \<and> stream_flow s' \<and> finish_ok s'"
    using inv s_pack(1,2) by (simp add: pipeline_inv_def flow_defs stream_msgs_def)
  ultimately show ?thesis by (simp add: pipeline_inv_def)
next
  case (s_throw pack ms st' e)
  with quiet show ?thesis by (metis never_throws_def option.distinct(1) snd_conv)
next
  case (s_null ms clock)
  with inv obtain ps where "None # ms @ mq_queue (p_result_queue s) = map Some ps @ (if p_worker s = WDone then [None] else [])"
    by (auto simp: pipeline_inv_def result_flow_def result_msgs_def)
  from last_mark [OF this] s_null inv show ?thesis
    by (auto simp: pipeline_inv_def flow_defs msgs_defs)
qed (use inv in \<open>simp_all add: pipeline_inv_def flow_defs msgs_defs\<close>)

section \<open>Runs\<close>

lemma pipeline_step_inv:
  assumes "pipeline_step dispatch s s'" and "pipeline_inv s" and "never_throws dispatch" and "not_crashed s'"
  shows "pipeline_inv s' \<and> all_records s' = all_records s"
  using assms(1)
  by cases (use assms(2-4) in \<open>blast dest: reader_step_inv worker_step_inv sender_step_inv\<close>)+

lemma not_crashed_before: "pipeline_step dispatch s s' \<Longrightarrow> not_crashed s' \<Longrightarrow> not_crashed s"
  by (auto simp: not_crashed_def elim!: pipeline_step.cases worker_step.cases)

lemma pipeline_run_inv:
  assumes "pipeline_run dispatch s0 s" and "pipeline_inv s0" and "never_throws dispatch" and "not_crashed s"
  shows "pipeline_inv s \<and> all_records s = all_records s0"
  using assms
proof (induction rule: pipeline_run.induct)
  case (run_step s s' s'')
  then show ?case using not_crashed_before [of dispatch s' s''] pipeline_step_inv [of dispatch s' s''] by auto
qed simp

text \<open>The stream's state is that of the packs it was given, one after the other.\<close>

definition dispatch_all :: "(sys_params_record list \<Rightarrow> 'st \<Rightarrow> 'st \<times> string option) \<Rightarrow> sys_params_record list list \<Rightarrow> 'st \<Rightarrow> 'st" where
  "dispatch_all dispatch packs st = foldl (\<lambda>st pack. fst (dispatch pack st)) st packs"

lemma pipeline_step_stream:
  "pipeline_step dispatch s s' \<Longrightarrow> p_stream s = dispatch_all dispatch (p_sent s) st \<Longrightarrow>
   p_stream s' = dispatch_all dispatch (p_sent s') st"
  by (auto simp: dispatch_all_def elim!: pipeline_step.cases reader_step.cases worker_step.cases sender_step.cases)

lemma pipeline_run_stream:
  "pipeline_run dispatch s0 s \<Longrightarrow> p_stream s0 = dispatch_all dispatch (p_sent s0) st \<Longrightarrow>
   p_stream s = dispatch_all dispatch (p_sent s) st"
  by (induction rule: pipeline_run.induct) (auto dest: pipeline_step_stream)

text \<open>The records the whole trace gives, chunk by chunk.\<close>

definition trace_records :: "string \<Rightarrow> sys_params_record list" where
  "trace_records trace =
     concat (map bulk_records (bulks_from \<lparr>tf_open = True, tf_rest = trace, tf_eof = False\<rparr> []))"

lemma all_records_start: "all_records (pipeline_start trace True st) = trace_records trace"
  by (simp add: msgs_defs pipeline_start_def trace_records_def new_aggregator_def empty_mq_def)

lemma start_run_inv:
  assumes "pipeline_run dispatch (pipeline_start trace True st) s" and "never_throws dispatch"
    and "length trace < 2 ^ 62" and "not_crashed s"
  shows "pipeline_inv s" and "all_records s = trace_records trace"
  using pipeline_run_inv [OF assms(1) pipeline_inv_start [OF assms(3)] assms(2,4)] all_records_start by auto


lemma crashed_stops: "pipeline_step dispatch s s' \<Longrightarrow> not_crashed s"
  by (auto simp: not_crashed_def elim!: pipeline_step.cases worker_step.cases)

lemma finished_not_crashed:
  assumes "pipeline_run dispatch (pipeline_start trace True st) s" and "never_throws dispatch"
    and "length trace < 2 ^ 62" and "p_finished s"
  shows "not_crashed s"
  using assms
proof (cases rule: pipeline_run.cases)
  case run_refl
  then show ?thesis by (simp add: not_crashed_def pipeline_start_def)
next
  case (run_step s')
  have nc: "not_crashed s'" by (rule crashed_stops [OF run_step(2)])
  have inv: "pipeline_inv s'" by (rule start_run_inv(1) [OF run_step(1) assms(2,3) nc])
  show ?thesis
  proof (rule ccontr)
    assume "\<not> not_crashed s"
    with run_step(2) nc obtain b ms e where w: "p_worker s' = WBatch (Some b # ms)" and s: "s = s'\<lparr>p_worker := WCrashed e\<rparr>"
      by (auto simp: not_crashed_def elim!: pipeline_step.cases reader_step.cases worker_step.cases sender_step.cases)
    from s assms(4) inv have "p_worker s' = WDone" by (simp add: pipeline_inv_def finish_ok_def result_flow_def)
    with w show False by simp
  qed
qed

lemma delivered_at_end:
  assumes "pipeline_inv s" and "p_finished s"
  shows "all_records s = concat (p_sent s) \<and> p_reader s = RDone \<and> p_worker s = WDone"
proof -
  from assms have fin: "p_sender s = SDone" "p_worker s = WDone" "result_msgs s = []"
    by (auto simp: pipeline_inv_def finish_ok_def result_flow_def)
  with assms(1) have rest: "p_reader s = RDone" "somes (stream_msgs s) = []" "agg_data (p_data s) = []" "tf_eof (p_file s)"
    by (auto simp: pipeline_inv_def stream_flow_def data_flow_def reader_ok_def)
  with fin show ?thesis by (simp add: all_records_def pending_bulks_def bulks_from_eof)
qed


section \<open>Termination\<close>

text \<open>Weights under which every step of every thread goes down while the trace can be read.\<close>

fun reader_weight :: "reader_pc \<Rightarrow> nat" where
  "reader_weight RInit = 12" | "reader_weight (RFill bs) = 11 + 8 * length bs"
| "reader_weight RSentinel = 10" | "reader_weight RDone = 0"

fun worker_weight :: "worker_pc \<Rightarrow> nat" where
  "worker_weight WInit = 22" | "worker_weight WWait = 20" | "worker_weight (WBatch ms) = 21 + 5 * length ms"
| "worker_weight WFlush = 18" | "worker_weight WEcho = 13" | "worker_weight WEnd = 5"
| "worker_weight WDone = 0" | "worker_weight (WCrashed e) = 0"

fun sender_weight :: "sender_pc \<Rightarrow> nat" where
  "sender_weight SInit = 1" | "sender_weight SWait = 0" | "sender_weight (SBatch ms) = 1 + 2 * length ms"
| "sender_weight SDone = 0"

definition pipeline_weight :: "'st pipeline \<Rightarrow> nat" where
  "pipeline_weight s =
     9 * file_left (p_file s) + reader_weight (p_reader s) + 7 * length (mq_queue (p_stream_queue s)) +
     worker_weight (p_worker s) + 4 * length (mq_queue (p_result_queue s)) + sender_weight (p_sender s)"

lemma mq_wait_shorter:
  assumes "mq_wait_dequeue_bulk BULK_CAPACITY q = Some (ms, q')"
  shows "length (mq_queue q) = length ms + length (mq_queue q')" and "1 \<le> length ms"
  using mq.deq_split [OF assms] mq.deq_nonempty [OF assms] by (auto simp: BULK_CAPACITY_def Suc_le_eq)

lemma reader_step_weight:
  assumes "reader_step s s'" and "tf_open (p_file s)"
  shows "pipeline_weight s' < pipeline_weight s \<and> tf_open (p_file s')"
  using assms(1)
proof cases
  case (r_fill bulks b f' last')
  with read_bulk_left [OF r_fill(5) assms(2)] show ?thesis by (simp add: pipeline_weight_def)
next
  case (r_publish bulks q')
  have "mq_queue q' = mq_queue (p_stream_queue s) @ map Some bulks"
    using mq.enq_bulk_result [OF r_publish(4)] by simp
  moreover have "tf_eof (p_file s) \<or> 0 < length bulks"
    using r_publish(3) by (auto simp: BULK_CAPACITY_def)
  ultimately show ?thesis using r_publish(1,2) assms(2) by (auto simp: pipeline_weight_def)
qed (use assms(2) in \<open>simp_all add: pipeline_weight_def\<close>)

lemma flush_ready_length: "flush_ready d rq = (d', rq') \<Longrightarrow> length (mq_queue rq') \<le> Suc (length (mq_queue rq))"
  by (auto simp: flush_ready_def split: if_splits prod.splits)

lemma worker_step_weight:
  assumes "worker_step s s'" and "tf_open (p_file s)"
  shows "pipeline_weight s' < pipeline_weight s \<and> tf_open (p_file s')"
  using assms(1)
proof cases
  case (w_wait ms q')
  note mq_wait_shorter [OF w_wait(3)]
  with w_wait(1,2) assms(2) show ?thesis unfolding pipeline_weight_def by simp
next
  case (w_bulk b ms d d' rq')
  with flush_ready_length [OF w_bulk(4)] assms(2) show ?thesis by (simp add: pipeline_weight_def)
qed (use assms(2) in \<open>simp_all add: pipeline_weight_def\<close>)

lemma sender_step_weight:
  assumes "sender_step dispatch s s'" and "tf_open (p_file s)"
  shows "pipeline_weight s' < pipeline_weight s \<and> tf_open (p_file s')"
  using assms(1)
proof cases
  case (s_wait ms q')
  note mq_wait_shorter [OF s_wait(3)]
  with s_wait(1,2) assms(2) show ?thesis unfolding pipeline_weight_def by simp
qed (use assms(2) in \<open>simp_all add: pipeline_weight_def\<close>)

lemma pipeline_step_weight:
  "pipeline_step dispatch s s' \<Longrightarrow> tf_open (p_file s) \<Longrightarrow>
   pipeline_weight s' < pipeline_weight s \<and> tf_open (p_file s')"
  by (elim pipeline_step.cases) (auto dest: reader_step_weight worker_step_weight sender_step_weight)

section \<open>Progress\<close>

lemma reader_enabled:
  assumes "pipeline_inv s" and "p_reader s \<noteq> RDone"
  shows "\<exists>s'. reader_step s s'"
proof (cases "p_reader s")
  case RInit
  then show ?thesis by (blast intro: r_start)
next
  case (RFill bs)
  show ?thesis
  proof (cases "length bs < BULK_CAPACITY \<and> \<not> tf_eof (p_file s)")
    case True
    obtain b f' l' where "read_bulk (p_file s) (p_last s) = Inr (b, f', l')"
      using assms(1) read_bulk_ok [of "p_file s" "p_last s"] unfolding pipeline_inv_def reader_ok_def by blast
    with True RFill show ?thesis by (blast intro: r_fill)
  next
    case False
    obtain q' where "mq_enqueue_bulk (map Some bs) (length bs) (p_stream_queue s) = Inr q'"
      using mq.enq_bulk_contents [of "length bs" "map Some bs" "p_stream_queue s"] by auto
    with False RFill show ?thesis by (blast intro: r_publish)
  qed
next
  case RSentinel
  then show ?thesis by (blast intro: r_sentinel)
qed (use assms(2) in simp)

lemma reader_progress:
  assumes "pipeline_inv s" and "not_crashed s" and "p_reader s \<noteq> RDone"
  shows "\<exists>s'. pipeline_step dispatch s s'"
  using reader_enabled [OF assms(1,3)] assms(2) by (auto simp: not_crashed_def intro: pipeline_step.reader)


lemma mq_wait_returns: "mq_queue q \<noteq> [] \<Longrightarrow> \<exists>ms q'. mq_wait_dequeue_bulk c q = Some (ms, q')"
  using mq.deq_returns by blast

lemma worker_enabled:
  assumes "pipeline_inv s" and "not_crashed s" and "p_reader s = RDone" and "p_worker s \<noteq> WDone"
  shows "\<exists>s'. worker_step s s'"
proof (cases "p_worker s")
  case WWait
  with assms(1,3) have "mq_queue (p_stream_queue s) \<noteq> []"
    by (auto simp: pipeline_inv_def stream_flow_def stream_msgs_def)
  with WWait show ?thesis using mq_wait_returns by (blast intro: w_wait)
next
  case (WBatch ms)
  show ?thesis
  proof (cases ms)
    case (Cons m ms')
    show ?thesis
    proof (cases m)
      case (Some b)
      show ?thesis
      proof (cases "collect_bulk b (p_data s)")
        case (Inr d)
        obtain d' rq' where "flush_ready d (p_result_queue s) = (d', rq')" by fastforce
        with WBatch Cons Some Inr show ?thesis by (blast intro: w_bulk)
      qed (use WBatch Cons Some in \<open>blast intro: w_crash\<close>)
    qed (use WBatch Cons in \<open>blast intro: w_null\<close>)
  qed (use WBatch in \<open>blast intro: w_loop\<close>)
next
  case WFlush
  then show ?thesis by (metis w_flush surj_pair)
qed (use assms(2,4) in \<open>auto simp: not_crashed_def intro: w_start w_echo w_end\<close>)

lemma worker_progress:
  assumes "pipeline_inv s" and "not_crashed s" and "p_reader s = RDone" and "p_worker s \<noteq> WDone"
  shows "\<exists>s'. pipeline_step dispatch s s'"
  using worker_enabled [OF assms] by (auto intro: pipeline_step.worker)

lemma sender_progress:
  assumes "pipeline_inv s" and "not_crashed s" and "p_worker s = WDone" and "p_sender s \<noteq> SDone"
  shows "\<exists>s'. pipeline_step dispatch s s'"
proof -
  have "\<exists>s'. sender_step dispatch s s'"
  proof (cases "p_sender s")
    case SWait
    with assms(1,3) have "mq_queue (p_result_queue s) \<noteq> []"
      by (auto simp: pipeline_inv_def result_flow_def result_msgs_def)
    with SWait show ?thesis using mq_wait_returns by (blast intro: s_wait)
  next
    case (SBatch ms)
    show ?thesis
    proof (cases ms)
      case (Cons m ms')
      show ?thesis
      proof (cases m)
        case (Some pack)
        obtain st' e where "dispatch pack (p_stream s) = (st', e)" by fastforce
        with SBatch Cons Some show ?thesis by (cases e) (blast intro: s_pack s_throw)+
      qed (use SBatch Cons in \<open>blast intro: s_null\<close>)
    qed (use SBatch in \<open>blast intro: s_loop\<close>)
  qed (use assms(4) in \<open>auto intro: s_start\<close>)
  with assms(2) show ?thesis by (auto simp: not_crashed_def intro: pipeline_step.sender)
qed

lemma pipeline_progress:
  assumes "pipeline_inv s" and "not_crashed s" and "\<not> p_finished s"
  shows "\<exists>s'. pipeline_step dispatch s s'"
proof (cases "p_reader s = RDone")
  case False
  with assms show ?thesis by (intro reader_progress)
next
  case True
  show ?thesis
  proof (cases "p_worker s = WDone")
    case False
    with assms True show ?thesis by (intro worker_progress)
  next
    case True
    moreover have "p_sender s \<noteq> SDone" using assms by (simp add: pipeline_inv_def finish_ok_def)
    ultimately show ?thesis using assms by (intro sender_progress)
  qed
qed


lemma no_descending: "\<exists>i. \<not> (f (Suc i) :: nat) < f i"
proof (rule ccontr)
  assume "\<nexists>i. \<not> f (Suc i) < f i"
  then have "\<forall>i. f (Suc i) < f i" by simp
  then have "f i + i \<le> f 0" for i
  proof (induction i)
    case (Suc i)
    then have "f (Suc i) < f i" "f i + i \<le> f 0" by blast+
    then show ?case by linarith
  qed simp
  from this [of "Suc (f 0)"] show False by simp
qed

lemma no_infinite_run:
  assumes "f 0 = pipeline_start trace True st" and "\<forall>i. pipeline_step dispatch (f i) (f (Suc i))"
  shows False
proof -
  have "tf_open (p_file (f i))" for i
  proof (induction i)
    case (Suc i)
    with assms(2) pipeline_step_weight [of dispatch "f i" "f (Suc i)"] show ?case by blast
  qed (simp add: assms(1) pipeline_start_def)
  then have "pipeline_weight (f (Suc i)) < pipeline_weight (f i)" for i
    using assms(2) pipeline_step_weight [of dispatch "f i" "f (Suc i)"] by blast
  then show False using no_descending [of "\<lambda>i. pipeline_weight (f i)"] by blast
qed



section \<open>Well-formed traces\<close>

lemma bulks_from_shape:
  "tf_open f \<Longrightarrow> reading_ok f l \<Longrightarrow> keeps_rests f l \<Longrightarrow> b \<in> set (bulks_from f l) \<Longrightarrow>
   \<exists>ls. b = mk_bulk (concat (map (\<lambda>x. x @ [CHR 0x0A]) ls)) (refs_at 0 ls) \<and>
     length (concat (map (\<lambda>x. x @ [CHR 0x0A]) ls)) < 2 ^ 63"
proof (induction f l rule: bulks_from.induct)
  case (1 f l)
  show ?case
  proof (cases "tf_eof f")
    case True
    with 1 show ?thesis by (simp add: bulks_from_eof)
  next
    case False
    show ?thesis
    proof (cases rule: file_read_cases [OF 1(2) False, case_names final full])
      case final
      let ?s = "l @ tf_rest f @ [CHR 0x0A]"
      have small: "length l + length (tf_rest f) < 2 ^ 62" using 1(3) by (simp add: reading_ok_def)
      have nl: "snd (break_lines (CHR 0x0A) ?s) = []"
        using break_lines_append [of "CHR 0x0A" "l @ tf_rest f" "[CHR 0x0A]"]
          break_lines_first [OF break_lines_rest [of "CHR 0x0A" "l @ tf_rest f"], of "[]"] by simp
      have "concat (map (\<lambda>x. x @ [CHR 0x0A]) (fst (break_lines (CHR 0x0A) ?s))) = ?s"
        using break_lines_join [of "CHR 0x0A" ?s "fst (break_lines (CHR 0x0A) ?s)" "[]"] nl
        by (metis append_Nil2 prod.collapse)
      moreover have "b = mk_bulk ?s (refs_at 0 (fst (break_lines (CHR 0x0A) ?s)))"
        using 1(2,5) False nl read_bulk_result [OF final(1) small] calculation
        by (subst (asm) bulks_from.simps) (auto simp: bulks_from_eof Let_def prod.case_eq_if split: sum.splits)
      moreover have "length ?s < 2 ^ 63" using small by simp
      ultimately show ?thesis by metis
    next
      case (full c r)
      let ?ls = "fst (break_lines (CHR 0x0A) (l @ c))" and ?r = "snd (break_lines (CHR 0x0A) (l @ c))"
      have small: "length l + length c < 2 ^ 62" using 1(3) full(1) by (simp add: reading_ok_def)
      have keep: "length ?r \<noteq> 1" "keeps_rests (f\<lparr>tf_rest := r\<rparr>) ?r"
        using 1(2,4) False full(1,2) by (simp_all add: keeps_rests.simps [of f l] Let_def)
      then have rb: "read_bulk f l = Inr (mk_bulk (concat (map (\<lambda>x. x @ [CHR 0x0A]) ?ls)) (refs_at 0 ?ls), f\<lparr>tf_rest := r\<rparr>, ?r)"
        using read_bulk_result [OF full(3) small] False by (simp add: Let_def prod.case_eq_if)
      have ok: "reading_ok (f\<lparr>tf_rest := r\<rparr>) ?r" using read_bulk_ok [OF 1(3)] rb by auto
      have "concat (map (\<lambda>x. x @ [CHR 0x0A]) ?ls) @ ?r = l @ c" by (rule break_lines_join) simp
      then have "length (concat (map (\<lambda>x. x @ [CHR 0x0A]) ?ls)) \<le> length (l @ c)"
        by (metis le_add1 length_append)
      then have len: "length (concat (map (\<lambda>x. x @ [CHR 0x0A]) ?ls)) < 2 ^ 63" using small by simp
      from 1(5) consider "b = mk_bulk (concat (map (\<lambda>x. x @ [CHR 0x0A]) ?ls)) (refs_at 0 ?ls)"
        | "b \<in> set (bulks_from (f\<lparr>tf_rest := r\<rparr>) ?r)"
        by (auto simp: bulks_from_step [OF False 1(2) rb])
      then show ?thesis
      proof cases
        case 2
        then show ?thesis using 1(1) [OF _ rb] False 1(2) ok keep by simp
      qed (use len in blast)
    qed
  qed
qed

lemma concat_map_split: "concat yss = map f xs \<Longrightarrow> \<exists>xss. concat xss = xs \<and> map (map f) xss = yss"
proof (induction yss arbitrary: xs)
  case (Cons ys yss)
  let ?n = "length ys"
  from Cons.prems have eq: "ys @ concat yss = map f (take ?n xs) @ map f (drop ?n xs)"
    by (simp flip: map_append)
  have "ys = map f (take ?n xs)"
    using arg_cong [OF Cons.prems, of "take ?n"] by (simp add: take_map)
  moreover from this eq have "concat yss = map f (drop ?n xs)" by simp
  from Cons.IH [OF this] obtain xss where "concat xss = drop ?n xs" "map (map f) xss = yss" by blast
  ultimately show ?case by (intro exI [of _ "take ?n xs # xss"]) simp
qed (intro exI [of _ "[]"], simp)


lemma collect_items_bulk:
  assumes "list_all item_ok ts" and "length (trace_text ts) < 2 ^ 63"
  shows "collect_bulk (mk_bulk (trace_text ts) (refs_at 0 (map item_line ts))) d =
    Inr (d\<lparr>agg_data := agg_data d @ concat (map item_records ts)\<rparr>)"
  using collect_params_items [OF assms(1), of "trace_text ts" "[]" "[]" d] assms(2)
  by (simp add: collect_bulk_def mk_bulk_def)

lemma bulks_items:
  assumes "list_all item_ok ts" and "length (trace_text ts) < 2 ^ 62"
    and "keeps_rests \<lparr>tf_open = True, tf_rest = trace_text ts, tf_eof = False\<rparr> []"
  shows "\<exists>tss. concat tss = ts @ [Short []] \<and> list_all (list_all item_ok) tss \<and>
    list_all (\<lambda>us. length (trace_text us) < 2 ^ 63) tss \<and>
    bulks_from \<lparr>tf_open = True, tf_rest = trace_text ts, tf_eof = False\<rparr> [] =
      map (\<lambda>us. mk_bulk (trace_text us) (refs_at 0 (map item_line us))) tss"
proof -
  let ?f = "\<lparr>tf_open = True, tf_rest = trace_text ts, tf_eof = False\<rparr>"
  let ?bs = "bulks_from ?f []"
  have ok: "reading_ok ?f []" using assms(2) by (simp add: reading_ok_def)
  have "concat (map bulk_texts ?bs) = fst (break_lines (CHR 0x0A) (trace_text ts @ [CHR 0x0A]))"
    using bulks_from_lines [of ?f "[]"] ok assms(3) by simp
  also have "trace_text ts @ [CHR 0x0A] = trace_text (ts @ [Short []]) @ []"
    by (simp add: trace_text_def)
  also have "fst (break_lines (CHR 0x0A) (trace_text (ts @ [Short []]) @ [])) = map item_line (ts @ [Short []])"
    using assms(1) by (subst trace_text_lines) simp_all
  finally obtain tss where tss: "concat tss = ts @ [Short []]" "map (map item_line) tss = map bulk_texts ?bs"
    using concat_map_split by metis
  have good: "list_all (list_all item_ok) tss"
  proof -
    have "\<forall>x \<in> set (concat tss). item_ok x" using assms(1) unfolding tss(1) by (auto simp: list_all_iff)
    then show ?thesis by (auto simp: list_all_iff)
  qed
  have shape: "b = mk_bulk (trace_text us) (refs_at 0 (map item_line us)) \<and> length (trace_text us) < 2 ^ 63"
    if b: "b \<in> set ?bs" and m: "map item_line us = bulk_texts b" for b us
  proof -
    obtain ls where ls: "b = mk_bulk (concat (map (\<lambda>x. x @ [CHR 0x0A]) ls)) (refs_at 0 ls)"
      "length (concat (map (\<lambda>x. x @ [CHR 0x0A]) ls)) < 2 ^ 63"
      using bulks_from_shape [of ?f "[]" b] ok assms(3) b by auto
    then have "ls = map item_line us" using m bulk_texts_refs by metis
    with ls show ?thesis by (simp add: trace_text_def comp_def)
  qed
  have len: "length tss = length ?bs" using tss(2) map_eq_imp_length_eq by blast
  have at: "map item_line (tss ! i) = bulk_texts (?bs ! i)" if "i < length tss" for i
    using arg_cong [OF tss(2), of "\<lambda>xs. xs ! i"] that len by simp
  have each: "?bs ! i = mk_bulk (trace_text (tss ! i)) (refs_at 0 (map item_line (tss ! i))) \<and> length (trace_text (tss ! i)) < 2 ^ 63"
    if "i < length tss" for i
    using shape [OF _ at [OF that]] that len by simp
  then have "?bs = map (\<lambda>us. mk_bulk (trace_text us) (refs_at 0 (map item_line us))) tss"
    using len by (intro nth_equalityI) auto
  moreover have "list_all (\<lambda>us. length (trace_text us) < 2 ^ 63) tss"
    using each by (auto simp: list_all_length)
  ultimately show ?thesis using tss(1) good by blast
qed

lemma item_bulk_records:
  assumes "list_all item_ok us" and "length (trace_text us) < 2 ^ 63"
  shows "bulk_records (mk_bulk (trace_text us) (refs_at 0 (map item_line us))) = concat (map item_records us)"
  by (simp add: bulk_records_def collect_items_bulk [OF assms])

lemma trace_records_items:
  assumes "list_all item_ok ts" and "length (trace_text ts) < 2 ^ 62"
    and "keeps_rests \<lparr>tf_open = True, tf_rest = trace_text ts, tf_eof = False\<rparr> []"
  shows "trace_records (trace_text ts) = concat (map item_records ts)"
proof -
  obtain tss where tss: "concat tss = ts @ [Short []]" "list_all (list_all item_ok) tss"
    "list_all (\<lambda>us. length (trace_text us) < 2 ^ 63) tss"
    "bulks_from \<lparr>tf_open = True, tf_rest = trace_text ts, tf_eof = False\<rparr> [] =
      map (\<lambda>us. mk_bulk (trace_text us) (refs_at 0 (map item_line us))) tss"
    using bulks_items [OF assms] by blast
  have "map bulk_records (bulks_from \<lparr>tf_open = True, tf_rest = trace_text ts, tf_eof = False\<rparr> []) =
      map (\<lambda>us. concat (map item_records us)) tss"
    using tss(2,3) by (simp add: tss(4) item_bulk_records list_all_iff)
  then have "trace_records (trace_text ts) = concat (map (\<lambda>us. concat (map item_records us)) tss)"
    by (simp add: trace_records_def)
  also have "\<dots> = concat (map item_records (concat tss))" by (induction tss) simp_all
  finally show ?thesis by (simp add: tss(1))
qed

definition bulk_good :: "events_bulk \<Rightarrow> bool" where
  "bulk_good b \<longleftrightarrow> (\<forall>d. \<exists>d'. collect_bulk b d = Inr d')"

lemma pending_start:
  assumes "list_all item_ok ts" and "length (trace_text ts) < 2 ^ 62"
    and "keeps_rests \<lparr>tf_open = True, tf_rest = trace_text ts, tf_eof = False\<rparr> []"
  shows "\<forall>b \<in> set (pending_bulks (pipeline_start (trace_text ts) True st)). bulk_good b"
  using bulks_items [OF assms]
  by (auto simp: pending_bulks_def stream_msgs_def pipeline_start_def empty_mq_def bulk_good_def
      collect_items_bulk list_all_iff)


lemma somes_tail: "set (somes xs) \<subseteq> set (somes (x # xs))"
  by (cases x) auto

lemma pending_shrinks:
  assumes "pipeline_step dispatch s s'" and "pipeline_inv s"
  shows "set (pending_bulks s') \<subseteq> set (pending_bulks s)"
  using assms(1)
proof cases
  case reader
  from reader(1) show ?thesis
  proof cases
    case (r_fill bulks b f' last')
    then have "bulks_from (p_file s) (p_last s) = b # bulks_from f' last'"
      using assms(2) by (intro bulks_from_step) (auto simp: pipeline_inv_def reader_ok_def)
    with r_fill show ?thesis by (auto simp: pending_bulks_def stream_msgs_def)
  next
    case (r_publish bulks q')
    then show ?thesis using mq.enq_bulk_result [OF r_publish(4)]
      by (auto simp: pending_bulks_def stream_msgs_def)
  qed (auto simp: pending_bulks_def stream_msgs_def)
next
  case worker
  then show ?thesis
  proof cases
    case (w_wait ms q')
    then show ?thesis using mq.deq_split [OF w_wait(3)]
      by (auto simp: pending_bulks_def stream_msgs_def)
  qed (auto simp: pending_bulks_def stream_msgs_def)
next
  case sender
  from sender(1) show ?thesis by cases (auto simp: pending_bulks_def stream_msgs_def)
qed

lemma good_run:
  assumes "pipeline_run dispatch s0 s" and "pipeline_inv s0" and "never_throws dispatch" and "not_crashed s0"
    and "\<forall>b \<in> set (pending_bulks s0). bulk_good b"
  shows "not_crashed s \<and> (\<forall>b \<in> set (pending_bulks s). bulk_good b)"
  using assms
proof (induction rule: pipeline_run.induct)
  case (run_step s s' s'')
  then have IH: "not_crashed s'" "\<forall>b \<in> set (pending_bulks s'). bulk_good b" by auto
  have inv: "pipeline_inv s'" using pipeline_run_inv [OF run_step.hyps(1) run_step.prems(1,2) IH(1)] by simp
  have "not_crashed s''"
  proof (rule ccontr)
    assume "\<not> not_crashed s''"
    with run_step.hyps(2) IH(1) obtain b ms e where w: "p_worker s' = WBatch (Some b # ms)" "collect_bulk b (p_data s') = Inl e"
      by (auto simp: not_crashed_def elim!: pipeline_step.cases reader_step.cases worker_step.cases sender_step.cases)
    have "b \<in> set (pending_bulks s')" using w(1) by (simp add: pending_bulks_def stream_msgs_def)
    then obtain d' where "collect_bulk b (p_data s') = Inr d'" using IH(2) by (auto simp: bulk_good_def)
    with w(2) show False by simp
  qed
  with IH(2) pending_shrinks [OF run_step.hyps(2) inv] show ?case by auto
qed simp

lemma run_delivers:
  assumes "never_throws dispatch" and "list_all item_ok ts" and "length (trace_text ts) < 2 ^ 62"
    and "keeps_rests \<lparr>tf_open = True, tf_rest = trace_text ts, tf_eof = False\<rparr> []"
    and run: "pipeline_run dispatch (pipeline_start (trace_text ts) True st) s"
    and stuck: "\<nexists>s'. pipeline_step dispatch s s'"
  shows "p_finished s \<and> concat (p_sent s) = concat (map item_records ts) \<and>
    p_stream s = dispatch_all dispatch (p_sent s) st"
proof -
  have "not_crashed (pipeline_start (trace_text ts) True st)" by (simp add: not_crashed_def pipeline_start_def)
  then have nc: "not_crashed s"
    using good_run [OF run pipeline_inv_start [OF assms(3)] assms(1)] pending_start [OF assms(2-4), where st = st] by blast
  with start_run_inv(1) [OF run assms(1,3) nc] stuck have fin: "p_finished s"
    using pipeline_progress by blast
  note inv = start_run_inv [OF run assms(1,3) nc]
  have "concat (p_sent s) = trace_records (trace_text ts)"
    using delivered_at_end [OF inv(1) fin] inv(2) by simp
  moreover have "p_stream s = dispatch_all dispatch (p_sent s) st"
    by (rule pipeline_run_stream [OF run]) (simp add: pipeline_start_def dispatch_all_def)
  ultimately show ?thesis using fin trace_records_items [OF assms(2-4)] by simp
qed


section \<open>Complete runs\<close>

text \<open>Every state of an open trace can be run to its end; a stream that logs what it is given serves as the example.\<close>

lemma run_to_end:
  "tf_open (p_file s) \<Longrightarrow> \<exists>s'. pipeline_run dispatch s s' \<and> (\<nexists>s''. pipeline_step dispatch s' s'')"
proof (induction "pipeline_weight s" arbitrary: s rule: less_induct)
  case less
  show ?case
  proof (cases "\<exists>s1. pipeline_step dispatch s s1")
    case True
    then obtain s1 where s1: "pipeline_step dispatch s s1" ..
    with less obtain s' where s': "pipeline_run dispatch s1 s'" "\<nexists>s''. pipeline_step dispatch s' s''"
      using pipeline_step_weight [OF s1] by blast
    from s'(1) s1 have "pipeline_run dispatch s s'"
      by (induction rule: pipeline_run.induct) (blast intro: run_refl run_step)+
    with s'(2) show ?thesis by blast
  qed (blast intro: run_refl)
qed

definition log_dispatch :: "sys_params_record list \<Rightarrow> sys_params_record list \<Rightarrow> sys_params_record list \<times> string option" where
  "log_dispatch pack log = (log @ pack, None)"

lemma log_never_throws: "never_throws log_dispatch"
  by (simp add: never_throws_def log_dispatch_def)

definition sample_trace :: "trace_item list" where
  "sample_trace = [Short ''CPU:1 [LOST 4 EVENTS]'', sample_event]"

lemma sample_trace_ok:
  "list_all item_ok sample_trace" "length (trace_text sample_trace) < 2 ^ 62"
  "keeps_rests \<lparr>tf_open = True, tf_rest = trace_text sample_trace, tf_eof = False\<rparr> []"
  by (simp_all add: sample_trace_def sample_event_def trace_entry_ok_def trace_line_def dec_nat.simps
      keeps_rests.simps READ_BUFFER_SIZE_def)

lemma sample_end:
  obtains s where "pipeline_run log_dispatch (pipeline_start (trace_text sample_trace) True []) s"
    and "\<nexists>s'. pipeline_step log_dispatch s s'"
  using run_to_end [of "pipeline_start (trace_text sample_trace) True []" log_dispatch]
  by (auto simp: pipeline_start_def)


lemma sample_finished:
  obtains s where "pipeline_run log_dispatch (pipeline_start (trace_text sample_trace) True []) s" and "p_finished s"
proof -
  obtain s where s: "pipeline_run log_dispatch (pipeline_start (trace_text sample_trace) True []) s"
    "\<nexists>s'. pipeline_step log_dispatch s s'" by (rule sample_end)
  have "not_crashed (pipeline_start (trace_text sample_trace) True [])" by (simp add: not_crashed_def pipeline_start_def)
  then have "not_crashed s"
    using good_run [OF s(1) pipeline_inv_start [OF sample_trace_ok(2)] log_never_throws]
      pending_start [OF sample_trace_ok, where st = "[]"] by blast
  with start_run_inv(1) [OF s(1) log_never_throws sample_trace_ok(2)] s(2) have "p_finished s"
    using pipeline_progress by blast
  with s(1) that show ?thesis by blast
qed



end
