(* ===== verification/Stalls.thy ===== *)
theory Stalls
  imports Delivery
begin

text \<open>
  Where the three threads of \<open>multithreaded_sensor\<close> lose data or never end: an exception of the
  stream, a \<open>trace_pipe\<close> that cannot be opened, a chunk that ends one character into a line; and a
  counter that is never advanced.
\<close>

section \<open>A stream that throws\<close>

text \<open>Packs in the result queue are not empty.\<close>

definition packs_ok :: "'st pipeline \<Rightarrow> bool" where
  "packs_ok s \<longleftrightarrow> 0 < agg_limit (p_data s) \<and> (\<forall>p \<in> set (somes (result_msgs s)). p \<noteq> [])"

lemma reader_step_frame:
  "reader_step s s' \<Longrightarrow> p_sender s' = p_sender s \<and> p_stream s' = p_stream s \<and> p_sent s' = p_sent s \<and>
     p_data s' = p_data s \<and> p_result_queue s' = p_result_queue s"
  by (elim reader_step.cases) auto

lemma worker_step_frame:
  "worker_step s s' \<Longrightarrow> p_sender s' = p_sender s \<and> p_stream s' = p_stream s \<and> p_sent s' = p_sent s"
  by (elim worker_step.cases) auto

lemma worker_step_packs:
  assumes "worker_step s s'" and "packs_ok s"
  shows "packs_ok s'"
  using assms(1)
proof cases
  case (w_bulk b ms d d' rq')
  have lim: "agg_limit d = agg_limit (p_data s)" using collect_bulk_records [OF w_bulk(3)] by simp
  show ?thesis
  proof (cases "agg_ready d")
    case True
    then have "agg_data d \<noteq> []" using assms(2) lim by (auto simp: agg_ready_def packs_ok_def)
    with True w_bulk assms(2) lim show ?thesis
      by (auto simp: packs_ok_def result_msgs_def flush_ready_def make_new_pack_def)
  next
    case False
    with w_bulk assms(2) lim show ?thesis by (auto simp: packs_ok_def result_msgs_def flush_ready_def)
  qed
qed (use assms(2) in \<open>auto simp: packs_ok_def result_msgs_def make_new_pack_def\<close>)

lemma front_progress:
  assumes "pipeline_inv s" and "not_crashed s" and "p_worker s \<noteq> WDone"
  shows "\<exists>s'. reader_step s s' \<or> worker_step s s'"
  using reader_enabled [OF assms(1)] worker_enabled [OF assms(1,2) _ assms(3)] by blast


lemma run_trans: "pipeline_run dispatch s' s'' \<Longrightarrow> pipeline_run dispatch s s' \<Longrightarrow> pipeline_run dispatch s s''"
  by (induction rule: pipeline_run.induct) (blast intro: run_step)+

lemma run_one: "pipeline_step dispatch s s' \<Longrightarrow> pipeline_run dispatch s s'"
  by (blast intro: run_refl run_step)

text \<open>What reader and worker keep while the sender has not started.\<close>

definition front_ok :: "'st pipeline \<Rightarrow> bool" where
  "front_ok s \<longleftrightarrow> pipeline_inv s \<and> not_crashed s \<and> (\<forall>b \<in> set (pending_bulks s). bulk_good b) \<and>
     packs_ok s \<and> p_sender s = SInit"

lemma front_step:
  assumes "front_ok s" and "reader_step s s' \<or> worker_step s s'"
  shows "front_ok s' \<and> all_records s' = all_records s \<and> p_sent s' = p_sent s \<and> p_stream s' = p_stream s"
proof -
  have inv: "pipeline_inv s" and good: "\<forall>b \<in> set (pending_bulks s). bulk_good b" and nc: "not_crashed s"
    using assms(1) by (simp_all add: front_ok_def)
  have "pipeline_step (\<lambda>p st. (st, None)) s s'"
    using assms(2) nc by (auto simp: not_crashed_def intro: pipeline_step.reader pipeline_step.worker)
  from pending_shrinks [OF this inv] have pending: "\<forall>b \<in> set (pending_bulks s'). bulk_good b" using good by blast
  from assms(2) show ?thesis
  proof
    assume r: "reader_step s s'"
    then have "p_worker s' = p_worker s" by (elim reader_step.cases) auto
    with r reader_step_inv [OF r inv] reader_step_frame [OF r] assms(1) pending show ?thesis
      by (simp add: front_ok_def not_crashed_def packs_ok_def result_msgs_def)
  next
    assume w: "worker_step s s'"
    have "not_crashed s'"
    proof (rule ccontr)
      assume "\<not> not_crashed s'"
      with w nc obtain b ms e where w: "p_worker s = WBatch (Some b # ms)" "collect_bulk b (p_data s) = Inl e"
        by (auto simp: not_crashed_def elim!: worker_step.cases)
      then have "b \<in> set (pending_bulks s)" by (simp add: pending_bulks_def stream_msgs_def)
      with good w(2) show False by (auto simp: bulk_good_def) (metis Inl_Inr_False)
    qed
    with worker_step_inv [OF w inv] worker_step_packs [OF w] worker_step_frame [OF w] assms(1) pending show ?thesis
      by (simp add: front_ok_def)
  qed
qed

lemma front_run:
  "front_ok s \<Longrightarrow> \<exists>s'. pipeline_run dispatch s s' \<and> front_ok s' \<and> p_worker s' = WDone \<and>
     all_records s' = all_records s \<and> p_sent s' = p_sent s \<and> p_stream s' = p_stream s"
proof (induction "pipeline_weight s" arbitrary: s rule: less_induct)
  case less
  show ?case
  proof (cases "p_worker s = WDone")
    case True
    with less.prems show ?thesis by (blast intro: run_refl)
  next
    case False
    have inv: "pipeline_inv s" "not_crashed s" using less.prems by (simp_all add: front_ok_def)
    then have op: "tf_open (p_file s)" by (simp add: pipeline_inv_def reader_ok_def)
    obtain s1 where s1: "reader_step s s1 \<or> worker_step s s1" using front_progress [OF inv False] by blast
    have step: "pipeline_step dispatch s s1"
      using s1 inv(2) by (auto simp: not_crashed_def intro: pipeline_step.reader pipeline_step.worker)
    have "pipeline_weight s1 < pipeline_weight s"
      using s1 op reader_step_weight worker_step_weight by blast
    from less.hyps [OF this] front_step [OF less.prems s1] obtain s' where
      "pipeline_run dispatch s1 s'" "front_ok s'" "p_worker s' = WDone" "all_records s' = all_records s"
      "p_sent s' = p_sent s" "p_stream s' = p_stream s" by auto
    with run_trans [OF _ run_one [OF step]] show ?thesis by blast
  qed
qed

lemma packs_at_end:
  assumes "front_ok s" and "p_worker s = WDone" and "p_sent s = []"
  shows "\<exists>ps. mq_queue (p_result_queue s) = map Some ps @ [None] \<and> concat ps = all_records s \<and>
    length ps \<le> length (all_records s) \<and> p_reader s = RDone"
proof -
  have inv: "pipeline_inv s" "packs_ok s" "p_sender s = SInit" using assms(1) by (simp_all add: front_ok_def)
  with assms(2) obtain ps where ps: "mq_queue (p_result_queue s) = map Some ps @ [None]"
    by (auto simp: pipeline_inv_def result_flow_def result_msgs_def)
  with inv have ne: "\<forall>p \<in> set ps. p \<noteq> []" by (simp add: packs_ok_def result_msgs_def)
  have rd: "p_reader s = RDone" "somes (stream_msgs s) = []" "agg_data (p_data s) = []"
    using inv(1) assms(2) by (auto simp: pipeline_inv_def stream_flow_def data_flow_def)
  moreover from this have "tf_eof (p_file s)" using inv(1) by (auto simp: pipeline_inv_def reader_ok_def)
  ultimately have "all_records s = concat ps"
    using ps inv(3) assms(3) by (simp add: all_records_def pending_bulks_def bulks_from_eof result_msgs_def)
  moreover have "length ps \<le> length (concat ps)" using ne
  proof (induction ps)
    case (Cons p ps)
    then show ?case by (cases p) auto
  qed simp
  ultimately show ?thesis using ps rd by metis
qed

lemma sender_hangs:
  assumes w: "p_worker s = WDone" and r: "p_reader s = RDone" and snd: "p_sender s = SInit" and nf: "\<not> p_finished s"
    and q: "mq_queue (p_result_queue s) = map Some (p # ps) @ [None]" and n: "length ps + 2 \<le> BULK_CAPACITY"
    and throws: "dispatch p (p_stream s) = (st', Some e)"
  shows "\<exists>s'. pipeline_run dispatch s s' \<and> (\<nexists>s''. pipeline_step dispatch s' s'') \<and> \<not> p_finished s' \<and>
    p_sent s' = p_sent s @ [p]"
proof -
  let ?s1 = "s\<lparr>p_sender := SWait, p_sender_watch := watch_start 0 (p_sender_watch s)\<rparr>"
  have nc: "\<forall>e. p_worker s \<noteq> WCrashed e" using w by simp
  have 1: "pipeline_step dispatch s ?s1" using snd nc by (intro pipeline_step.sender s_start)
  obtain q' where q': "mq_wait_dequeue_bulk BULK_CAPACITY (p_result_queue s) = Some (map Some (p # ps) @ [None], q')" "mq_queue q' = []"
    using mq.deq_returns [of "p_result_queue s" BULK_CAPACITY] q n by auto
  let ?s2 = "?s1\<lparr>p_sender := SBatch (Some p # map Some ps @ [None]), p_result_queue := q'\<rparr>"
  have 2: "pipeline_step dispatch ?s1 ?s2" using q'(1) nc by (intro pipeline_step.sender s_wait) simp_all
  let ?s3 = "?s2\<lparr>p_sender := SWait, p_stream := st', p_sent := p_sent ?s2 @ [p], p_out := p_out ?s2 @ [e @ [CHR 0x0A]]\<rparr>"
  have 3: "pipeline_step dispatch ?s2 ?s3" using throws nc by (intro pipeline_step.sender s_throw) simp_all
  have "pipeline_run dispatch s ?s3" using run_one [OF 1] 2 3 by (blast intro: run_step)
  moreover have "mq_wait_dequeue_bulk c q' = None" for c using mq.deq_blocks [of c q'] q'(2) by simp
  then have "\<nexists>s''. pipeline_step dispatch ?s3 s''"
    using w r by (auto elim!: pipeline_step.cases reader_step.cases worker_step.cases sender_step.cases)
  moreover have "\<not> p_finished ?s3 \<and> p_sent ?s3 = p_sent s @ [p]" using nf by simp
  ultimately show ?thesis by blast
qed

text \<open>
  C23: a stream whose \<open>dispatch\<close> throws can stop the sensor for good: on every well-formed trace of up
  to 500 events there is a schedule in which only one pack is handed over, the exception drops the
  rest of the batch with the mark of the end in it, and the sender waits for ever with
  \<open>finished\<close> not set.
\<close>

theorem dispatch_exception_hangs:
  assumes "\<And>p st. snd (dispatch p st) \<noteq> None"
    and "list_all item_ok ts" and "length (trace_text ts) < 2 ^ 62"
    and "keeps_rests \<lparr>tf_open = True, tf_rest = trace_text ts, tf_eof = False\<rparr> []"
    and "concat (map item_records ts) \<noteq> []" and "length (concat (map item_records ts)) \<le> 500"
  shows "\<exists>s. pipeline_run dispatch (pipeline_start (trace_text ts) True st) s \<and>
    (\<nexists>s'. pipeline_step dispatch s s') \<and> \<not> p_finished s \<and> length (p_sent s) = 1"
proof -
  let ?s0 = "pipeline_start (trace_text ts) True st"
  have "front_ok ?s0"
    using pipeline_inv_start [OF assms(3), of st] pending_start [OF assms(2-4), where st = st]
    by (simp add: front_ok_def) (simp add: pipeline_start_def not_crashed_def packs_ok_def result_msgs_def
        new_aggregator_def empty_mq_def)
  from front_run [OF this, of dispatch] obtain s where s: "pipeline_run dispatch ?s0 s" "front_ok s" "p_worker s = WDone"
    "all_records s = all_records ?s0" "p_sent s = p_sent ?s0" by blast
  then have recs: "all_records s = concat (map item_records ts)" and sent: "p_sent s = []"
    using all_records_start [of "trace_text ts" st] trace_records_items [OF assms(2-4)] by (simp_all add: pipeline_start_def)
  obtain ps where ps: "mq_queue (p_result_queue s) = map Some ps @ [None]" "concat ps = all_records s"
    "length ps \<le> length (all_records s)" "p_reader s = RDone"
    using packs_at_end [OF s(2,3) sent] by blast
  then obtain p ps' where p: "ps = p # ps'" using assms(5) recs by (cases ps) auto
  obtain st' e where "dispatch p (p_stream s) = (st', Some e)"
    using assms(1) [of p "p_stream s"] by (cases "dispatch p (p_stream s)") auto
  moreover have "\<not> p_finished s" "p_sender s = SInit"
    using s(2) by (auto simp: front_ok_def pipeline_inv_def finish_ok_def)
  moreover have "length ps' + 2 \<le> BULK_CAPACITY" using ps(3) recs assms(6) p by (simp add: BULK_CAPACITY_def)
  ultimately obtain s' where "pipeline_run dispatch s s'" "\<nexists>s''. pipeline_step dispatch s' s''" "\<not> p_finished s'" "p_sent s' = p_sent s @ [p]"
    using sender_hangs [OF s(3) ps(4)] ps(1) p by metis
  with run_trans [OF _ s(1)] sent show ?thesis by (metis append_Nil length_Cons list.size(3) One_nat_def)
qed

theorem dispatch_exception_hangs_witness:
  "\<exists>s. pipeline_run (\<lambda>p st. (st, Some ''disk full'')) (pipeline_start (trace_text sample_trace) True ()) s \<and>
    (\<nexists>s'. pipeline_step (\<lambda>p st. (st, Some ''disk full'')) s s') \<and> \<not> p_finished s \<and> length (p_sent s) = 1"
  by (rule dispatch_exception_hangs [OF _ sample_trace_ok])
     (simp_all add: sample_trace_def sample_event_def)


section \<open>A trace that cannot be opened\<close>

text \<open>A stream that is not open never sets \<open>eofbit\<close>, so the reader's loops have no end.\<close>

definition unopened_ok :: "'st pipeline \<Rightarrow> bool" where
  "unopened_ok s \<longleftrightarrow> \<not> tf_open (p_file s) \<and> \<not> tf_eof (p_file s) \<and> p_last s = [] \<and> reading (p_reader s) \<and>
     (active (p_worker s) \<or> (\<exists>e. p_worker s = WCrashed e)) \<and> (\<exists>bs. stream_msgs s = map Some bs) \<and>
     (\<exists>ps. in_sender (p_sender s) = map Some ps) \<and> (\<exists>ps. mq_queue (p_result_queue s) = map Some ps) \<and>
     p_sender s \<noteq> SDone \<and> \<not> p_finished s"

lemma unopened_reader_step:
  assumes "reader_step s s'" and "unopened_ok s"
  shows "unopened_ok s'"
  using assms(1)
proof cases
  case (r_fill bulks b f' last')
  have "f' = p_file s \<and> last' = []"
    using r_fill(5) assms(2)
    by (auto simp: unopened_ok_def read_bulk_def file_read_def split_string_def split_loop.simps str_find_def
        size_sub_def range_chars_def fault_simps)
  with r_fill assms(2) show ?thesis by (simp add: unopened_ok_def stream_msgs_def)
next
  case (r_publish bulks q')
  have "mq_queue q' = mq_queue (p_stream_queue s) @ map Some bulks"
    using mq.enq_bulk_result [OF r_publish(4)] by simp
  moreover obtain bs where "stream_msgs s = map Some bs" using assms(2) by (auto simp: unopened_ok_def)
  ultimately have "stream_msgs s' = map Some (bs @ bulks)" using r_publish(1) by (simp add: stream_msgs_def)
  then have "\<exists>bs. stream_msgs s' = map Some bs" by blast
  with r_publish assms(2) show ?thesis by (simp add: unopened_ok_def)
qed (use assms(2) in \<open>simp_all add: unopened_ok_def stream_msgs_def\<close>)

lemma map_Some_split: "map Some zs = xs @ ys \<Longrightarrow> (\<exists>as. xs = map Some as) \<and> (\<exists>bs. ys = map Some bs)"
  by (metis map_eq_append_conv)

lemma unopened_worker_step:
  assumes "worker_step s s'" and "unopened_ok s"
  shows "unopened_ok s'"
  using assms(1)
proof cases
  case (w_wait ms q')
  with assms(2) mq.deq_split [OF w_wait(3)] show ?thesis by (simp add: unopened_ok_def stream_msgs_def)
next
  case (w_bulk b ms d d' rq')
  obtain packs where "mq_queue rq' = mq_queue (p_result_queue s) @ map Some packs"
    using flush_ready_result [OF w_bulk(4)] by blast
  moreover obtain ps where "mq_queue (p_result_queue s) = map Some ps" using assms(2) by (auto simp: unopened_ok_def)
  ultimately have "\<exists>ps. mq_queue rq' = map Some ps" by (metis map_append)
  moreover have "\<exists>bs. ms @ mq_queue (p_stream_queue s) = map Some bs"
    using assms(2) w_bulk(2) by (auto simp: unopened_ok_def stream_msgs_def Cons_eq_map_conv)
  ultimately show ?thesis using w_bulk(1,2) assms(2) by (simp add: unopened_ok_def stream_msgs_def)
next
  case (w_crash b ms e)
  from assms(2) obtain zs where "map Some zs = in_worker (p_worker s) @ mq_queue (p_stream_queue s)"
    by (metis unopened_ok_def stream_msgs_def)
  then have "\<exists>bs. mq_queue (p_stream_queue s) = map Some bs" using map_Some_split by blast
  with w_crash assms(2) show ?thesis by (simp add: unopened_ok_def stream_msgs_def)
next
  case (w_null ms)
  with assms(2) show ?thesis by (auto simp: unopened_ok_def stream_msgs_def Cons_eq_map_conv)
qed (use assms(2) in \<open>simp_all add: unopened_ok_def stream_msgs_def\<close>)

lemma unopened_sender_step:
  assumes "sender_step dispatch s s'" and "unopened_ok s"
  shows "unopened_ok s'"
  using assms(1)
proof cases
  case (s_wait ms q')
  have "(\<exists>as. ms = map Some as) \<and> (\<exists>bs. mq_queue q' = map Some bs)"
  proof -
    from assms(2) obtain zs where "mq_queue (p_result_queue s) = map Some zs" by (auto simp: unopened_ok_def)
    with mq.deq_split [OF s_wait(3)] have "map Some zs = ms @ mq_queue q'" by simp
    then show ?thesis by (rule map_Some_split)
  qed
  with s_wait assms(2) show ?thesis by (auto simp: unopened_ok_def stream_msgs_def)
next
  case (s_null ms clock)
  with assms(2) show ?thesis by (auto simp: unopened_ok_def Cons_eq_map_conv)
next
  case (s_pack pack ms st')
  with assms(2) show ?thesis by (auto simp: unopened_ok_def stream_msgs_def Cons_eq_map_conv)
qed (use assms(2) in \<open>auto simp: unopened_ok_def stream_msgs_def intro: exI [of _ "[]"]\<close>)

lemma unopened_run: "pipeline_run dispatch s0 s \<Longrightarrow> unopened_ok s0 \<Longrightarrow> unopened_ok s"
  by (induction rule: pipeline_run.induct)
     (auto elim!: pipeline_step.cases dest: unopened_reader_step unopened_worker_step unopened_sender_step)

text \<open>
  C24: when \<open>trace_pipe\<close> cannot be opened the program neither ends nor reports it: \<open>finished\<close> is
  never set, and the reader always has another step to take.
\<close>

theorem unopened_trace_never_ends:
  assumes "pipeline_run dispatch (pipeline_start trace False st) s"
  shows "\<not> p_finished s \<and> (\<exists>s'. reader_step s s')"
proof -
  have "unopened_ok (pipeline_start trace False st)"
    by (simp add: unopened_ok_def pipeline_start_def stream_msgs_def empty_mq_def)
  from unopened_run [OF assms this] have ok: "unopened_ok s" .
  have "\<exists>s'. reader_step s s'"
  proof (cases "p_reader s")
    case RInit
    then show ?thesis by (blast intro: r_start)
  next
    case (RFill bs)
    show ?thesis
    proof (cases "length bs < BULK_CAPACITY \<and> \<not> tf_eof (p_file s)")
      case True
      have "\<exists>b f' l'. read_bulk (p_file s) (p_last s) = Inr (b, f', l')"
        using ok by (simp add: unopened_ok_def read_bulk_def file_read_def split_string_def split_loop.simps
            str_find_def size_sub_def range_chars_def)
      with True RFill show ?thesis by (blast intro: r_fill)
    next
      case False
      obtain q' where "mq_enqueue_bulk (map Some bs) (length bs) (p_stream_queue s) = Inr q'"
        using mq.enq_bulk_contents [of "length bs" "map Some bs" "p_stream_queue s"] by auto
      with False RFill show ?thesis by (blast intro: r_publish)
    qed
  qed (use ok in \<open>simp_all add: unopened_ok_def\<close>)
  with ok show ?thesis by (simp add: unopened_ok_def)
qed

theorem unopened_trace_never_ends_witness:
  "\<not> p_finished (pipeline_start ''abc'' False ()) \<and>
   (\<exists>s'. reader_step (pipeline_start ''abc'' False ()) s')"
  by (rule unopened_trace_never_ends [OF run_refl [of "\<lambda>p st. (st, None)"]])

section \<open>The rest of one character\<close>

text \<open>
  When a chunk ends one character into a line, that character is in neither this chunk's
  references nor the next chunk: the reader goes on with an empty \<open>last_line\<close>.
\<close>

theorem one_character_rest_is_lost:
  assumes "length a = 1022" and "c \<noteq> CHR 0x0A"
  shows "read_bulk \<lparr>tf_open = True, tf_rest = a @ [CHR 0x0A] @ c # b, tf_eof = False\<rparr> [] =
    Inr (mk_bulk (a @ [CHR 0x0A, c]) (refs_at 0 (fst (break_lines (CHR 0x0A) (a @ [CHR 0x0A])))),
         \<lparr>tf_open = True, tf_rest = b, tf_eof = False\<rparr>, [])"
proof -
  let ?f = "\<lparr>tf_open = True, tf_rest = a @ [CHR 0x0A] @ c # b, tf_eof = False\<rparr>"
  have rd: "file_read READ_BUFFER_SIZE ?f = (a @ [CHR 0x0A, c], \<lparr>tf_open = True, tf_rest = b, tf_eof = False\<rparr>)"
    using assms(1) by (simp add: file_read_def READ_BUFFER_SIZE_def)
  have small: "length ([] :: string) + length (a @ [CHR 0x0A, c]) < 2 ^ 62" using assms(1) by simp
  have one: "snd (break_lines (CHR 0x0A) (a @ [CHR 0x0A])) = []"
    using break_lines_append [of "CHR 0x0A" a "[CHR 0x0A]"]
      break_lines_first [OF break_lines_rest [of "CHR 0x0A" a], of "[]"] by simp
  have "break_lines (CHR 0x0A) ((a @ [CHR 0x0A]) @ [c]) = (fst (break_lines (CHR 0x0A) (a @ [CHR 0x0A])), [c])"
    unfolding break_lines_append [of _ "a @ [CHR 0x0A]"] one using assms(2) by simp
  with read_bulk_result [OF rd small] show ?thesis by simp
qed

theorem one_character_rest_is_lost_witness:
  "read_bulk \<lparr>tf_open = True, tf_rest = replicate 1022 (CHR ''x'') @ [CHR 0x0A] @ CHR ''a'' # ''bc'', tf_eof = False\<rparr> [] =
    Inr (mk_bulk (replicate 1022 (CHR ''x'') @ [CHR 0x0A, CHR ''a''])
           (refs_at 0 (fst (break_lines (CHR 0x0A) (replicate 1022 (CHR ''x'') @ [CHR 0x0A])))),
         \<lparr>tf_open = True, tf_rest = ''bc'', tf_eof = False\<rparr>, [])"
  by (rule one_character_rest_is_lost) simp_all

section \<open>The worker's counter\<close>

lemma idle_step:
  "pipeline_step dispatch s s' \<Longrightarrow> events (p_worker_watch s) = 0 \<and> total_events (p_worker_watch s) = 0 \<Longrightarrow>
   events (p_worker_watch s') = 0 \<and> total_events (p_worker_watch s') = 0"
  by (auto simp: watch_start_def watch_stop_def elim!: pipeline_step.cases reader_step.cases worker_step.cases sender_step.cases)

lemma idle_run:
  "pipeline_run dispatch s0 s \<Longrightarrow> events (p_worker_watch s0) = 0 \<and> total_events (p_worker_watch s0) = 0 \<Longrightarrow>
   events (p_worker_watch s) = 0 \<and> total_events (p_worker_watch s) = 0"
  by (induction rule: pipeline_run.induct) (auto dest: idle_step)

text \<open>
  The \<open>Process Events\<close> rate of the status and of the summary is 0 at any moment of any run:
  \<open>_process_traces\<close> starts and stops its watch and never adds to it.
\<close>

theorem process_rate_always_zero:
  assumes "pipeline_run dispatch (pipeline_start trace opened st) s"
  shows "fst (watch_now c c' (p_worker_watch s)) = 0 \<and> watch_total (p_worker_watch s) = 0"
  using idle_run [OF assms] by (simp add: pipeline_start_def new_watch_def idle_watch idle_watch_total)

theorem process_rate_always_zero_witness:
  "\<exists>s. pipeline_run log_dispatch (pipeline_start (trace_text sample_trace) True []) s \<and> p_finished s \<and>
     fst (watch_now 5 6 (p_worker_watch s)) = 0 \<and> watch_total (p_worker_watch s) = 0"
proof -
  obtain s where s: "pipeline_run log_dispatch (pipeline_start (trace_text sample_trace) True []) s" "p_finished s"
    by (rule sample_finished)
  with process_rate_always_zero [OF s(1), of 5 6] show ?thesis by blast
qed

end
