(* ===== verification/Sensor.thy ===== *)
theory Sensor
  imports Pipeline
begin

text \<open>
  \<open>BaseSensor\<close> (\<open>include/sensor/base_sensor.h\<close>), the switches and filters of the kernel's tracer, and
  \<open>multithreaded_sensor::run\<close> (\<open>include/sensor/multithreaded_sensor.h\<close>) around the three threads: the
  order of the control writes, and the loop that serves status texts to a client.
\<close>

section \<open>The control files\<close>

definition FTRACE_PATH :: string where "FTRACE_PATH = ''/sys/kernel/debug/tracing''"
definition SYSCALLS_PATH :: string where "SYSCALLS_PATH = ''/sys/kernel/debug/tracing/events/raw_syscalls''"
definition SYS_ENTRY :: string where "SYS_ENTRY = ''sys_enter''"
definition SYS_EXIT :: string where "SYS_EXIT = ''sys_exit''"

lemmas path_defs = FTRACE_PATH_def SYSCALLS_PATH_def SYS_ENTRY_def SYS_EXIT_def

definition config_events :: "bool \<Rightarrow> bool \<Rightarrow> machine \<Rightarrow> machine" where
  "config_events entry exit m =
     write_to (SYSCALLS_PATH @ ''/'' @ SYS_EXIT @ ''/'' @ ''enable'') (if exit then ''1'' else ''0'') True
       (write_to (SYSCALLS_PATH @ ''/'' @ SYS_ENTRY @ ''/'' @ ''enable'') (if entry then ''1'' else ''0'') True m)"

text \<open>
  The loop of \<open>add_filter\<close>: \<open>i\<close> is compared with the \<open>size_t\<close> values \<open>size\<close> and \<open>size - 1\<close>.
\<close>

function filter_loop :: "int list \<Rightarrow> nat \<Rightarrow> string \<Rightarrow> string" where
  "filter_loop pids i flt =
     (if i < length pids then
        filter_loop pids (i + 1)
          (flt @ ''common_pid != '' @ dec_int (pids ! i) @ (if i < size_sub (length pids) 1 then '' && '' else []))
      else flt)"
  by pat_completeness auto
termination
  by (relation "measure (\<lambda>(pids, i, flt). length pids - i)") auto

declare filter_loop.simps [simp del]

definition add_filter :: "int list \<Rightarrow> machine \<Rightarrow> machine" where
  "add_filter pids m =
     write_to (SYSCALLS_PATH @ ''/'' @ SYS_ENTRY @ ''/'' @ ''filter'') (filter_loop pids 0 []) True m"

definition set_trace :: "bool \<Rightarrow> machine \<Rightarrow> machine" where
  "set_trace trace m =
     (if trace then write_to (FTRACE_PATH @ ''/tracing_on'') ''1'' True m
      else write_to (FTRACE_PATH @ ''/tracing_on'') ''0'' True m)"

definition clear_filters :: "machine \<Rightarrow> machine" where
  "clear_filters m =
     write_to (SYSCALLS_PATH @ ''/'' @ SYS_EXIT @ ''/filter'') ''0'' True
       (write_to (SYSCALLS_PATH @ ''/'' @ SYS_ENTRY @ ''/'' @ ''filter'') ''0'' True
         (write_to (SYSCALLS_PATH @ ''/filter'') ''0'' True m))"

section \<open>The filter text\<close>

text \<open>The kernel's filter syntax: one condition per task, joined by \<open>&&\<close>.\<close>

definition filter_text :: "int list \<Rightarrow> string" where
  "filter_text pids = joined '' && '' (map (\<lambda>p. ''common_pid != '' @ dec_int p) pids)"

lemma filter_loop_text:
  "i \<le> length pids \<Longrightarrow> filter_loop pids i flt = flt @ filter_text (drop i pids)"
proof (induction "length pids - i" arbitrary: i flt)
  case 0
  then show ?case by (simp add: filter_loop.simps [of pids i] filter_text_def)
next
  case (Suc n)
  then have i: "i < length pids" by simp
  let ?c = "''common_pid != '' @ dec_int (pids ! i)"
  have d: "drop i pids = pids ! i # drop (Suc i) pids" using i by (simp add: Cons_nth_drop_Suc)
  have IH: "filter_loop pids (Suc i) f = f @ filter_text (drop (Suc i) pids)" for f
    using Suc by simp
  show ?case
  proof (cases "Suc i < length pids")
    case True
    then obtain q qs where q: "drop (Suc i) pids = q # qs" by (cases "drop (Suc i) pids") auto
    have "i < size_sub (length pids) 1" using True by simp
    with i show ?thesis using IH d q by (subst filter_loop.simps) (simp add: filter_text_def)
  next
    case False
    then have "drop (Suc i) pids = []" "\<not> i < size_sub (length pids) 1" using i by auto
    with i show ?thesis using IH d by (subst filter_loop.simps) (simp add: filter_text_def)
  qed
qed

section \<open>A run without a client\<close>

text \<open>
  \<open>run(false)\<close>: the threads start, the sensor's own tasks are filtered out, tracing is switched
  on until the threads are joined, then off, and the filters are cleared. The result is the machine
  while the threads run and the machine at the end. \<open>pid\<close> is the answer of \<open>getpid()\<close>.
\<close>

definition run_sensor :: "(string \<Rightarrow> string option) \<Rightarrow> int \<Rightarrow> machine \<Rightarrow> (machine \<times> machine) outcome" where
  "run_sensor popen pid m =
     bind_outcome (get_pids popen pid)
       (\<lambda>pids. let tracing = set_trace True (add_filter pids m) in
                Inr (tracing, clear_filters (set_trace False tracing)))"

lemma write_to_log:
  "writable m f \<Longrightarrow> writes (write_to f c a m) = writes m @ [(f, c @ [CHR 0x0A])]"
  "writable (write_to f c a m) = writable m"
  by (simp_all add: write_to_def)


definition sample_listing :: string where
  "sample_listing = ''total 0'' @ [CHR 0x0A] @ ''dr-xr-xr-x 7 root 812'' @ [CHR 0x0A] @ ''dr-xr-xr-x 7 root 813'' @ [CHR 0x0A]"

lemma sample_pids: "get_pids (\<lambda>_. Some sample_listing) 812 = Inr [812, 813]"
  by code_simp

definition bare_machine :: machine where
  "bare_machine = \<lparr>files = Map.empty, writes = [], writable = \<lambda>_. True\<rparr>"


section \<open>A run with a client\<close>

text \<open>
  \<open>run(true)\<close>: instead of joining, the main thread serves status texts. The environment decides
  whether \<open>listen\<close> gets a client, what \<open>send\<close> returns, and when the sender thread sets \<open>finished\<close>.
  The log records what is done to the socket.
\<close>

datatype serve_pc = Listening | Checking | Sending | Looping | Summary | Served

datatype socket_event = Listen bool | SendStatus int | SendSummary | CloseSocket

record serving =
  sv_pc :: serve_pc
  sv_finished :: bool
  sv_log :: "socket_event list"

definition serve_start :: serving where
  "serve_start = \<lparr>sv_pc = Listening, sv_finished = False, sv_log = []\<rparr>"

inductive serve_step :: "serving \<Rightarrow> serving \<Rightarrow> bool" where
  sv_listen: "sv_pc s = Listening \<Longrightarrow>
    serve_step s (s\<lparr>sv_pc := (if client then Checking else Listening), sv_log := sv_log s @ [Listen client]\<rparr>)"
| sv_check: "sv_pc s = Checking \<Longrightarrow>
    serve_step s (s\<lparr>sv_pc := (if sv_finished s then Looping else Sending)\<rparr>)"
| sv_send: "sv_pc s = Sending \<Longrightarrow> ret \<noteq> -1 \<Longrightarrow>
    serve_step s (s\<lparr>sv_pc := Checking, sv_log := sv_log s @ [SendStatus ret]\<rparr>)"
| sv_fail: "sv_pc s = Sending \<Longrightarrow>
    serve_step s (s\<lparr>sv_pc := Looping, sv_log := sv_log s @ [SendStatus (-1), CloseSocket]\<rparr>)"
| sv_loop: "sv_pc s = Looping \<Longrightarrow>
    serve_step s (s\<lparr>sv_pc := (if sv_finished s then Summary else Listening)\<rparr>)"
| sv_summary: "sv_pc s = Summary \<Longrightarrow>
    serve_step s (s\<lparr>sv_pc := Served, sv_log := sv_log s @ [SendSummary, CloseSocket]\<rparr>)"
| sv_finish: "serve_step s (s\<lparr>sv_finished := True\<rparr>)"

inductive serve_reachable :: "serving \<Rightarrow> bool" where
  serve_init: "serve_reachable serve_start"
| serve_next: "serve_reachable s \<Longrightarrow> serve_step s s' \<Longrightarrow> serve_reachable s'"

text \<open>Whether the socket has a client after the events of a log.\<close>

fun connected :: "bool \<Rightarrow> socket_event list \<Rightarrow> bool" where
  "connected c [] = c"
| "connected c (Listen b # es) = connected b es"
| "connected c (CloseSocket # es) = connected False es"
| "connected c (_ # es) = connected c es"

lemma connected_append [simp]: "connected c (xs @ ys) = connected (connected c xs) ys"
  by (induction c xs rule: connected.induct) auto

text \<open>Every status text goes to a client that is still there.\<close>

fun statuses_ok :: "bool \<Rightarrow> socket_event list \<Rightarrow> bool" where
  "statuses_ok c [] = True"
| "statuses_ok c (Listen b # es) = statuses_ok b es"
| "statuses_ok c (CloseSocket # es) = statuses_ok False es"
| "statuses_ok c (SendStatus r # es) = (c \<and> statuses_ok c es)"
| "statuses_ok c (SendSummary # es) = statuses_ok c es"

lemma statuses_ok_append [simp]:
  "statuses_ok c (xs @ ys) \<longleftrightarrow> statuses_ok c xs \<and> statuses_ok (connected c xs) ys"
  by (induction c xs rule: statuses_ok.induct) auto

definition serve_inv :: "serving \<Rightarrow> bool" where
  "serve_inv s \<longleftrightarrow> statuses_ok False (sv_log s) \<and>
     (sv_pc s \<in> {Checking, Sending} \<longrightarrow> connected False (sv_log s)) \<and>
     (sv_pc s \<noteq> Served \<longrightarrow> SendSummary \<notin> set (sv_log s)) \<and>
     (sv_pc s \<in> {Summary, Served} \<longrightarrow> sv_finished s) \<and>
     (sv_pc s = Served \<longrightarrow> (\<exists>es. sv_log s = es @ [SendSummary, CloseSocket] \<and> SendSummary \<notin> set es))"

lemma serve_inv_step: "serve_step s s' \<Longrightarrow> serve_inv s \<Longrightarrow> serve_inv s'"
  by (cases s s' rule: serve_step.cases) (auto simp: serve_inv_def)

lemma serve_reachable_inv: "serve_reachable s \<Longrightarrow> serve_inv s"
  by (induction rule: serve_reachable.induct)
     (auto simp: serve_inv_step, simp add: serve_inv_def serve_start_def)

text \<open>
  C35: whatever clients come and go, status texts are sent only while a client is connected, and
  \<open>run\<close> leaves the loop only when the sensor has finished, with the summary as the one and last
  message before the socket is closed.
\<close>

theorem serving_protocol:
  assumes "serve_reachable s" and "sv_pc s = Served"
  shows "sv_finished s \<and> statuses_ok False (sv_log s) \<and>
    (\<exists>es. sv_log s = es @ [SendSummary, CloseSocket] \<and> SendSummary \<notin> set es)"
  using serve_reachable_inv [OF assms(1)] assms(2) by (simp add: serve_inv_def)

definition served_run :: serving where
  "served_run = \<lparr>sv_pc = Served, sv_finished = True,
     sv_log = [Listen False, Listen True, SendStatus 40, SendStatus (-1), CloseSocket, SendSummary, CloseSocket]\<rparr>"

lemma served_run_reachable: "serve_reachable served_run"
proof -
  note n = serve_reachable.serve_next
  have "serve_reachable \<lparr>sv_pc = Listening, sv_finished = False, sv_log = [Listen False]\<rparr>"
    using n [OF serve_init sv_listen [of serve_start False]] by (simp add: serve_start_def)
  then have "serve_reachable \<lparr>sv_pc = Checking, sv_finished = False, sv_log = [Listen False, Listen True]\<rparr>"
    using n [OF _ sv_listen [of "\<lparr>sv_pc = Listening, sv_finished = False, sv_log = [Listen False]\<rparr>" True]] by simp
  then have "serve_reachable \<lparr>sv_pc = Sending, sv_finished = False, sv_log = [Listen False, Listen True]\<rparr>"
    using n [OF _ sv_check [of "\<lparr>sv_pc = Checking, sv_finished = False, sv_log = [Listen False, Listen True]\<rparr>"]] by simp
  then have "serve_reachable \<lparr>sv_pc = Checking, sv_finished = False, sv_log = [Listen False, Listen True, SendStatus 40]\<rparr>"
    using n [OF _ sv_send [of "\<lparr>sv_pc = Sending, sv_finished = False, sv_log = [Listen False, Listen True]\<rparr>" 40]] by simp
  then have "serve_reachable \<lparr>sv_pc = Sending, sv_finished = False, sv_log = [Listen False, Listen True, SendStatus 40]\<rparr>"
    using n [OF _ sv_check [of "\<lparr>sv_pc = Checking, sv_finished = False, sv_log = [Listen False, Listen True, SendStatus 40]\<rparr>"]] by simp
  then have "serve_reachable \<lparr>sv_pc = Looping, sv_finished = False,
      sv_log = [Listen False, Listen True, SendStatus 40, SendStatus (-1), CloseSocket]\<rparr>"
    using n [OF _ sv_fail [of "\<lparr>sv_pc = Sending, sv_finished = False, sv_log = [Listen False, Listen True, SendStatus 40]\<rparr>"]] by simp
  then have "serve_reachable \<lparr>sv_pc = Looping, sv_finished = True,
      sv_log = [Listen False, Listen True, SendStatus 40, SendStatus (-1), CloseSocket]\<rparr>" (is "serve_reachable ?l")
    using n [OF _ sv_finish [of "\<lparr>sv_pc = Looping, sv_finished = False,
      sv_log = [Listen False, Listen True, SendStatus 40, SendStatus (-1), CloseSocket]\<rparr>"]] by simp
  then have "serve_reachable (?l\<lparr>sv_pc := Summary\<rparr>)" using n [OF _ sv_loop [of ?l]] by simp
  then show ?thesis using n [OF _ sv_summary [of "?l\<lparr>sv_pc := Summary\<rparr>"]] by (simp add: served_run_def)
qed

theorem serving_protocol_witness:
  "sv_finished served_run \<and> statuses_ok False (sv_log served_run) \<and>
   (\<exists>es. sv_log served_run = es @ [SendSummary, CloseSocket] \<and> SendSummary \<notin> set es)"
  by (rule serving_protocol [OF served_run_reachable]) (simp add: served_run_def)

end
