(* ===== verification/FmtInt.thy ===== *)
theory FmtInt
  imports FmtBuffer
begin

unbundle bit_operations_syntax

text \<open>
  The integers of the formatting library: \<open>count_digits\<close>, \<open>format_decimal\<close>, \<open>prepare_int_buffer\<close>,
  \<open>fill_padding\<close>, \<open>write_int\<close> and \<open>write_str\<close> of \<open>include/utils/format.h\<close>, on the character buffers of
  \<open>FmtBuffer\<close>. Unsigned values are naturals below \<open>2 ^ w\<close>. A pointer into the buffer is its
  offset. The reference is \<open>dec_nat\<close>, the decimal digits of a number.
\<close>

section \<open>Counting decimal digits\<close>

definition POWERS_OF_10_64 :: "nat list" where
  "POWERS_OF_10_64 = 0 # map (\<lambda>k. 10 ^ k) [1..<20]"

definition POWERS_OF_10_32 :: "nat list" where
  "POWERS_OF_10_32 = 0 # map (\<lambda>k. 10 ^ k) [1..<10]"

text \<open>\<open>__builtin_clzll\<close> of a non-zero \<open>n\<close> is 64 less the number of bits of \<open>n\<close>.\<close>

fun bit_length :: "nat \<Rightarrow> nat" where
  "bit_length n = (if n = 0 then 0 else Suc (bit_length (n div 2)))"

declare bit_length.simps [simp del]

definition clzll :: "nat \<Rightarrow> nat" where "clzll n = 64 - bit_length n"
definition clz :: "nat \<Rightarrow> nat" where "clz n = 32 - bit_length n"

text \<open>\<open>t - (n < POWERS[t]) + 1\<close>, the comparison counted as 0 or 1.\<close>

definition count_digits :: "nat \<Rightarrow> nat" where
  "count_digits n =
     (let t = drop_bit 12 ((64 - clzll (n OR 1)) * 1233) in
      t - (if n < POWERS_OF_10_64 ! t then 1 else 0) + 1)"

definition count_digits_32 :: "nat \<Rightarrow> nat" where
  "count_digits_32 n =
     (let t = drop_bit 12 ((32 - clz (n OR 1)) * 1233) in
      t - (if n < POWERS_OF_10_32 ! t then 1 else 0) + 1)"

text \<open>The loop used when there is no \<open>clz\<close>.\<close>

fun count_digits_loop :: "nat \<Rightarrow> nat \<Rightarrow> nat" where
  "count_digits_loop count n =
     (if n < 10 then count
      else if n < 100 then count + 1
      else if n < 1000 then count + 2
      else if n < 10000 then count + 3
      else count_digits_loop (count + 4) (n div 10000))"

declare count_digits_loop.simps [simp del]

lemma dec_nat_step: "10 \<le> n \<Longrightarrow> length (dec_nat n) = Suc (length (dec_nat (n div 10)))"
  by (subst dec_nat.simps) simp

lemma dec_nat_one: "n < 10 \<Longrightarrow> length (dec_nat n) = 1"
  by (simp add: dec_nat.simps [of n])

lemma count_digits_loop_length: "count_digits_loop count n = count + length (dec_nat n) - 1"
proof (induction count n rule: count_digits_loop.induct)
  case (1 count n)
  have pos: "0 < length (dec_nat m)" for m by simp
  consider "n < 10" | "10 \<le> n" "n < 100" | "100 \<le> n" "n < 1000" | "1000 \<le> n" "n < 10000" | "10000 \<le> n" by linarith
  then show ?case
  proof cases
    case 5
    have "length (dec_nat n) = length (dec_nat (n div 10 div 10 div 10 div 10)) + 4"
      using 5 by (simp add: dec_nat_step)
    then have "length (dec_nat n) = length (dec_nat (n div 10000)) + 4" by (simp flip: div_mult2_eq)
    with 5 1 pos [of "n div 10000"] show ?thesis by (subst count_digits_loop.simps) simp
  qed (subst count_digits_loop.simps, simp add: dec_nat_step dec_nat_one)+
qed

lemma dec_nat_length_unique:
  assumes "n < 10 ^ Suc t" and "t = 0 \<or> 10 ^ t \<le> n"
  shows "length (dec_nat n) = Suc t"
  using assms
proof (induction t arbitrary: n)
  case 0
  then show ?case by (simp add: dec_nat_one)
next
  case (Suc t)
  have big: "10 ^ t * 10 \<le> n" using Suc.prems(2) by simp
  have "(1 :: nat) \<le> 10 ^ t" by simp
  with big have "10 \<le> n" by linarith
  moreover have "n div 10 < 10 ^ Suc t" using Suc.prems(1) by (simp add: less_mult_imp_div_less)
  moreover have "10 ^ t \<le> n div 10" using big by (simp add: less_eq_div_iff_mult_less_eq)
  ultimately show ?case using Suc.IH [of "n div 10"] by (simp add: dec_nat_step)
qed

lemma bit_length_bounds: "0 < n \<Longrightarrow> 2 ^ (bit_length n - 1) \<le> n \<and> n < 2 ^ bit_length n \<and> 0 < bit_length n"
proof (induction n rule: bit_length.induct)
  case (1 n)
  show ?case
  proof (cases "n = 1")
    case True
    then show ?thesis by (simp add: bit_length.simps)
  next
    case False
    with 1 have IH: "2 ^ (bit_length (n div 2) - 1) \<le> n div 2" "n div 2 < 2 ^ bit_length (n div 2)" "0 < bit_length (n div 2)"
      by auto
    obtain k where k: "bit_length (n div 2) = Suc k" using IH(3) by (cases "bit_length (n div 2)") auto
    have b: "bit_length n = Suc (Suc k)" using 1(2) k by (simp add: bit_length.simps [of n])
    have "2 ^ k * 2 \<le> n" using IH(1) k by (simp add: less_eq_div_iff_mult_less_eq)
    moreover have "n < 2 ^ Suc k * 2" using IH(2) k by (simp add: div_less_iff_less_mult)
    ultimately show ?thesis using b by simp
  qed
qed

lemma or_one: "n OR 1 = (if even n then n + 1 else (n :: nat))"
  using or_one_eq [of n] by (simp del: One_nat_def)

text \<open>The multiplication by \<open>1233 / 4096\<close> takes a bit length to its decimal digits, or to one less.\<close>

lemma log_table:
  "\<forall>L \<in> set [1..<65]. let t = L * 1233 div 4096 in
     t < 20 \<and> (2 :: nat) ^ L \<le> 10 ^ Suc t \<and> (0 < t \<longrightarrow> 10 ^ (t - 1) \<le> (2 :: nat) ^ (L - 1))"
  by (simp add: upt_conv_Cons Let_def)


lemma power_table:
  "t < 20 \<Longrightarrow> POWERS_OF_10_64 ! t = (if t = 0 then 0 else 10 ^ t)"
  "t < 10 \<Longrightarrow> POWERS_OF_10_32 ! t = (if t = 0 then 0 else 10 ^ t)"
  by (cases t; simp add: POWERS_OF_10_64_def POWERS_OF_10_32_def nth_append del: upt_Suc)+

lemma digits_from_bits:
  assumes "L = bit_length (n OR 1)" and "L < 65" and t: "t = L * 1233 div 4096"
  shows "t < 20 \<and> length (dec_nat n) = t - (if n < (if t = 0 then 0 else 10 ^ t) then 1 else 0) + 1"
proof -
  have pos: "0 < n OR 1" by (simp add: or_one odd_pos del: One_nat_def)
  from bit_length_bounds [OF this] have L: "2 ^ (L - 1) \<le> n OR 1" "n OR 1 < 2 ^ L" "0 < L"
    using assms(1) by auto
  have "L \<in> set [1..<65]" using L(3) assms(2) by simp
  from bspec [OF log_table this] have tab: "t < 20" "(2 :: nat) ^ L \<le> 10 ^ Suc t" "0 < t \<Longrightarrow> 10 ^ (t - 1) \<le> (2 :: nat) ^ (L - 1)"
    unfolding Let_def t by blast+
  have upper: "n < 10 ^ Suc t" using L(2) tab(2) by (auto simp: or_one split: if_splits simp del: One_nat_def)
  show ?thesis
  proof (cases "t = 0 \<or> 10 ^ t \<le> n")
    case True
    then show ?thesis using dec_nat_length_unique [OF upper] tab(1) by auto
  next
    case False
    then obtain u where u: "t = Suc u" by (cases t) auto
    have low: "10 ^ u \<le> n OR 1" using tab(3) L(1) u by simp
    have "u = 0 \<or> 10 ^ u \<le> n"
    proof (cases u)
      case (Suc v)
      then have "even ((10 :: nat) ^ u)" by simp
      then have "even n \<Longrightarrow> (10 :: nat) ^ u \<noteq> n + 1" by (metis Suc_eq_plus1 even_Suc)
      with low show ?thesis by (cases "even n") (simp_all add: or_one del: One_nat_def)
    qed simp
    with False u have "length (dec_nat n) = Suc u" by (intro dec_nat_length_unique) auto
    with False u tab(1) show ?thesis by simp
  qed
qed

lemma bit_length_le: "n < 2 ^ k \<Longrightarrow> bit_length n \<le> k"
proof -
  assume n: "n < 2 ^ k"
  show ?thesis
  proof (cases "n = 0")
    case True
    then show ?thesis by (simp add: bit_length.simps)
  next
    case False
    with bit_length_bounds [of n] have "(2 :: nat) ^ (bit_length n - 1) \<le> n" "0 < bit_length n" by auto
    then have "(2 :: nat) ^ (bit_length n - 1) < 2 ^ k" using n by linarith
    then have "bit_length n - 1 < k" by simp
    then show ?thesis by simp
  qed
qed

lemma or_one_less: "n < 2 ^ k \<Longrightarrow> 0 < k \<Longrightarrow> n OR 1 < (2 :: nat) ^ k"
proof -
  assume n: "n < 2 ^ k" and k: "0 < k"
  show ?thesis
  proof (cases "even n")
    case True
    then have "Suc n \<noteq> 2 ^ k" using k by (metis dvd_power even_Suc)
    with n True show ?thesis by (simp add: or_one del: One_nat_def)
  qed (use n in \<open>simp add: or_one del: One_nat_def\<close>)
qed

lemma count_digits_length: "n < 2 ^ 64 \<Longrightarrow> count_digits n = length (dec_nat n)"
proof -
  assume n: "n < 2 ^ 64"
  let ?L = "bit_length (n OR 1)"
  have "?L \<le> 64" using n by (intro bit_length_le or_one_less) simp_all
  with digits_from_bits [of ?L n "?L * 1233 div 4096"] show ?thesis
    by (simp add: count_digits_def clzll_def Let_def drop_bit_eq_div power_table(1) del: One_nat_def)
qed

lemma count_digits_32_length: "n < 2 ^ 32 \<Longrightarrow> count_digits_32 n = length (dec_nat n)"
proof -
  assume n: "n < 2 ^ 32"
  let ?L = "bit_length (n OR 1)"
  have L: "?L \<le> 32" using n by (intro bit_length_le or_one_less) simp_all
  then have "?L * 1233 div 4096 < 10" by simp
  with L digits_from_bits [of ?L n "?L * 1233 div 4096"] show ?thesis
    by (simp add: count_digits_32_def clz_def Let_def drop_bit_eq_div power_table(2) del: One_nat_def)
qed

text \<open>
  The three versions of \<open>count_digits\<close> agree with the length of the decimal representation: the
  bit-count estimate with its table of powers for 64 and for 32 bits, and the portable loop.
\<close>

theorem count_digits_exact:
  assumes "n < 2 ^ 64"
  shows "count_digits n = length (dec_nat n) \<and> count_digits_loop 1 n = length (dec_nat n) \<and>
    count_digits_32 (n mod 2 ^ 32) = length (dec_nat (n mod 2 ^ 32))"
  using count_digits_length [OF assms] count_digits_32_length [of "n mod 2 ^ 32"] count_digits_loop_length [of 1 n]
  by (simp del: One_nat_def)

theorem count_digits_exact_witness:
  "count_digits (2 ^ 64 - 1) = length (dec_nat (2 ^ 64 - 1)) \<and> count_digits_loop 1 (2 ^ 64 - 1) = length (dec_nat (2 ^ 64 - 1)) \<and>
    count_digits_32 ((2 ^ 64 - 1) mod 2 ^ 32) = length (dec_nat ((2 ^ 64 - 1) mod 2 ^ 32))"
  by (rule count_digits_exact) simp


section \<open>Decimal digits, two at a time\<close>

definition DIGITS :: string where
  "DIGITS = ''0001020304050607080910111213141516171819'' @
            ''2021222324252627282930313233343536373839'' @
            ''4041424344454647484950515253545556575859'' @
            ''6061626364656667686970717273747576777879'' @
            ''8081828384858687888990919293949596979899''"

text \<open>The loop of \<open>format_decimal\<close> and its end; \<open>num_digits\<close> is already the last position.\<close>

function format_decimal_loop :: "string \<Rightarrow> nat \<Rightarrow> nat \<Rightarrow> string" where
  "format_decimal_loop buffer value num_digits =
     (if value \<ge> 100 then
        (let index = (value mod 100) * 2 in
         format_decimal_loop
           ((buffer[num_digits := DIGITS ! (index + 1)])[num_digits - 1 := DIGITS ! index])
           (value div 100) (num_digits - 2))
      else if value < 10 then buffer[0 := char_of (48 + value)]
      else (let index = value * 2 in (buffer[1 := DIGITS ! (index + 1)])[0 := DIGITS ! index]))"
  by pat_completeness auto
termination
  by (relation "measure (\<lambda>(buffer, value, num_digits). value)") auto

declare format_decimal_loop.simps [simp del]

definition format_decimal :: "string \<Rightarrow> nat \<Rightarrow> nat \<Rightarrow> string" where
  "format_decimal buffer value num_digits = format_decimal_loop buffer value (num_digits - 1)"

lemma DIGITS_pair:
  "d < 100 \<Longrightarrow> DIGITS ! (d * 2) = digit_char (d div 10) \<and> DIGITS ! (d * 2 + 1) = digit_char (d mod 10)"
proof -
  have "\<forall>d \<in> set [0..<100]. DIGITS ! (d * 2) = digit_char (d div 10) \<and> DIGITS ! (d * 2 + 1) = digit_char (d mod 10)"
    by code_simp
  then show "d < 100 \<Longrightarrow> ?thesis" by simp
qed

lemma dec_nat_hundred: "100 \<le> v \<Longrightarrow>
  dec_nat v = dec_nat (v div 100) @ [digit_char (v mod 100 div 10), digit_char (v mod 100 mod 10)]"
proof -
  assume v: "100 \<le> v"
  have "dec_nat v = dec_nat (v div 10) @ [digit_char (v mod 10)]"
    using v by (subst dec_nat.simps) simp
  also have "dec_nat (v div 10) = dec_nat (v div 10 div 10) @ [digit_char (v div 10 mod 10)]"
    using v by (subst dec_nat.simps) simp
  also have "v div 10 div 10 = v div 100" by (simp flip: div_mult2_eq)
  also have "v div 10 mod 10 = v mod 100 div 10" using mod_mult2_eq [of v 10 10] by simp
  finally show ?thesis by (simp add: mod_mod_cancel)
qed


lemma format_decimal_loop_digits:
  "length b = length (dec_nat v) \<Longrightarrow>
   format_decimal_loop (b @ rest) v (length (dec_nat v) - 1) = dec_nat v @ rest"
proof (induction v arbitrary: b rest rule: less_induct)
  case (less v)
  consider "v < 10" | "10 \<le> v" "v < 100" | "100 \<le> v" by linarith
  then show ?case
  proof cases
    case 1
    with less.prems obtain x where "b = [x]" by (auto simp: dec_nat.simps [of v] length_Suc_conv)
    with 1 show ?thesis by (subst format_decimal_loop.simps) (simp add: dec_nat.simps [of v] digit_char_def)
  next
    case 2
    then have d: "dec_nat v = [digit_char (v div 10), digit_char (v mod 10)]"
      by (simp add: dec_nat.simps [of v] dec_nat.simps [of "v div 10"])
    with less.prems obtain x y where "b = [x, y]" by (auto simp: length_Suc_conv)
    with 2 d DIGITS_pair [of v] show ?thesis by (subst format_decimal_loop.simps) (simp add: Let_def)
  next
    case 3
    let ?q = "v div 100" and ?r = "v mod 100"
    have d: "dec_nat v = dec_nat ?q @ [digit_char (?r div 10), digit_char (?r mod 10)]"
      by (rule dec_nat_hundred [OF 3])
    define m where "m = length (dec_nat ?q)"
    have m: "0 < m" by (simp add: m_def)
    have len: "length b = m + 2" using less.prems d by (simp add: m_def)
    obtain b' x y where b: "b = b' @ [x, y]" and b': "length b' = m"
    proof -
      have "b = take m b @ [b ! m, b ! Suc m]"
        using len by (metis Cons_nth_drop_Suc Suc_eq_plus1 add_2_eq_Suc' append_take_drop_id drop_all le_eq_less_or_eq lessI less_Suc_eq)
      then show ?thesis using that [of "take m b" "b ! m" "b ! Suc m"] len by simp
    qed
    have "format_decimal_loop (b @ rest) v (m + 1) =
        format_decimal_loop (b' @ [digit_char (?r div 10), digit_char (?r mod 10)] @ rest) ?q (m - 1)"
      using 3 b b' DIGITS_pair [of ?r]
      by (subst format_decimal_loop.simps) (simp add: Let_def list_update_append)
    also have "\<dots> = dec_nat ?q @ [digit_char (?r div 10), digit_char (?r mod 10)] @ rest"
      unfolding m_def using 3 b' by (intro less.IH) (simp_all add: m_def)
    finally show ?thesis by (simp add: d m_def)
  qed
qed

lemma format_decimal_digits:
  "length b = length (dec_nat v) \<Longrightarrow> format_decimal b v (length (dec_nat v)) = dec_nat v"
  using format_decimal_loop_digits [of b v "[]"] by (simp add: format_decimal_def)


section \<open>Format specifications\<close>

datatype alignment = ALIGN_DEFAULT | ALIGN_LEFT | ALIGN_RIGHT | ALIGN_CENTER | ALIGN_NUMERIC

definition SIGN_FLAG :: nat where "SIGN_FLAG = 1"
definition PLUS_FLAG :: nat where "PLUS_FLAG = 2"
definition MINUS_FLAG :: nat where "MINUS_FLAG = 4"
definition HASH_FLAG :: nat where "HASH_FLAG = 8"
definition CHAR_FLAG :: nat where "CHAR_FLAG = 16"

record format_spec =
  sp_width :: nat
  sp_fill :: char
  sp_align :: alignment
  sp_flags :: nat
  sp_precision :: int
  sp_type :: char

text \<open>The default \<open>FormatSpec()\<close>; it is also what \<open>TypeSpec<0>\<close> answers.\<close>

definition default_spec :: format_spec where
  "default_spec = \<lparr>sp_width = 0, sp_fill = CHR '' '', sp_align = ALIGN_DEFAULT, sp_flags = 0,
     sp_precision = -1, sp_type = CHR 0x00\<rparr>"

definition spec_flag :: "nat \<Rightarrow> format_spec \<Rightarrow> bool" where
  "spec_flag f spec \<longleftrightarrow> sp_flags spec AND f \<noteq> 0"

section \<open>Writing into the area that was grown\<close>

text \<open>\<open>b'\<close> is \<open>b\<close> with \<open>n\<close> more characters, of any contents; \<open>area b n b'\<close> are these.\<close>

definition extends :: "'a buf \<Rightarrow> nat \<Rightarrow> 'a buf \<Rightarrow> bool" where
  "extends b n b' \<longleftrightarrow> buffer_ok b' \<and> buf_size b' = buf_size b + n \<and> take (buf_size b) (ptr b') = written b"

definition area :: "'a buf \<Rightarrow> nat \<Rightarrow> 'a buf \<Rightarrow> 'a list" where
  "area b n b' = take n (drop (buf_size b) (ptr b'))"

lemma extends_bounds: "extends b n b' \<Longrightarrow> buf_size b + n \<le> length (ptr b')"
  by (simp add: extends_def buffer_ok_def)

lemma area_length: "extends b n b' \<Longrightarrow> length (area b n b') = n"
  using extends_bounds [of b n b'] by (simp add: area_def)

lemma extends_written: "extends b n b' \<Longrightarrow> written b' = written b @ area b n b'"
  by (simp add: extends_def area_def written_def take_add)

lemma extends_write:
  assumes "extends b n b'" and "k + length xs \<le> n"
  shows "extends b n (write_area (buf_size b + k) xs b')"
    and "area b n (write_area (buf_size b + k) xs b') = copy_at k xs (area b n b')"
proof -
  note room = extends_bounds [OF assms(1)]
  have len: "length (copy_at (buf_size b + k) xs (ptr b')) = length (ptr b')"
    using room assms(2) by (intro length_copy_at) simp
  show "extends b n (write_area (buf_size b + k) xs b')"
    using assms room len by (simp add: extends_def write_area_def buffer_ok_def) (simp add: copy_at_def)
  have eq: "ptr b' = take (buf_size b) (ptr b') @ area b n b' @ drop (buf_size b + n) (ptr b')"
    by (simp add: area_def) (metis append_take_drop_id drop_drop add.commute)
  let ?pre = "take (buf_size b) (ptr b')" and ?a = "area b n b'" and ?post = "drop (buf_size b + n) (ptr b')"
  have la: "length ?a = n" "length ?pre = buf_size b" using area_length [OF assms(1)] room by simp_all
  have "copy_at (buf_size b + k) xs (?pre @ ?a @ ?post) = ?pre @ copy_at k xs ?a @ ?post"
    using la assms(2) by (simp add: copy_at_def)
  then have "area b n (write_area (buf_size b + k) xs b') = take n (drop (buf_size b) (?pre @ copy_at k xs ?a @ ?post))"
    by (subst area_def) (simp add: write_area_def flip: eq)
  also have "\<dots> = copy_at k xs ?a" using la assms(2) length_copy_at [of k xs ?a] by simp
  finally show "area b n (write_area (buf_size b + k) xs b') = copy_at k xs ?a" .
qed

context growable begin

lemma grow_buffer_extends:
  assumes "buffer_ok b" and "grow_buffer grow n b = Inr (i, b')"
  shows "i = buf_size b \<and> extends b n b'"
proof -
  from assms(2) obtain c where c: "(if buf_size b + n > buf_capacity b then grow (buf_size b + n) b else Inr b) = Inr c"
    and b': "b' = c\<lparr>buf_size := buf_size b + n\<rparr>" and i: "i = buf_size b"
    unfolding grow_buffer_def buf_resize_def bind_outcome_eq_Inr by blast
  from ensured [OF assms(1) c] have "buffer_ok c" "buf_size b + n \<le> buf_capacity c" "buf_size c = buf_size b" "written c = written b"
    by auto
  then show ?thesis by (simp add: i b' extends_def buffer_ok_def written_def)
qed

end

context total_growable begin

lemma grow_buffer_total: "\<exists>b'. grow_buffer grow n b = Inr (buf_size b, b')"
proof -
  obtain c where "grow (buf_size b + n) b = Inr c" using grow_total by blast
  then show ?thesis by (auto simp: grow_buffer_def buf_resize_def)
qed

lemma grow_buffer_ok:
  assumes "buffer_ok b"
  obtains b' where "grow_buffer grow n b = Inr (buf_size b, b')" and "extends b n b'"
  using grow_buffer_total [of n b] grow_buffer_extends [OF assms] by blast

end

section \<open>Padding and strings\<close>

definition fill_padding :: "nat \<Rightarrow> nat \<Rightarrow> nat \<Rightarrow> char \<Rightarrow> char buf \<Rightarrow> nat \<times> char buf" where
  "fill_padding buffer total_size content_size fill b =
     (let padding = total_size - content_size;
          left_padding = padding div 2;
          content = buffer + left_padding
      in (content,
          write_area (content + content_size) (replicate (padding - left_padding) fill)
            (write_area buffer (replicate left_padding fill) b)))"

text \<open>\<open>write_str(s, size, spec)\<close>.\<close>

definition write_chars :: "(nat \<Rightarrow> char buf \<Rightarrow> char buf outcome) \<Rightarrow> string \<Rightarrow> format_spec \<Rightarrow> char buf \<Rightarrow> char buf outcome" where
  "write_chars grow s spec b =
     (let size = length s; width = sp_width spec; fill = sp_fill spec in
      bind_outcome
        (if width > size then
           bind_outcome (grow_buffer grow width b) (\<lambda>(out, b').
             case sp_align spec of
               ALIGN_RIGHT \<Rightarrow> Inr (out + (width - size), write_area out (replicate (width - size) fill) b')
             | ALIGN_CENTER \<Rightarrow> Inr (fill_padding out width size fill b')
             | _ \<Rightarrow> Inr (out, write_area (out + size) (replicate (width - size) fill) b'))
         else grow_buffer grow size b)
        (\<lambda>(out, b'). Inr (write_area out s b')))"

text \<open>The reference: text aligned in a field.\<close>

definition padded :: "format_spec \<Rightarrow> string \<Rightarrow> string" where
  "padded spec s =
     (let n = sp_width spec - length s in
      case sp_align spec of
        ALIGN_RIGHT \<Rightarrow> replicate n (sp_fill spec) @ s
      | ALIGN_CENTER \<Rightarrow> replicate (n div 2) (sp_fill spec) @ s @ replicate (n - n div 2) (sp_fill spec)
      | _ \<Rightarrow> s @ replicate n (sp_fill spec))"

text \<open>Filling an area: the writes that follow each other, at their places.\<close>

lemma copy_all: "length xs = length a \<Longrightarrow> copy_at 0 xs a = xs"
  by (simp add: copy_at_def)

lemma copy_head_tail:
  "length xs + length ys = length a \<Longrightarrow> copy_at 0 xs (copy_at (length xs) ys a) = xs @ ys"
  "length xs + length ys = length a \<Longrightarrow> copy_at (length xs) ys (copy_at 0 xs a) = xs @ ys"
  by (simp_all add: copy_at_def)

lemma copy_three:
  "length xs + length ys + length zs = length a \<Longrightarrow>
   copy_at (length xs) ys (copy_at (length xs + length ys) zs (copy_at 0 xs a)) = xs @ ys @ zs"
  by (simp add: copy_at_def)


lemmas extends_write0 = extends_write [where k = 0, simplified]

lemma fill_padding_result:
  assumes "extends b n b'" and "cs \<le> n"
    and "fill_padding (buf_size b) n cs fill b' = (content, b'')"
  shows "content = buf_size b + (n - cs) div 2 \<and> extends b n b'' \<and>
    area b n b'' = copy_at ((n - cs) div 2 + cs) (replicate (n - cs - (n - cs) div 2) fill)
      (copy_at 0 (replicate ((n - cs) div 2) fill) (area b n b'))"
proof -
  let ?p = "n - cs" let ?l = "?p div 2"
  let ?xs = "replicate ?l fill" and ?zs = "replicate (?p - ?l) fill"
  have c: "content = buf_size b + ?l" and b'': "b'' = write_area (buf_size b + ?l + cs) ?zs (write_area (buf_size b) ?xs b')"
    using assms(3) by (auto simp: fill_padding_def Let_def)
  have "?l \<le> ?p" by simp
  then have bounds: "length ?xs \<le> n" "(?l + cs) + length ?zs \<le> n" using assms(2) by simp_all
  note w1 = extends_write0 [OF assms(1) bounds(1)]
  note w2 = extends_write [OF w1(1) bounds(2)]
  show ?thesis using w2 w1(2) c by (simp add: b'' add.assoc)
qed

lemma fill_padding_area:
  assumes "extends b n b'" and "length s \<le> n"
    and "fill_padding (buf_size b) n (length s) fill b' = (content, b'')"
  shows "extends b n (write_area content s b'') \<and>
    area b n (write_area content s b'') =
      replicate ((n - length s) div 2) fill @ s @ replicate (n - length s - (n - length s) div 2) fill"
proof -
  let ?p = "n - length s" let ?l = "?p div 2"
  let ?xs = "replicate ?l fill" and ?zs = "replicate (?p - ?l) fill"
  have sum: "length ?xs + length s + length ?zs = n" using assms(2) by simp
  have "?l \<le> ?p" by simp
  then have room: "?l + length s \<le> n" using assms(2) by simp
  note r = fill_padding_result [OF assms]
  then have e: "extends b n b''" by blast
  note w = extends_write [OF e room]
  have "area b n (write_area content s b'') = copy_at ?l s (copy_at (?l + length s) ?zs (copy_at 0 ?xs (area b n b')))"
    using w(2) r by simp
  also have "\<dots> = ?xs @ s @ ?zs"
    using copy_three [of ?xs s ?zs "area b n b'"] sum area_length [OF assms(1)] by simp
  finally show ?thesis using w(1) r by simp
qed

text \<open>The contract at the library's character buffers.\<close>

locale char_growable = total_growable grow for grow :: "nat \<Rightarrow> char buf \<Rightarrow> char buf outcome"
begin


lemma write_chars_padded:
  assumes ok: "buffer_ok b"
  shows "\<exists>b'. write_chars grow s spec b = Inr b' \<and> buffer_ok b' \<and> written b' = written b @ padded spec s"
proof (cases "sp_width spec > length s")
  case False
  obtain b' where g: "grow_buffer grow (length s) b = Inr (buf_size b, b')" and e: "extends b (length s) b'"
    using grow_buffer_ok [OF ok] by metis
  note w = extends_write0 [OF e, of s, simplified]
  have "area b (length s) (write_area (buf_size b) s b') = s"
    using w(2) area_length [OF e] by (simp add: copy_all)
  then show ?thesis using False g w(1) extends_written [OF w(1)]
    by (simp add: write_chars_def padded_def extends_def split: alignment.split)
next
  case True
  let ?w = "sp_width spec" let ?f = "replicate (?w - length s) (sp_fill spec)"
  obtain b' where g: "grow_buffer grow ?w b = Inr (buf_size b, b')" and e: "extends b ?w b'"
    using grow_buffer_ok [OF ok] by metis
  have la: "length (area b ?w b') = ?w" by (rule area_length [OF e])
  have right: ?thesis if "sp_align spec = ALIGN_RIGHT"
  proof -
    have "length ?f \<le> ?w" "(?w - length s) + length s \<le> ?w" using True by simp_all
    note w1 = extends_write0 [OF e this(1)]
    note w2 = extends_write [OF w1(1) \<open>(?w - length s) + length s \<le> ?w\<close>]
    have "area b ?w (write_area (buf_size b + (?w - length s)) s (write_area (buf_size b) ?f b')) = ?f @ s"
      using w2(2) w1(2) copy_head_tail(2) [of ?f s "area b ?w b'"] la True by simp
    with w2(1) extends_written [OF w2(1)] True g that show ?thesis
      by (simp add: write_chars_def padded_def extends_def Let_def)
  qed
  have centre: ?thesis if "sp_align spec = ALIGN_CENTER"
  proof -
    obtain c b'' where fp: "fill_padding (buf_size b) ?w (length s) (sp_fill spec) b' = (c, b'')" by fastforce
    from fill_padding_area [OF e _ fp] True have "extends b ?w (write_area c s b'')"
      "area b ?w (write_area c s b'') = replicate ((?w - length s) div 2) (sp_fill spec) @ s @
        replicate (?w - length s - (?w - length s) div 2) (sp_fill spec)" by auto
    with extends_written [OF this(1)] True g that fp show ?thesis
      by (simp add: write_chars_def padded_def extends_def Let_def)
  qed
  have left: ?thesis if "sp_align spec \<noteq> ALIGN_RIGHT" "sp_align spec \<noteq> ALIGN_CENTER"
  proof -
    have "length s + length ?f \<le> ?w" "length s \<le> ?w" using True by simp_all
    note w1 = extends_write [OF e this(1)]
    note w2 = extends_write0 [OF w1(1) \<open>length s \<le> ?w\<close>]
    have "area b ?w (write_area (buf_size b) s (write_area (buf_size b + length s) ?f b')) = s @ ?f"
      using w2(2) w1(2) copy_head_tail(1) [of s ?f "area b ?w b'"] la True by simp
    with w2(1) extends_written [OF w2(1)] True g that show ?thesis
      by (cases "sp_align spec") (simp_all add: write_chars_def padded_def extends_def Let_def)
  qed
  show ?thesis using right centre left by blast
qed

end

section \<open>Preparing the area of an integer\<close>

text \<open>
  \<open>prepare_int_buffer\<close> where no precision applies: the area with prefix and padding in place, and the
  position of the last digit.
\<close>

definition prepare_plain ::
    "(nat \<Rightarrow> char buf \<Rightarrow> char buf outcome) \<Rightarrow> nat \<Rightarrow> nat \<Rightarrow> alignment \<Rightarrow> char \<Rightarrow> string \<Rightarrow> char buf \<Rightarrow> (nat \<times> char buf) outcome" where
  "prepare_plain grow num_digits width align fill pfx b =
     (let size = length pfx + num_digits in
      if width \<le> size then
        bind_outcome (grow_buffer grow size b) (\<lambda>(p, b'). Inr (p + size - 1, write_area p pfx b'))
      else
        bind_outcome (grow_buffer grow width b) (\<lambda>(p, b').
          case align of
            ALIGN_LEFT \<Rightarrow>
              Inr (p + size - 1, write_area (p + size) (replicate (width - size) fill) (write_area p pfx b'))
          | ALIGN_CENTER \<Rightarrow>
              (case fill_padding p width size fill b' of
                 (p', b'') \<Rightarrow> Inr (p' + size - 1, write_area p' pfx b''))
          | ALIGN_NUMERIC \<Rightarrow>
              Inr (p + width - 1,
                   write_area (p + length pfx) (replicate (width - size) fill) (write_area p pfx b'))
          | _ \<Rightarrow>
              Inr (p + width - 1,
                   write_area p (replicate (width - size) fill) (write_area (p + width - size) pfx b'))))"

text \<open>
  With a precision above the number of digits the number is filled with zeros. In the left-aligned
  case the result points into the buffer while a second area is grown: where that moves the storage
  (\<open>reserve(width)\<close> does not count the characters already written) the pointer dangles.
\<close>

definition prepare_int_buffer ::
    "(nat \<Rightarrow> char buf \<Rightarrow> char buf outcome) \<Rightarrow> nat \<Rightarrow> format_spec \<Rightarrow> string \<Rightarrow> char buf \<Rightarrow> (nat \<times> char buf) outcome" where
  "prepare_int_buffer grow num_digits spec pfx b =
     (let width = sp_width spec; align = sp_align spec; fill = sp_fill spec in
      if sp_precision spec > int num_digits then
        (let pfx' = (if pfx \<noteq> [] \<and> last pfx = CHR ''0'' then butlast pfx else pfx);
             number_size = length pfx' + nat (sp_precision spec) in
         if number_size \<ge> width then prepare_plain grow num_digits number_size ALIGN_NUMERIC (CHR ''0'') pfx' b
         else
           bind_outcome (buf_reserve grow width b) (\<lambda>b.
           let fill_size = width - number_size in
           if align \<noteq> ALIGN_LEFT then
             bind_outcome (grow_buffer grow fill_size b) (\<lambda>(p, b).
               prepare_plain grow num_digits number_size ALIGN_NUMERIC (CHR ''0'') pfx' (write_area p (replicate fill_size fill) b))
           else
             bind_outcome (prepare_plain grow num_digits number_size ALIGN_NUMERIC (CHR ''0'') pfx' b) (\<lambda>(result, b1).
             bind_outcome (grow_buffer grow fill_size b1) (\<lambda>(p, b2).
               if buf_capacity b2 = buf_capacity b1 then Inr (result, write_area p (replicate fill_size fill) b2)
               else Inl BadDeref))))
      else prepare_plain grow num_digits width align fill pfx b)"


text \<open>
  \<open>hole b b' pos nd lhs rhs\<close>: \<open>b'\<close> is \<open>b\<close> followed by \<open>lhs\<close>, room for \<open>nd\<close> digits of which the last
  is at \<open>pos\<close>, and \<open>rhs\<close>.
\<close>

definition hole :: "'a buf \<Rightarrow> 'a buf \<Rightarrow> nat \<Rightarrow> nat \<Rightarrow> 'a list \<Rightarrow> 'a list \<Rightarrow> bool" where
  "hole b b' pos nd lhs rhs \<longleftrightarrow>
     extends b (length lhs + nd + length rhs) b' \<and> pos + 1 = buf_size b + length lhs + nd \<and>
     take (length lhs) (area b (length lhs + nd + length rhs) b') = lhs \<and>
     drop (length lhs + nd) (area b (length lhs + nd + length rhs) b') = rhs"

lemma hole_filled:
  assumes "hole b b' pos nd lhs rhs" and "length ds = nd"
  shows "buffer_ok (write_area (pos + 1 - nd) ds b') \<and>
    written (write_area (pos + 1 - nd) ds b') = written b @ lhs @ ds @ rhs"
proof -
  let ?n = "length lhs + nd + length rhs"
  have e: "extends b ?n b'" and pos: "pos + 1 - nd = buf_size b + length lhs"
    and lr: "take (length lhs) (area b ?n b') = lhs" "drop (length lhs + nd) (area b ?n b') = rhs"
    using assms(1) by (simp_all add: hole_def)
  have room: "length lhs + length ds \<le> ?n" using assms(2) by simp
  note w = extends_write [OF e room]
  have "area b ?n (write_area (buf_size b + length lhs) ds b') = lhs @ ds @ rhs"
    using w(2) lr assms(2) by (simp add: copy_at_def)
  with extends_written [OF w(1)] w(1) show ?thesis unfolding pos by (simp add: extends_def)
qed

lemma hole_shrink:
  assumes "hole b b' pos (Suc m) lhs rhs" and "0 < m"
  shows "hole b (write_area pos [c] b') (pos - 1) m lhs (c # rhs)"
proof -
  let ?n = "length lhs + Suc m + length rhs"
  have e: "extends b ?n b'" and pos: "pos = buf_size b + (length lhs + m)"
    and lr: "take (length lhs) (area b ?n b') = lhs" "drop (length lhs + Suc m) (area b ?n b') = rhs"
    using assms(1) by (simp_all add: hole_def)
  have room: "(length lhs + m) + length [c] \<le> ?n" by simp
  note w = extends_write [OF e room]
  have n: "length lhs + m + length (c # rhs) = ?n" by simp
  have "take (length lhs) (area b ?n (write_area pos [c] b')) = lhs"
    using w(2) lr(1) area_length [OF e] by (simp add: pos copy_at_def min_def)
  moreover have "drop (length lhs + m) (area b ?n (write_area pos [c] b')) = c # rhs"
    using w(2) lr(2) area_length [OF e] by (simp add: pos copy_at_def)
  ultimately show ?thesis using w(1) assms(2) unfolding hole_def n by (simp add: pos)
qed

text \<open>The reference: prefix and digits in a field.\<close>

definition number_field :: "nat \<Rightarrow> alignment \<Rightarrow> char \<Rightarrow> string \<Rightarrow> string \<Rightarrow> string" where
  "number_field width align fill pfx digits =
     (let n = width - (length pfx + length digits) in
      case align of
        ALIGN_LEFT \<Rightarrow> pfx @ digits @ replicate n fill
      | ALIGN_CENTER \<Rightarrow> replicate (n div 2) fill @ pfx @ digits @ replicate (n - n div 2) fill
      | ALIGN_NUMERIC \<Rightarrow> pfx @ replicate n fill @ digits
      | _ \<Rightarrow> replicate n fill @ pfx @ digits)"

definition field_lhs :: "nat \<Rightarrow> nat \<Rightarrow> alignment \<Rightarrow> char \<Rightarrow> string \<Rightarrow> string" where
  "field_lhs nd width align fill pfx =
     (let n = width - (length pfx + nd) in
      case align of
        ALIGN_LEFT \<Rightarrow> pfx
      | ALIGN_CENTER \<Rightarrow> replicate (n div 2) fill @ pfx
      | ALIGN_NUMERIC \<Rightarrow> pfx @ replicate n fill
      | _ \<Rightarrow> replicate n fill @ pfx)"

definition field_rhs :: "nat \<Rightarrow> nat \<Rightarrow> alignment \<Rightarrow> char \<Rightarrow> string \<Rightarrow> string" where
  "field_rhs nd width align fill pfx =
     (let n = width - (length pfx + nd) in
      case align of
        ALIGN_LEFT \<Rightarrow> replicate n fill
      | ALIGN_CENTER \<Rightarrow> replicate (n - n div 2) fill
      | _ \<Rightarrow> [])"

lemma number_field_split:
  "number_field width align fill pfx ds =
     field_lhs (length ds) width align fill pfx @ ds @ field_rhs (length ds) width align fill pfx"
  by (simp add: number_field_def field_lhs_def field_rhs_def Let_def split: alignment.split)

context char_growable begin

lemma prepare_plain_hole:
  assumes ok: "buffer_ok b" and nd: "0 < nd"
  shows "\<exists>pos b'. prepare_plain grow nd width align fill pfx b = Inr (pos, b') \<and>
    hole b b' pos nd (field_lhs nd width align fill pfx) (field_rhs nd width align fill pfx)"
proof (cases "width \<le> length pfx + nd")
  case True
  let ?n = "length pfx + nd"
  obtain b' where g: "grow_buffer grow ?n b = Inr (buf_size b, b')" and e: "extends b ?n b'"
    using grow_buffer_ok [OF ok] by metis
  note w = extends_write0 [OF e, of pfx, simplified]
  have f: "field_lhs nd width align fill pfx = pfx" "field_rhs nd width align fill pfx = []"
    using True by (simp_all add: field_lhs_def field_rhs_def split: alignment.split)
  have "hole b (write_area (buf_size b) pfx b') (buf_size b + ?n - 1) nd pfx []"
    using w area_length [OF e] nd by (simp add: hole_def copy_at_def)
  with g True f show ?thesis by (simp add: prepare_plain_def Let_def)
next
  case False
  let ?s = "length pfx + nd" let ?f = "replicate (width - ?s) fill"
  obtain b' where g: "grow_buffer grow width b = Inr (buf_size b, b')" and e: "extends b width b'"
    using grow_buffer_ok [OF ok] by metis
  have la: "length (area b width b') = width" by (rule area_length [OF e])
  have bounds: "length pfx \<le> width" "?s + length ?f \<le> width" "length pfx + length ?f \<le> width"
    "length ?f \<le> width" "(width - ?s) + length pfx \<le> width" using False by simp_all
  note w1 = extends_write0 [OF e bounds(1)]
  have left: ?thesis if "align = ALIGN_LEFT"
  proof -
    note w2 = extends_write [OF w1(1) bounds(2)]
    have "hole b (write_area (buf_size b + ?s) ?f (write_area (buf_size b) pfx b')) (buf_size b + ?s - 1) nd pfx ?f"
      using w2 w1(2) la nd False by (simp add: hole_def copy_at_def min_def add.commute)
    with g False that show ?thesis by (simp add: prepare_plain_def field_lhs_def field_rhs_def Let_def)
  qed
  have numeric: ?thesis if "align = ALIGN_NUMERIC"
  proof -
    note w2 = extends_write [OF w1(1) bounds(3)]
    have "hole b (write_area (buf_size b + length pfx) ?f (write_area (buf_size b) pfx b')) (buf_size b + width - 1) nd (pfx @ ?f) []"
      using w2 w1(2) la nd False by (simp add: hole_def copy_at_def min_def add.commute)
    with g False that show ?thesis by (simp add: prepare_plain_def field_lhs_def field_rhs_def Let_def)
  qed
  have right: ?thesis if "align = ALIGN_DEFAULT \<or> align = ALIGN_RIGHT"
  proof -
    note v1 = extends_write [OF e bounds(5)]
    note v2 = extends_write0 [OF v1(1) bounds(4)]
    have p: "buf_size b + width - ?s = buf_size b + (width - ?s)" using False by simp
    have "hole b (write_area (buf_size b) ?f (write_area (buf_size b + width - ?s) pfx b')) (buf_size b + width - 1) nd (?f @ pfx) []"
      unfolding p using v2 v1(2) la nd False by (simp add: hole_def copy_at_def min_def) linarith
    then show ?thesis using g False that
      by (cases align) (simp_all add: prepare_plain_def field_lhs_def field_rhs_def Let_def)
  qed
  have centre: ?thesis if "align = ALIGN_CENTER"
  proof -
    obtain c b'' where fp: "fill_padding (buf_size b) width ?s fill b' = (c, b'')" by fastforce
    let ?p = "width - ?s" let ?l = "?p div 2" let ?zs = "replicate (?p - ?l) fill"
    have "?s \<le> width" using False by simp
    note r = fill_padding_result [OF e this fp]
    then have e2: "extends b width b''" by blast
    have "?l \<le> ?p" by simp
    then have room: "?l + length pfx \<le> width" "?l + ?s + length ?zs = width" using False by simp_all
    note w = extends_write [OF e2 room(1)]
    have "?s \<le> width - ?l" using room(2) by linarith
    with w r la nd room(2) have "hole b (write_area c pfx b'') (c + ?s - 1) nd (replicate ?l fill @ pfx) ?zs"
      by (simp add: hole_def copy_at_def min_absorb2 min_absorb1 add.assoc)
    with g False that fp show ?thesis by (simp add: prepare_plain_def field_lhs_def field_rhs_def Let_def)
  qed
  show ?thesis using left numeric right centre by (cases align) auto
qed

end


section \<open>Digits in base 2, 8 and 16\<close>

text \<open>\<open>do { ++num_digits; } while ((n >>= k) != 0)\<close> and \<open>do { *p-- = digits[n & m]; } while (...)\<close>.\<close>

lemma shifted_less: "n div 2 ^ k \<noteq> 0 \<Longrightarrow> 0 < k \<Longrightarrow> n div 2 ^ k < (n :: nat)"
proof -
  assume "n div 2 ^ k \<noteq> 0" and k: "0 < k"
  then have "0 < n" by (intro Nat.gr0I) simp
  moreover have "1 < (2 :: nat) ^ k" using k by (intro one_less_power) simp_all
  ultimately show ?thesis by (rule div_less_dividend [rotated])
qed

function shift_count :: "nat \<Rightarrow> nat \<Rightarrow> nat \<Rightarrow> nat" where
  "shift_count k num_digits n =
     (let n' = drop_bit k n in if n' \<noteq> 0 \<and> 0 < k then shift_count k (num_digits + 1) n' else num_digits + 1)"
  by pat_completeness auto
termination
  by (relation "measure (\<lambda>(k, d, n). n)") (auto simp: drop_bit_eq_div intro: shifted_less)

function put_digits :: "nat \<Rightarrow> string \<Rightarrow> nat \<Rightarrow> nat \<Rightarrow> char buf \<Rightarrow> char buf" where
  "put_digits k digits n p b =
     (let b' = write_area p [digits ! (n AND mask k)] b; n' = drop_bit k n in
      if n' \<noteq> 0 \<and> 0 < k then put_digits k digits n' (p - 1) b' else b')"
  by pat_completeness auto
termination
  by (relation "measure (\<lambda>(k, digits, n, p, b). n)") (auto simp: drop_bit_eq_div intro: shifted_less)

declare shift_count.simps [simp del] put_digits.simps [simp del]

text \<open>The reference: positional notation in base \<open>2 ^ k\<close>.\<close>

function radix_text :: "nat \<Rightarrow> string \<Rightarrow> nat \<Rightarrow> string" where
  "radix_text k digits n =
     (if n div 2 ^ k = 0 \<or> k = 0 then [] else radix_text k digits (n div 2 ^ k)) @ [digits ! (n mod 2 ^ k)]"
  by pat_completeness auto
termination
  by (relation "measure (\<lambda>(k, digits, n). n)") (auto intro: shifted_less)

declare radix_text.simps [simp del]

lemma shift_count_length: "shift_count k d n = d + length (radix_text k digits n)"
proof (induction k d n rule: shift_count.induct)
  case (1 k d n)
  show ?case
    by (subst shift_count.simps, subst radix_text.simps)
       (use 1 in \<open>auto simp: Let_def drop_bit_eq_div\<close>)
qed

lemma radix_text_not_Nil [simp]: "radix_text k digits n \<noteq> []"
  by (subst radix_text.simps) simp

lemma put_digits_fills:
  "hole b b' pos (length (radix_text k digits n)) lhs rhs \<Longrightarrow>
   buffer_ok (put_digits k digits n pos b') \<and>
   written (put_digits k digits n pos b') = written b @ lhs @ radix_text k digits n @ rhs"
proof (induction k digits n pos b' arbitrary: rhs rule: put_digits.induct)
  case (1 k digits n pos b')
  let ?c = "digits ! (n mod 2 ^ k)"
  have c: "digits ! (n AND mask k) = ?c" by (simp flip: take_bit_eq_mask add: take_bit_eq_mod)
  show ?case
  proof (cases "n div 2 ^ k = 0 \<or> k = 0")
    case True
    then have r: "radix_text k digits n = [?c]" by (simp add: radix_text.simps)
    from hole_filled [OF 1(2), of "[?c]"] True show ?thesis
      by (subst (1 2) put_digits.simps) (auto simp: r c Let_def drop_bit_eq_div)
  next
    case False
    then have r: "radix_text k digits n = radix_text k digits (n div 2 ^ k) @ [?c]" by (simp add: radix_text.simps [of k digits n])
    have "hole b b' pos (Suc (length (radix_text k digits (n div 2 ^ k)))) lhs rhs" using 1(2) r by simp
    from hole_shrink [OF this, of ?c] have
      h: "hole b (write_area pos [?c] b') (pos - 1) (length (radix_text k digits (n div 2 ^ k))) lhs (?c # rhs)" by simp
    have "put_digits k digits n pos b' = put_digits k digits (n div 2 ^ k) (pos - 1) (write_area pos [?c] b')"
      using False by (subst put_digits.simps) (simp add: Let_def drop_bit_eq_div c)
    with 1(1) [OF refl refl, of "?c # rhs"] False h show ?thesis
      by (simp add: r drop_bit_eq_div c)
  qed
qed


section \<open>Writing an integer\<close>

text \<open>
  \<open>report_unknown_type\<close> throws a \<open>FormatError\<close>; its message quotes the code when it can be printed and
  gives it in hexadecimal otherwise.
\<close>

definition hex_lower :: string where "hex_lower = ''0123456789abcdef''"
definition hex_upper :: string where "hex_upper = ''0123456789ABCDEF''"

definition report_unknown_type :: "char \<Rightarrow> string \<Rightarrow> 'a outcome" where
  "report_unknown_type code ty =
     (let n = of_char code :: nat in
      Inl (FormatError (''unknown format code '' @ [CHR 0x27] @
        (if 32 \<le> n \<and> n < 127 then [code]
         else [CHR 0x5C, CHR ''x'', hex_lower ! (n div 16), hex_lower ! (n mod 16)]) @
        [CHR 0x27] @ '' for '' @ ty)))"

text \<open>
  \<open>write_int\<close> for a type whose unsigned counterpart has \<open>w\<close> bits. A pointer \<open>p + 1 - num_digits\<close> is the
  place of the first digit.
\<close>

definition write_int ::
    "(nat \<Rightarrow> char buf \<Rightarrow> char buf outcome) \<Rightarrow> nat \<Rightarrow> int \<Rightarrow> format_spec \<Rightarrow> char buf \<Rightarrow> char buf outcome" where
  "write_int grow w value spec b =
     (let unsigned_value = nat (value mod 2 ^ w);
          (pfx, abs_value) =
            (if value < 0 then (''-'', nat ((0 - int unsigned_value) mod 2 ^ w))
             else if spec_flag SIGN_FLAG spec then (if spec_flag PLUS_FLAG spec then ''+'' else '' '', unsigned_value)
             else ([], unsigned_value));
          ty = sp_type spec
      in
      if ty = CHR 0x00 \<or> ty = CHR ''d'' then
        (let num_digits = (if w = 32 then count_digits_32 abs_value else count_digits abs_value) in
         bind_outcome (prepare_int_buffer grow num_digits spec pfx b) (\<lambda>(q, b').
           let p = q + 1 - num_digits in
           Inr (write_area p (format_decimal (take num_digits (drop p (ptr b'))) abs_value num_digits) b')))
      else if ty = CHR ''x'' \<or> ty = CHR ''X'' then
        (let pfx' = (if spec_flag HASH_FLAG spec then pfx @ [CHR ''0'', ty] else pfx);
             num_digits = shift_count 4 0 abs_value in
         bind_outcome (prepare_int_buffer grow num_digits spec pfx' b) (\<lambda>(p, b').
           Inr (put_digits 4 (if ty = CHR ''x'' then hex_lower else hex_upper) abs_value p b')))
      else if ty = CHR ''b'' \<or> ty = CHR ''B'' then
        (let pfx' = (if spec_flag HASH_FLAG spec then pfx @ [CHR ''0'', ty] else pfx);
             num_digits = shift_count 1 0 abs_value in
         bind_outcome (prepare_int_buffer grow num_digits spec pfx' b) (\<lambda>(p, b').
           Inr (put_digits 1 ''01'' abs_value p b')))
      else if ty = CHR ''o'' then
        (let pfx' = (if spec_flag HASH_FLAG spec then pfx @ [CHR ''0''] else pfx);
             num_digits = shift_count 3 0 abs_value in
         bind_outcome (prepare_int_buffer grow num_digits spec pfx' b) (\<lambda>(p, b').
           Inr (put_digits 3 ''01234567'' abs_value p b')))
      else report_unknown_type ty (if spec_flag CHAR_FLAG spec then ''char'' else ''integer''))"

text \<open>The reference: sign, base prefix and the digits of the absolute value, in a field.\<close>

definition sign_text :: "int \<Rightarrow> format_spec \<Rightarrow> string" where
  "sign_text value spec =
     (if value < 0 then ''-''
      else if spec_flag SIGN_FLAG spec then (if spec_flag PLUS_FLAG spec then ''+'' else '' '') else [])"

definition base_text :: "format_spec \<Rightarrow> string" where
  "base_text spec =
     (if \<not> spec_flag HASH_FLAG spec \<or> sp_type spec = CHR 0x00 \<or> sp_type spec = CHR ''d'' then []
      else if sp_type spec = CHR ''o'' then ''0'' else [CHR ''0'', sp_type spec])"

definition digits_text :: "nat \<Rightarrow> format_spec \<Rightarrow> string" where
  "digits_text n spec =
     (if sp_type spec = CHR ''x'' then radix_text 4 hex_lower n
      else if sp_type spec = CHR ''X'' then radix_text 4 hex_upper n
      else if sp_type spec = CHR ''b'' \<or> sp_type spec = CHR ''B'' then radix_text 1 ''01'' n
      else if sp_type spec = CHR ''o'' then radix_text 3 ''01234567'' n
      else dec_nat n)"

definition int_text :: "int \<Rightarrow> format_spec \<Rightarrow> string" where
  "int_text value spec =
     number_field (sp_width spec) (sp_align spec) (sp_fill spec)
       (sign_text value spec @ base_text spec) (digits_text (nat \<bar>value\<bar>) spec)"

definition int_type :: "char \<Rightarrow> bool" where
  "int_type c \<longleftrightarrow> c \<in> {CHR 0x00, CHR ''d'', CHR ''x'', CHR ''X'', CHR ''b'', CHR ''B'', CHR ''o''}"

lemma abs_value_exact:
  assumes "- (2 ^ (w - 1)) \<le> value" and "value < 2 ^ w" and "0 < w"
  shows "value < 0 \<Longrightarrow> nat ((0 - int (nat (value mod 2 ^ w))) mod 2 ^ w) = nat \<bar>value\<bar>"
    and "\<not> value < 0 \<Longrightarrow> nat (value mod 2 ^ w) = nat \<bar>value\<bar>"
    and "nat \<bar>value\<bar> < 2 ^ w"
proof -
  have half: "(2 :: int) ^ (w - 1) < 2 ^ w" using assms(3) by simp
  show "nat ((0 - int (nat (value mod 2 ^ w))) mod 2 ^ w) = nat \<bar>value\<bar>" if "value < 0"
  proof -
    have "0 \<le> value mod 2 ^ w" by simp
    then have "(0 - int (nat (value mod 2 ^ w))) mod 2 ^ w = (- (value mod 2 ^ w)) mod 2 ^ w" by simp
    also have "\<dots> = (- value) mod 2 ^ w" by (rule mod_minus_eq)
    also have "\<dots> = - value" using that assms(1) half by (intro mod_pos_pos_trivial) linarith+
    finally show ?thesis using that by simp
  qed
  show "nat (value mod 2 ^ w) = nat \<bar>value\<bar>" if "\<not> value < 0" using that assms(2) by simp
  have "\<bar>value\<bar> < 2 ^ w" using assms(1,2) half by linarith
  then show "nat \<bar>value\<bar> < 2 ^ w" by (simp add: nat_less_iff)
qed

context char_growable begin

lemma prepare_int_hole:
  assumes "buffer_ok b" and "0 < nd" and "sp_precision spec \<le> int nd"
  shows "\<exists>pos b'. prepare_int_buffer grow nd spec pfx b = Inr (pos, b') \<and>
    hole b b' pos nd (field_lhs nd (sp_width spec) (sp_align spec) (sp_fill spec) pfx)
      (field_rhs nd (sp_width spec) (sp_align spec) (sp_fill spec) pfx)"
  using prepare_plain_hole [OF assms(1,2)] assms(3) by (simp add: prepare_int_buffer_def Let_def)

lemma write_decimal:
  assumes ok: "buffer_ok b" and "sp_precision spec \<le> 1" and nd: "nd = length (dec_nat n)"
  shows "\<exists>q b'. prepare_int_buffer grow nd spec pfx b = Inr (q, b') \<and>
    buffer_ok (write_area (q + 1 - nd) (format_decimal (take nd (drop (q + 1 - nd) (ptr b'))) n nd) b') \<and>
    written (write_area (q + 1 - nd) (format_decimal (take nd (drop (q + 1 - nd) (ptr b'))) n nd) b') =
      written b @ number_field (sp_width spec) (sp_align spec) (sp_fill spec) pfx (dec_nat n)"
proof -
  have pos: "0 < nd" by (simp add: nd)
  then have "sp_precision spec \<le> int nd" using assms(2) by linarith
  from prepare_int_hole [OF ok pos this, of pfx] obtain q b' where p: "prepare_int_buffer grow nd spec pfx b = Inr (q, b')"
    and h: "hole b b' q nd (field_lhs nd (sp_width spec) (sp_align spec) (sp_fill spec) pfx)
      (field_rhs nd (sp_width spec) (sp_align spec) (sp_fill spec) pfx)" by blast
  have "q + 1 - nd + nd \<le> length (ptr b')"
    using h extends_bounds [of b _ b'] by (fastforce simp: hole_def)
  then have "length (take nd (drop (q + 1 - nd) (ptr b'))) = length (dec_nat n)" by (simp add: nd)
  then have "format_decimal (take nd (drop (q + 1 - nd) (ptr b'))) n nd = dec_nat n"
    unfolding nd by (rule format_decimal_digits)
  with p hole_filled [OF h, of "dec_nat n"] show ?thesis by (simp add: nd number_field_split)
qed

lemma write_radix:
  assumes ok: "buffer_ok b" and "sp_precision spec \<le> 1"
  shows "\<exists>q b'. prepare_int_buffer grow (shift_count k 0 n) spec pfx b = Inr (q, b') \<and>
    buffer_ok (put_digits k digits n q b') \<and>
    written (put_digits k digits n q b') =
      written b @ number_field (sp_width spec) (sp_align spec) (sp_fill spec) pfx (radix_text k digits n)"
proof -
  let ?nd = "shift_count k 0 n"
  have nd: "?nd = length (radix_text k digits n)" using shift_count_length [of k 0 n digits] by simp
  have pos: "0 < ?nd" by (simp add: nd)
  then have "sp_precision spec \<le> int ?nd" using assms(2) by linarith
  from prepare_int_hole [OF ok pos this, of pfx] obtain q b' where p: "prepare_int_buffer grow ?nd spec pfx b = Inr (q, b')"
    and h: "hole b b' q ?nd (field_lhs ?nd (sp_width spec) (sp_align spec) (sp_fill spec) pfx)
      (field_rhs ?nd (sp_width spec) (sp_align spec) (sp_fill spec) pfx)" by blast
  with put_digits_fills [OF h [unfolded nd]] show ?thesis by (simp add: nd number_field_split)
qed

end


context char_growable begin

lemma write_int_exact:
  assumes ok: "buffer_ok b" and prec: "sp_precision spec \<le> 1" and ty: "int_type (sp_type spec)"
    and w: "w = 32 \<or> w = 64" and range: "- (2 ^ (w - 1)) \<le> value" "value < 2 ^ w"
  shows "\<exists>b'. write_int grow w value spec b = Inr b' \<and> buffer_ok b' \<and> written b' = written b @ int_text value spec"
proof -
  have w0: "0 < w" using w by auto
  let ?n = "nat \<bar>value\<bar>"
  note abs = abs_value_exact [OF range w0]
  have sel: "(if value < 0 then (''-'', nat ((0 - int (nat (value mod 2 ^ w))) mod 2 ^ w))
      else if spec_flag SIGN_FLAG spec then (if spec_flag PLUS_FLAG spec then ''+'' else '' '', nat (value mod 2 ^ w))
      else ([], nat (value mod 2 ^ w))) = (sign_text value spec, ?n)"
    using abs by (auto simp: sign_text_def)
  have cd: "(if w = 32 then count_digits_32 ?n else count_digits ?n) = length (dec_nat ?n)"
    using w abs(3) count_digits_32_length count_digits_length by auto
  from ty consider (dec) "sp_type spec = CHR 0x00 \<or> sp_type spec = CHR ''d''"
    | (hex) "sp_type spec = CHR ''x'' \<or> sp_type spec = CHR ''X''"
    | (bin) "sp_type spec = CHR ''b'' \<or> sp_type spec = CHR ''B''" | (oct) "sp_type spec = CHR ''o''"
    by (auto simp: int_type_def)
  then show ?thesis
  proof cases
    case dec
    from write_decimal [OF ok prec refl, of ?n "sign_text value spec"] dec show ?thesis
      unfolding write_int_def Let_def sel prod.case cd
      by (auto simp: int_text_def base_text_def digits_text_def)
  next
    case hex
    from write_radix [OF ok prec, of 4 ?n "sign_text value spec @ base_text spec"
        "if sp_type spec = CHR ''x'' then hex_lower else hex_upper"] hex show ?thesis
      unfolding write_int_def Let_def sel prod.case
      by (auto simp: int_text_def base_text_def digits_text_def split: if_splits)
  next
    case bin
    from write_radix [OF ok prec, of 1 ?n "sign_text value spec @ base_text spec" "''01''"] bin show ?thesis
      unfolding write_int_def Let_def sel prod.case
      by (auto simp: int_text_def base_text_def digits_text_def split: if_splits)
  next
    case oct
    from write_radix [OF ok prec, of 3 ?n "sign_text value spec @ base_text spec" "''01234567''"] oct show ?thesis
      unfolding write_int_def Let_def sel prod.case
      by (auto simp: int_text_def base_text_def digits_text_def split: if_splits)
  qed
qed

end

interpretation chars: char_growable "memory_grow junk" for junk :: char
  by unfold_locales

text \<open>
  C36: \<open>write_int\<close> appends to a \<open>MemoryBuffer\<close> exactly the sign or the sign flag, the base prefix and the
  digits of the value in its base, aligned and filled in the field of the specification, for every
  32- and 64-bit value and every integer type code, across any reallocation.
\<close>

theorem write_int_formats:
  assumes "buffer_ok b" and "sp_precision spec \<le> 1" and "int_type (sp_type spec)"
    and "w = 32 \<or> w = 64" and "- (2 ^ (w - 1)) \<le> value" and "value < 2 ^ w"
  shows "\<exists>b'. write_int (memory_grow junk) w value spec b = Inr b' \<and> buffer_ok b' \<and>
    written b' = written b @ int_text value spec"
  using assms by (rule chars.write_int_exact)

theorem write_int_formats_witness:
  "\<exists>b'. write_int (memory_grow (CHR ''?'')) 32 (-2147483648)
      (default_spec\<lparr>sp_width := 14, sp_fill := CHR ''*'', sp_align := ALIGN_CENTER\<rparr>) (memory_buffer 4 (CHR ''?'')) = Inr b' \<and>
    buffer_ok b' \<and> written b' = written (memory_buffer 4 (CHR ''?'')) @
      int_text (-2147483648) (default_spec\<lparr>sp_width := 14, sp_fill := CHR ''*'', sp_align := ALIGN_CENTER\<rparr>)"
  by (rule write_int_formats) (simp_all add: memory_buffer_ok default_spec_def int_type_def)

section \<open>Writing a string argument\<close>

text \<open>
  \<open>write_str(StringValue, spec)\<close>: the value is a pointer, null or to the characters and a terminator, and
  a size; a size of 0 stands for a C string.
\<close>

definition write_str ::
    "(nat \<Rightarrow> char buf \<Rightarrow> char buf outcome) \<Rightarrow> string option \<Rightarrow> nat \<Rightarrow> format_spec \<Rightarrow> char buf \<Rightarrow> char buf outcome" where
  "write_str grow s sz spec b =
     (if sp_type spec \<noteq> CHR 0x00 \<and> sp_type spec \<noteq> CHR ''s'' then report_unknown_type (sp_type spec) ''string''
      else
        bind_outcome
          (if sz = 0 then
             (case s of None \<Rightarrow> Inl (FormatError ''string pointer is null'')
              | Some chars \<Rightarrow> Inr (chars, length (takeWhile (\<lambda>c. c \<noteq> CHR 0x00) chars)))
           else (case s of None \<Rightarrow> Inl BadDeref | Some chars \<Rightarrow> Inr (chars, sz)))
          (\<lambda>(chars, str_size).
             let n = (if 0 \<le> sp_precision spec \<and> nat (sp_precision spec) < str_size then nat (sp_precision spec) else str_size) in
             write_chars grow (take n chars) spec b))"

end
