(* ===== verification/FmtFormat.thy ===== *)
theory FmtFormat
  imports FmtInt
begin

text \<open>
  The format-string interpreter of the formatting library: arguments and argument lists, the parser
  of replacement fields and specifications, and \<open>BasicFormatter::format\<close> (\<open>include/utils/format.h\<close>,
  \<open>lib/format.cc\<close>), for \<open>char\<close> strings. Floating-point, wide-string and user-defined arguments, which the
  sensor never passes, are not modelled.

  A pointer into the format string is the rest of the string; its end is the terminating null.
\<close>

section \<open>Arguments\<close>

datatype fmt_arg =
    A_NONE | A_INT int | A_UINT int | A_LONG_LONG int | A_ULONG_LONG int | A_CHAR int
  | A_CSTRING "string option" | A_STRING string | A_POINTER int

text \<open>The position of an argument's type in \<open>Arg::Type\<close>.\<close>

fun arg_type :: "fmt_arg \<Rightarrow> nat" where
  "arg_type A_NONE = 0"
| "arg_type (A_INT v) = 1"
| "arg_type (A_UINT v) = 2"
| "arg_type (A_LONG_LONG v) = 3"
| "arg_type (A_ULONG_LONG v) = 4"
| "arg_type (A_CHAR v) = 5"
| "arg_type (A_CSTRING s) = 8"
| "arg_type (A_STRING s) = 9"
| "arg_type (A_POINTER p) = 11"

definition LAST_INTEGER_TYPE :: nat where "LAST_INTEGER_TYPE = 5"
definition LAST_NUMERIC_TYPE :: nat where "LAST_NUMERIC_TYPE = 7"
definition MAX_ARGS :: nat where "MAX_ARGS = 16"

text \<open>An argument list: the types, four bits each, and the values.\<close>

record arg_list =
  al_types :: nat
  al_values :: "fmt_arg list"

fun make_types :: "fmt_arg list \<Rightarrow> nat" where
  "make_types [] = 0"
| "make_types (a # as) = (make_types as * 16 + arg_type a)"

definition make_args :: "fmt_arg list \<Rightarrow> arg_list" where
  "make_args as = \<lparr>al_types = make_types as, al_values = as\<rparr>"

definition type_at :: "nat \<Rightarrow> nat \<Rightarrow> nat" where
  "type_at types index = drop_bit (index * 4) (types AND push_bit (index * 4) 15)"

definition al_get :: "arg_list \<Rightarrow> nat \<Rightarrow> fmt_arg" where
  "al_get args index =
     (if index \<ge> MAX_ARGS then A_NONE
      else if type_at (al_types args) index = 0 then A_NONE
      else al_values args ! index)"

lemma arg_type_less: "arg_type a < 16" by (cases a) auto

lemma arg_type_zero [simp]: "arg_type a = 0 \<longleftrightarrow> a = A_NONE" by (cases a) auto

lemma type_at_div: "type_at t i = t div 16 ^ i mod 16"
proof -
  have m: "(15 :: nat) = mask 4" by (simp add: mask_eq_exp_minus_1)
  have "type_at t i = drop_bit (i * 4) t AND 15"
    by (simp add: type_at_def drop_bit_and drop_bit_push_bit)
  also have "\<dots> = drop_bit (i * 4) t mod 16"
    unfolding m by (simp flip: take_bit_eq_mask add: take_bit_eq_mod)
  also have "\<dots> = t div 16 ^ i mod 16"
    by (simp add: drop_bit_eq_div mult.commute [of i 4] power_mult)
  finally show ?thesis .
qed

lemma make_types_at: "type_at (make_types as) i = (if i < length as then arg_type (as ! i) else 0)"
proof -
  have "make_types as div 16 ^ i mod 16 = (if i < length as then arg_type (as ! i) else 0)"
  proof (induction as arbitrary: i)
    case (Cons a as)
    show ?case
    proof (cases i)
      case 0
      then show ?thesis using arg_type_less [of a] by simp
    next
      case (Suc k)
      have "make_types (a # as) div 16 ^ Suc k = make_types as div 16 ^ k"
        using arg_type_less [of a] by (simp add: div_mult2_eq)
      with Suc Cons.IH [of k] show ?thesis by simp
    qed
  qed simp
  then show ?thesis by (simp add: type_at_div)
qed

lemma al_get_make_args:
  "length as \<le> 16 \<Longrightarrow> al_get (make_args as) i = (if i < length as then as ! i else A_NONE)"
  by (auto simp: al_get_def make_args_def make_types_at MAX_ARGS_def)

section \<open>The parser\<close>

definition peek :: "string \<Rightarrow> char" where
  "peek s = (case s of [] \<Rightarrow> CHR 0x00 | c # r \<Rightarrow> c)"

text \<open>The loop of \<open>parse_nonnegative_int\<close>, in \<open>unsigned\<close> arithmetic.\<close>

fun parse_digits :: "nat \<Rightarrow> string \<Rightarrow> nat \<times> string" where
  "parse_digits value [] = (value, [])"
| "parse_digits value (c # s) =
     (let new_value = (value * 10 + (of_char c - 48)) mod 2 ^ 32 in
      if new_value < value then (2 ^ 32 - 1, s)
      else if is_digit (peek s) then parse_digits new_value s
      else (new_value, s))"

definition parse_nonnegative_int :: "string \<Rightarrow> (nat \<times> string) outcome" where
  "parse_nonnegative_int s =
     (if \<not> is_digit (peek s) then Inl AssertFailed
      else case parse_digits 0 s of (value, s') \<Rightarrow>
        if value > 2 ^ 31 - 1 then Inl (FormatError ''number is too big'') else Inr (value, s'))"

text \<open>\<open>FormatterBase\<close>: the arguments, and \<open>next_arg_index_\<close>, negative once indices were given.\<close>

record formatter =
  f_args :: arg_list
  f_next :: int

definition do_get_arg :: "formatter \<Rightarrow> nat \<Rightarrow> fmt_arg \<times> string option" where
  "do_get_arg f arg_index =
     (let arg = al_get (f_args f) arg_index in
      (arg, if arg = A_NONE then Some ''argument index out of range'' else None))"

definition next_arg :: "formatter \<Rightarrow> fmt_arg \<times> string option \<times> formatter" where
  "next_arg f =
     (if f_next f \<ge> 0 then
        (case do_get_arg f (nat (f_next f)) of (arg, err) \<Rightarrow> (arg, err, f\<lparr>f_next := f_next f + 1\<rparr>))
      else (A_NONE, Some ''cannot switch from manual to automatic argument indexing'', f))"

definition get_arg :: "formatter \<Rightarrow> nat \<Rightarrow> fmt_arg \<times> string option \<times> formatter" where
  "get_arg f arg_index =
     (if f_next f \<le> 0 then
        (case do_get_arg (f\<lparr>f_next := -1\<rparr>) arg_index of (arg, err) \<Rightarrow> (arg, err, f\<lparr>f_next := -1\<rparr>))
      else (A_NONE, Some ''cannot switch from automatic to manual argument indexing'', f))"

definition parse_arg_index :: "string \<Rightarrow> formatter \<Rightarrow> (fmt_arg \<times> string \<times> formatter) outcome" where
  "parse_arg_index s f =
     bind_outcome
       (if \<not> is_digit (peek s) then Inr (next_arg f, s)
        else bind_outcome (parse_nonnegative_int s) (\<lambda>(i, s'). Inr (get_arg f i, s')))
       (\<lambda>((arg, err, f'), s').
          case err of
            None \<Rightarrow> Inr (arg, s', f')
          | Some e \<Rightarrow> Inl (FormatError
              (if peek s' \<noteq> CHR ''}'' \<and> peek s' \<noteq> CHR '':'' then ''invalid format string'' else e)))"

definition quoted :: "char \<Rightarrow> string" where
  "quoted c = [CHR 0x27, c, CHR 0x27]"

definition require_numeric_argument :: "fmt_arg \<Rightarrow> char \<Rightarrow> unit outcome" where
  "require_numeric_argument arg spec =
     (if arg_type arg > LAST_NUMERIC_TYPE
      then Inl (FormatError (''format specifier '' @ quoted spec @ '' requires numeric argument''))
      else Inr ())"

definition check_sign :: "string \<Rightarrow> fmt_arg \<Rightarrow> string outcome" where
  "check_sign s arg =
     bind_outcome (require_numeric_argument arg (peek s)) (\<lambda>_.
       if arg_type arg = 2 \<or> arg_type arg = 4
       then Inl (FormatError (''format specifier '' @ quoted (peek s) @ '' requires signed argument''))
       else Inr (tl s))"

section \<open>The specification of a field\<close>

definition align_of :: "char \<Rightarrow> alignment" where
  "align_of c =
     (if c = CHR ''<'' then ALIGN_LEFT else if c = CHR ''>'' then ALIGN_RIGHT
      else if c = CHR ''='' then ALIGN_NUMERIC else if c = CHR ''^'' then ALIGN_CENTER else ALIGN_DEFAULT)"

text \<open>
  Fill and alignment: the loop looks at the second character, then at the first. A closing brace as
  fill ends it with the alignment already stored.
\<close>

definition parse_align :: "fmt_arg \<Rightarrow> string \<Rightarrow> (string \<times> format_spec) outcome" where
  "parse_align arg s =
     (let c = peek s in
      if c = CHR 0x00 then Inr (s, default_spec)
      else if align_of (peek (tl s)) \<noteq> ALIGN_DEFAULT then
        (let spec = default_spec\<lparr>sp_align := align_of (peek (tl s))\<rparr> in
         if c = CHR ''}'' then Inr (s, spec)
         else if c = CHR ''{'' then Inl (FormatError (''invalid fill character '' @ quoted (CHR ''{'')))
         else bind_outcome
           (if sp_align spec = ALIGN_NUMERIC then require_numeric_argument arg (CHR ''='') else Inr ())
           (\<lambda>_. Inr (drop 2 s, spec\<lparr>sp_fill := c\<rparr>)))
      else if align_of c \<noteq> ALIGN_DEFAULT then
        bind_outcome
          (if align_of c = ALIGN_NUMERIC then require_numeric_argument arg (CHR ''='') else Inr ())
          (\<lambda>_. Inr (tl s, default_spec\<lparr>sp_align := align_of c\<rparr>))
      else Inr (s, default_spec))"


definition parse_sign :: "fmt_arg \<Rightarrow> string \<times> format_spec \<Rightarrow> (string \<times> format_spec) outcome" where
  "parse_sign arg st =
     (case st of (s, spec) \<Rightarrow>
        let set_flags = (\<lambda>fl. bind_outcome (check_sign s arg) (\<lambda>s'. Inr (s', spec\<lparr>sp_flags := sp_flags spec OR fl\<rparr>))) in
        if peek s = CHR ''+'' then set_flags (SIGN_FLAG OR PLUS_FLAG)
        else if peek s = CHR ''-'' then set_flags MINUS_FLAG
        else if peek s = CHR '' '' then set_flags SIGN_FLAG
        else Inr (s, spec))"

definition parse_hash :: "fmt_arg \<Rightarrow> string \<times> format_spec \<Rightarrow> (string \<times> format_spec) outcome" where
  "parse_hash arg st =
     (case st of (s, spec) \<Rightarrow>
        if peek s = CHR ''#'' then
          bind_outcome (require_numeric_argument arg (CHR ''#''))
            (\<lambda>_. Inr (tl s, spec\<lparr>sp_flags := sp_flags spec OR HASH_FLAG\<rparr>))
        else Inr (s, spec))"

definition parse_width :: "fmt_arg \<Rightarrow> string \<times> format_spec \<Rightarrow> (string \<times> format_spec) outcome" where
  "parse_width arg st =
     (case st of (s, spec) \<Rightarrow>
        if is_digit (peek s) then
          bind_outcome
            (if peek s = CHR ''0'' then
               bind_outcome (require_numeric_argument arg (CHR ''0''))
                 (\<lambda>_. Inr (spec\<lparr>sp_align := ALIGN_NUMERIC, sp_fill := CHR ''0''\<rparr>))
             else Inr spec)
            (\<lambda>spec'. bind_outcome (parse_nonnegative_int s)
              (\<lambda>(w, s'). Inr (s', spec'\<lparr>sp_width := w\<rparr>)))
        else Inr (s, spec))"

text \<open>A precision given as an argument must be an integer from 0 to \<open>INT_MAX\<close>.\<close>

definition precision_value :: "fmt_arg \<Rightarrow> int outcome" where
  "precision_value a =
     bind_outcome
       (case a of
          A_INT v \<Rightarrow> if v < 0 then Inl (FormatError ''negative precision'') else Inr v
        | A_UINT v \<Rightarrow> Inr v
        | A_LONG_LONG v \<Rightarrow> if v < 0 then Inl (FormatError ''negative precision'') else Inr v
        | A_ULONG_LONG v \<Rightarrow> Inr v
        | _ \<Rightarrow> Inl (FormatError ''precision is not integer''))
       (\<lambda>v. if v > 2 ^ 31 - 1 then Inl (FormatError ''number is too big'') else Inr v)"

definition parse_precision ::
    "fmt_arg \<Rightarrow> formatter \<Rightarrow> string \<times> format_spec \<Rightarrow> (string \<times> format_spec \<times> formatter) outcome" where
  "parse_precision arg f st =
     (case st of (s, spec) \<Rightarrow>
        if peek s = CHR ''.'' then
          bind_outcome
            (let t = tl s in
             if is_digit (peek t) then
               bind_outcome (parse_nonnegative_int t) (\<lambda>(p, t'). Inr (int p, t', f))
             else if peek t = CHR ''{'' then
               bind_outcome (parse_arg_index (tl t) f) (\<lambda>(a, t', f').
                 if peek t' \<noteq> CHR ''}'' then Inl (FormatError ''invalid format string'')
                 else bind_outcome (precision_value a) (\<lambda>v. Inr (v, tl t', f')))
             else Inl (FormatError ''missing precision specifier''))
            (\<lambda>(v, t', f').
               if arg_type arg < LAST_INTEGER_TYPE \<or> arg_type arg = 11 then
                 Inl (FormatError (''precision not allowed in '' @
                   (if arg_type arg = 11 then ''pointer'' else ''integer'') @ '' format specifier''))
               else Inr (t', spec\<lparr>sp_precision := v\<rparr>, f'))
        else Inr (s, spec, f))"

definition parse_type :: "string \<times> format_spec \<times> formatter \<Rightarrow> string \<times> format_spec \<times> formatter" where
  "parse_type st =
     (case st of (s, spec, f) \<Rightarrow>
        if peek s \<noteq> CHR ''}'' \<and> peek s \<noteq> CHR 0x00 then (tl s, spec\<lparr>sp_type := peek s\<rparr>, f) else (s, spec, f))"

definition parse_spec :: "fmt_arg \<Rightarrow> string \<Rightarrow> formatter \<Rightarrow> (string \<times> format_spec \<times> formatter) outcome" where
  "parse_spec arg s f =
     (if peek s = CHR '':'' then
        bind_outcome (parse_align arg (tl s)) (\<lambda>st.
        bind_outcome (parse_sign arg st) (\<lambda>st.
        bind_outcome (parse_hash arg st) (\<lambda>st.
        bind_outcome (parse_width arg st) (\<lambda>st.
        bind_outcome (parse_precision arg f st) (\<lambda>st. Inr (parse_type st))))))
      else Inr (s, default_spec, f))"

section \<open>Formatting an argument\<close>

definition visit_char :: "(nat \<Rightarrow> char buf \<Rightarrow> char buf outcome) \<Rightarrow> int \<Rightarrow> format_spec \<Rightarrow> char buf \<Rightarrow> char buf outcome" where
  "visit_char grow value spec b =
     (if sp_type spec \<noteq> CHR 0x00 \<and> sp_type spec \<noteq> CHR ''c'' then
        write_int grow 32 value (spec\<lparr>sp_flags := sp_flags spec OR CHAR_FLAG\<rparr>) b
      else if sp_align spec = ALIGN_NUMERIC \<or> sp_flags spec \<noteq> 0 then
        Inl (FormatError ''invalid format specifier for char'')
      else if sp_precision spec = 0 then
        bind_outcome (grow_buffer grow (sp_width spec) b)
          (\<lambda>(out, b'). Inr (write_area out (replicate (sp_width spec) (sp_fill spec)) b'))
      else
        bind_outcome
          (if sp_width spec > 1 then
             bind_outcome (grow_buffer grow (sp_width spec) b) (\<lambda>(out, b').
               case sp_align spec of
                 ALIGN_RIGHT \<Rightarrow> Inr (out + (sp_width spec - 1), write_area out (replicate (sp_width spec - 1) (sp_fill spec)) b')
               | ALIGN_CENTER \<Rightarrow> Inr (fill_padding out (sp_width spec) 1 (sp_fill spec) b')
               | _ \<Rightarrow> Inr (out, write_area (out + 1) (replicate (sp_width spec - 1) (sp_fill spec)) b'))
           else grow_buffer grow 1 b)
          (\<lambda>(out, b'). Inr (write_area out [char_of (nat (value mod 256))] b')))"

definition visit_arg :: "(nat \<Rightarrow> char buf \<Rightarrow> char buf outcome) \<Rightarrow> fmt_arg \<Rightarrow> format_spec \<Rightarrow> char buf \<Rightarrow> char buf outcome" where
  "visit_arg grow arg spec b =
     (case arg of
        A_NONE \<Rightarrow> Inl AssertFailed
      | A_INT v \<Rightarrow> write_int grow 32 v spec b
      | A_UINT v \<Rightarrow> write_int grow 32 v spec b
      | A_LONG_LONG v \<Rightarrow> write_int grow 64 v spec b
      | A_ULONG_LONG v \<Rightarrow> write_int grow 64 v spec b
      | A_CHAR v \<Rightarrow> visit_char grow v spec b
      | A_CSTRING s \<Rightarrow> write_str grow s 0 spec b
      | A_STRING s \<Rightarrow> write_str grow (Some s) (length s) spec b
      | A_POINTER p \<Rightarrow>
          if sp_type spec \<noteq> CHR 0x00 \<and> sp_type spec \<noteq> CHR ''p'' then report_unknown_type (sp_type spec) ''pointer''
          else write_int grow 64 p (spec\<lparr>sp_flags := HASH_FLAG, sp_type := CHR ''x''\<rparr>) b)"

text \<open>\<open>BasicFormatter::format(format_str, arg)\<close>: after the argument's index, up to the closing brace.\<close>

definition format_arg ::
    "(nat \<Rightarrow> char buf \<Rightarrow> char buf outcome) \<Rightarrow> fmt_arg \<Rightarrow> string \<Rightarrow> formatter \<Rightarrow> char buf \<Rightarrow> (string \<times> formatter \<times> char buf) outcome" where
  "format_arg grow arg s f b =
     bind_outcome (parse_spec arg s f) (\<lambda>(s', spec, f').
       if peek s' \<noteq> CHR ''}'' then Inl (FormatError (''missing '' @ quoted (CHR ''}'') @ '' in format string''))
       else bind_outcome (visit_arg grow arg spec b) (\<lambda>b'. Inr (tl s', f', b')))"

section \<open>The format loop\<close>

text \<open>
  \<open>BasicFormatter::format(format_str, args)\<close>: \<open>lit\<close> are the characters from \<open>start_\<close> to the current
  position, not yet written. Every step consumes a character, so the loop ends.
\<close>

lemma bind_outcome_cong [fundef_cong]:
  "m = m' \<Longrightarrow> (\<And>x. m' = Inr x \<Longrightarrow> f x = g x) \<Longrightarrow> bind_outcome m f = bind_outcome m' g"
  by (cases m') auto

definition write_lit :: "(nat \<Rightarrow> char buf \<Rightarrow> char buf outcome) \<Rightarrow> string \<Rightarrow> char buf \<Rightarrow> char buf outcome" where
  "write_lit grow s b = (if s \<noteq> [] then buf_append grow s b else Inr b)"

function fmt_loop ::
    "(nat \<Rightarrow> char buf \<Rightarrow> char buf outcome) \<Rightarrow> string \<Rightarrow> string \<Rightarrow> formatter \<Rightarrow> char buf \<Rightarrow> char buf outcome" where
  "fmt_loop grow lit s f b =
     (if peek s = CHR 0x00 then write_lit grow lit b
      else if peek s \<noteq> CHR 0x7B \<and> peek s \<noteq> CHR 0x7D then fmt_loop grow (lit @ [peek s]) (tl s) f b
      else if peek (tl s) = peek s then
        bind_outcome (write_lit grow (lit @ [peek s]) b) (\<lambda>b'. fmt_loop grow [] (tl (tl s)) f b')
      else if peek s = CHR 0x7D then
        Inl (FormatError (''unmatched '' @ quoted (CHR 0x7D) @ '' in format string''))
      else
        bind_outcome (write_lit grow lit b) (\<lambda>b'.
        bind_outcome (parse_arg_index (tl s) f) (\<lambda>p.
        bind_outcome (format_arg grow (fst p) (fst (snd p)) (snd (snd p)) b') (\<lambda>q.
          fmt_loop grow [] (fst q) (fst (snd q)) (snd (snd q))))))"
  by pat_completeness auto

lemma parse_digits_shorter: "length (snd (parse_digits v s)) \<le> length s"
proof (induction v s rule: parse_digits.induct)
  case (2 v c s)
  then show ?case by (auto simp: Let_def intro: le_SucI)
qed simp

lemma parse_nonnegative_int_shorter:
  "parse_nonnegative_int s = Inr (n, s') \<Longrightarrow> length s' \<le> length s"
  using parse_digits_shorter [of 0 s]
  by (auto simp: parse_nonnegative_int_def split: if_splits prod.splits)

lemma parse_arg_index_shorter:
  "parse_arg_index s f = Inr (a, s', f') \<Longrightarrow> length s' \<le> length s"
  by (auto simp: parse_arg_index_def bind_outcome_eq_Inr dest: parse_nonnegative_int_shorter
      split: if_splits prod.splits option.splits)

lemma check_sign_shorter: "check_sign s arg = Inr s' \<Longrightarrow> length s' \<le> length s"
  by (auto simp: check_sign_def bind_outcome_eq_Inr split: if_splits)

lemma parse_align_shorter: "parse_align arg s = Inr (s', spec) \<Longrightarrow> length s' \<le> length s"
  by (auto simp: parse_align_def Let_def bind_outcome_eq_Inr split: if_splits)

lemma parse_sign_shorter: "parse_sign arg (s, sp) = Inr (s', spec) \<Longrightarrow> length s' \<le> length s"
  by (auto simp: parse_sign_def Let_def bind_outcome_eq_Inr dest: check_sign_shorter split: if_splits)

lemma parse_hash_shorter: "parse_hash arg (s, sp) = Inr (s', spec) \<Longrightarrow> length s' \<le> length s"
  by (auto simp: parse_hash_def bind_outcome_eq_Inr split: if_splits)

lemma parse_width_shorter: "parse_width arg (s, sp) = Inr (s', spec) \<Longrightarrow> length s' \<le> length s"
  by (auto simp: parse_width_def bind_outcome_eq_Inr dest: parse_nonnegative_int_shorter split: if_splits)

lemma parse_precision_shorter:
  "parse_precision arg f (s, sp) = Inr (s', spec, f') \<Longrightarrow> length s' \<le> length s"
  by (auto simp: parse_precision_def bind_outcome_eq_Inr Let_def
      dest!: parse_nonnegative_int_shorter parse_arg_index_shorter split: if_splits)

lemma parse_type_shorter: "parse_type (s, sp, f) = (s', spec, f') \<Longrightarrow> length s' \<le> length s"
  by (auto simp: parse_type_def split: if_splits)

lemma parse_spec_shorter: "parse_spec arg s f = Inr (s', spec, f') \<Longrightarrow> length s' \<le> length s"
proof (cases "peek s = CHR '':''")
  case True
  assume "parse_spec arg s f = Inr (s', spec, f')"
  with True obtain s1 p1 s2 p2 s3 p3 s4 p4 s5 p5 f5 where
      "parse_align arg (tl s) = Inr (s1, p1)" "parse_sign arg (s1, p1) = Inr (s2, p2)"
      "parse_hash arg (s2, p2) = Inr (s3, p3)" "parse_width arg (s3, p3) = Inr (s4, p4)"
      "parse_precision arg f (s4, p4) = Inr (s5, p5, f5)" "parse_type (s5, p5, f5) = (s', spec, f')"
    by (auto simp: parse_spec_def bind_outcome_eq_Inr)
  from this(1) [THEN parse_align_shorter] this(2) [THEN parse_sign_shorter] this(3) [THEN parse_hash_shorter]
    this(4) [THEN parse_width_shorter] this(5) [THEN parse_precision_shorter] this(6) [THEN parse_type_shorter]
  show ?thesis by simp
next
  case False
  assume "parse_spec arg s f = Inr (s', spec, f')"
  with False show ?thesis by (simp add: parse_spec_def)
qed

lemma format_arg_shorter: "format_arg grow arg s f b = Inr (s', f', b') \<Longrightarrow> length s' \<le> length s"
  by (auto simp: format_arg_def bind_outcome_eq_Inr dest!: parse_spec_shorter split: if_splits)

lemma peek_not_end: "peek s \<noteq> CHR 0x00 \<Longrightarrow> s \<noteq> []"
  by (auto simp: peek_def)

termination fmt_loop
proof (relation "measure (\<lambda>(grow, lit, s, f, b). length s)"; clarsimp)
  fix s :: string assume "peek s \<noteq> CHR 0x00"
  then show "length s - Suc 0 < length s" using peek_not_end [of s] by simp
next
  fix s :: string assume "peek s \<noteq> CHR 0x00"
  then show "length s - Suc (Suc 0) < length s" using peek_not_end [of s] by simp
next
  fix grow s f a s1 f1 xb s2 f2 b2
  assume s: "peek s = CHR 0x7B" and "parse_arg_index (tl s) f = Inr (a, s1, f1)"
    and "format_arg grow a s1 f1 xb = Inr (s2, f2, b2)"
  then have "length s2 \<le> length (tl s)"
    using parse_arg_index_shorter format_arg_shorter le_trans by metis
  with s peek_not_end [of s] show "length s2 < length s" by (cases s) auto
qed

declare fmt_loop.simps [simp del]

text \<open>\<open>fmt::format(format_str, args...)\<close> on a writer: the arguments are installed, indexing starts at 0.\<close>

definition format :: "(nat \<Rightarrow> char buf \<Rightarrow> char buf outcome) \<Rightarrow> string \<Rightarrow> fmt_arg list \<Rightarrow> char buf \<Rightarrow> char buf outcome" where
  "format grow format_str args b = fmt_loop grow [] format_str \<lparr>f_args = make_args args, f_next = 0\<rparr> b"

section \<open>Numbers in a format string\<close>

lemma peek_append: "s \<noteq> [] \<Longrightarrow> peek (s @ t) = hd s"
  by (cases s) (auto simp: peek_def)

lemma peek_Cons [simp]: "peek (c # s) = c"
  by (simp add: peek_def)

lemma parse_digits_exact:
  assumes "list_all is_digit ds" and "ds \<noteq> []" and "dec_value (int v) ds < 2 ^ 32" and "\<not> is_digit (peek rest)"
  shows "parse_digits v (ds @ rest) = (nat (dec_value (int v) ds), rest)"
  using assms
proof (induction ds arbitrary: v)
  case (Cons c ds)
  let ?new = "v * 10 + (of_char c - 48)"
  have dc: "is_digit c" and dds: "list_all is_digit ds" using Cons.prems by auto
  then have c: "48 \<le> (of_char c :: nat)" "(of_char c :: nat) \<le> 57" by (auto simp: is_digit_def)
  have "(of_char c :: int) = int (of_char c)" by (simp only: of_nat_of_char of_nat_id)
  with c have "digit_val c = int (of_char c) - 48"
    by (simp add: digit_val_def schar_def Let_def)
  then have new: "int ?new = int v * 10 + digit_val c" using c by (simp add: of_nat_diff)
  have "int ?new \<le> dec_value (int ?new) ds" by (rule dec_value_mono) (use dds in auto)
  then have small: "?new < 2 ^ 32" using Cons.prems(3) new by simp
  have val: "dec_value (int v) (c # ds) = dec_value (int ?new) ds" by (simp only: new dec_value.simps)
  show ?case
  proof (cases "ds = []")
    case True
    with small Cons.prems(4) show ?thesis unfolding val by (simp add: Let_def)
  next
    case False
    then have "is_digit (peek (ds @ rest))" using dds by (cases ds) auto
    moreover have "parse_digits ?new (ds @ rest) = (nat (dec_value (int ?new) ds), rest)"
      using Cons.IH [of ?new] dds False Cons.prems(3,4) val by auto
    ultimately show ?thesis using small unfolding val by (simp add: Let_def)
  qed
qed simp

lemma parse_index_exact:
  assumes "n < 2 ^ 31" and "\<not> is_digit (peek rest)"
  shows "parse_nonnegative_int (dec_nat n @ rest) = Inr (n, rest)"
proof -
  have "is_digit (peek (dec_nat n @ rest))"
    using dec_nat_digits [of n] by (cases "dec_nat n") auto
  moreover have "parse_digits 0 (dec_nat n @ rest) = (n, rest)"
    using parse_digits_exact [of "dec_nat n" 0 rest] dec_nat_digits [of n] assms by simp
  ultimately show ?thesis using assms by (simp add: parse_nonnegative_int_def)
qed

text \<open>
  The wrap-around check of \<open>parse_nonnegative_int\<close> misses products that wrap past the old value: the
  index or width 15000000000 is read as 2115098112 instead of being rejected as too big.
\<close>

theorem width_overflow_missed:
  "parse_nonnegative_int ''15000000000}'' = Inr (2115098112, ''}'') \<and> (2115098112 :: nat) < 2 ^ 31 \<and>
   parse_nonnegative_int ''2147483648}'' = Inl (FormatError ''number is too big'')"
  by (simp add: parse_nonnegative_int_def is_digit_def peek_def Let_def)

section \<open>What a format string means\<close>

text \<open>
  The reference reads a format string as a sequence of pieces: literal text, whose braces are doubled,
  and replacement fields without a specification, numbered automatically or by hand.
\<close>

datatype piece = Lit string | Auto | Manual nat

fun escape :: "string \<Rightarrow> string" where
  "escape [] = []"
| "escape (c # s) = (if c = CHR 0x7B \<or> c = CHR 0x7D then [c, c] else [c]) @ escape s"

fun render :: "piece list \<Rightarrow> string" where
  "render [] = []"
| "render (Lit l # ps) = escape l @ render ps"
| "render (Auto # ps) = CHR 0x7B # CHR 0x7D # render ps"
| "render (Manual i # ps) = CHR 0x7B # dec_nat i @ CHR 0x7D # render ps"

fun arg_text :: "fmt_arg \<Rightarrow> string" where
  "arg_text (A_INT v) = dec_int v"
| "arg_text (A_UINT v) = dec_int v"
| "arg_text (A_LONG_LONG v) = dec_int v"
| "arg_text (A_ULONG_LONG v) = dec_int v"
| "arg_text (A_CHAR v) = [char_of (nat (v mod 256))]"
| "arg_text (A_CSTRING s) = takeWhile (\<lambda>c. c \<noteq> CHR 0x00) (the s)"
| "arg_text (A_STRING s) = s"
| "arg_text _ = []"

fun arg_ok :: "fmt_arg \<Rightarrow> bool" where
  "arg_ok (A_INT v) \<longleftrightarrow> - (2 ^ 31) \<le> v \<and> v < 2 ^ 31"
| "arg_ok (A_UINT v) \<longleftrightarrow> 0 \<le> v \<and> v < 2 ^ 32"
| "arg_ok (A_LONG_LONG v) \<longleftrightarrow> - (2 ^ 63) \<le> v \<and> v < 2 ^ 63"
| "arg_ok (A_ULONG_LONG v) \<longleftrightarrow> 0 \<le> v \<and> v < 2 ^ 64"
| "arg_ok (A_CHAR v) \<longleftrightarrow> True"
| "arg_ok (A_CSTRING s) \<longleftrightarrow> s \<noteq> None"
| "arg_ok (A_STRING s) \<longleftrightarrow> True"
| "arg_ok _ \<longleftrightarrow> False"

text \<open>The text of a sequence of pieces; a list that mixes the two numberings has none.\<close>

fun pieces_text :: "fmt_arg list \<Rightarrow> int \<Rightarrow> piece list \<Rightarrow> string option" where
  "pieces_text as next [] = Some []"
| "pieces_text as next (Lit l # ps) =
     (if CHR 0x00 \<in> set l then None else map_option ((@) l) (pieces_text as next ps))"
| "pieces_text as next (Auto # ps) =
     (if 0 \<le> next \<and> nat next < length as then map_option ((@) (arg_text (as ! nat next))) (pieces_text as (next + 1) ps)
      else None)"
| "pieces_text as next (Manual i # ps) =
     (if next \<le> 0 \<and> i < length as then map_option ((@) (arg_text (as ! i))) (pieces_text as (-1) ps)
      else None)"

lemma int_text_default: "int_text v default_spec = dec_int v"
  by (simp add: int_text_def number_field_def sign_text_def base_text_def digits_text_def
      default_spec_def spec_flag_def dec_int_def)

lemma padded_default: "padded default_spec s = s"
  by (simp add: padded_def default_spec_def)

lemma default_spec_fields:
  "sp_precision default_spec = -1" "sp_type default_spec = CHR 0x00" "sp_align default_spec = ALIGN_DEFAULT"
  "sp_flags default_spec = 0" "sp_width default_spec = 0" "int_type (sp_type default_spec)"
  by (simp_all add: default_spec_def int_type_def)

text \<open>One field: the index, an empty specification, and the value.\<close>

lemma parse_arg_index_auto:
  assumes "length as \<le> 16" and "0 \<le> next" and "nat next < length as" and "as ! nat next \<noteq> A_NONE"
  shows "parse_arg_index (CHR 0x7D # s) \<lparr>f_args = make_args as, f_next = next\<rparr> =
    Inr (as ! nat next, CHR 0x7D # s, \<lparr>f_args = make_args as, f_next = next + 1\<rparr>)"
  using assms
  by (simp add: parse_arg_index_def is_digit_def next_arg_def do_get_arg_def al_get_make_args Let_def)

lemma parse_arg_index_manual:
  assumes "length as \<le> 16" and "next \<le> 0" and "i < length as" and "as ! i \<noteq> A_NONE"
  shows "parse_arg_index (dec_nat i @ CHR 0x7D # s) \<lparr>f_args = make_args as, f_next = next\<rparr> =
    Inr (as ! i, CHR 0x7D # s, \<lparr>f_args = make_args as, f_next = -1\<rparr>)"
proof -
  have "is_digit (peek (dec_nat i @ CHR 0x7D # s))"
    using dec_nat_digits [of i] by (cases "dec_nat i") auto
  moreover have "parse_nonnegative_int (dec_nat i @ CHR 0x7D # s) = Inr (i, CHR 0x7D # s)"
    by (rule parse_index_exact) (use assms in \<open>auto simp: is_digit_def\<close>)
  ultimately show ?thesis using assms
    by (simp add: parse_arg_index_def get_arg_def do_get_arg_def al_get_make_args Let_def)
qed

lemma format_arg_plain:
  "format_arg grow a (CHR 0x7D # s) f b = bind_outcome (visit_arg grow a default_spec b) (\<lambda>b'. Inr (s, f, b'))"
  by (simp add: format_arg_def parse_spec_def)

context char_growable begin

lemma visit_char_plain:
  assumes ok: "buffer_ok b"
  shows "\<exists>b'. visit_char grow v default_spec b = Inr b' \<and> buffer_ok b' \<and> written b' = written b @ [char_of (nat (v mod 256))]"
proof -
  let ?xs = "[char_of (nat (v mod 256))] :: string"
  obtain b' where g: "grow_buffer grow 1 b = Inr (buf_size b, b')" using grow_buffer_total by blast
  then have "visit_char grow v default_spec b = Inr (write_area (buf_size b) ?xs b')"
    by (simp add: visit_char_def default_spec_fields)
  with grow_buffer_area [OF ok g, of ?xs] show ?thesis by simp
qed

lemma write_str_plain:
  assumes ok: "buffer_ok b"
  shows "\<exists>b'. write_str grow (Some s) (length s) default_spec b = Inr b' \<and> buffer_ok b' \<and> written b' = written b @ s"
    and "\<exists>b'. write_str grow (Some s) 0 default_spec b = Inr b' \<and> buffer_ok b' \<and>
      written b' = written b @ takeWhile (\<lambda>c. c \<noteq> CHR 0x00) s"
proof -
  have "write_str grow (Some s) (length s) default_spec b = write_chars grow s default_spec b"
    by (cases s) (simp_all add: write_str_def default_spec_fields)
  with write_chars_padded [OF ok, of s default_spec]
  show "\<exists>b'. write_str grow (Some s) (length s) default_spec b = Inr b' \<and> buffer_ok b' \<and> written b' = written b @ s"
    by (simp add: padded_default)
  let ?t = "takeWhile (\<lambda>c. c \<noteq> CHR 0x00) s"
  have "write_str grow (Some s) 0 default_spec b = write_chars grow ?t default_spec b"
    by (simp add: write_str_def default_spec_fields flip: takeWhile_eq_take)
  with write_chars_padded [OF ok, of ?t default_spec]
  show "\<exists>b'. write_str grow (Some s) 0 default_spec b = Inr b' \<and> buffer_ok b' \<and> written b' = written b @ ?t"
    by (simp add: padded_default)
qed

lemma visit_arg_plain:
  assumes ok: "buffer_ok b" and a: "arg_ok a"
  shows "\<exists>b'. visit_arg grow a default_spec b = Inr b' \<and> buffer_ok b' \<and> written b' = written b @ arg_text a"
proof -
  have int: "\<exists>b'. write_int grow w v default_spec b = Inr b' \<and> buffer_ok b' \<and> written b' = written b @ dec_int v"
    if "w = 32 \<or> w = 64" "- (2 ^ (w - 1)) \<le> v" "v < 2 ^ w" for w v
    using write_int_exact [OF ok _ _ that, of default_spec] by (simp add: default_spec_fields int_text_default int_type_def)
  show ?thesis
    using a int [of 32] int [of 64] visit_char_plain [OF ok] write_str_plain [OF ok]
    by (cases a) (auto simp: visit_arg_def)
qed

text \<open>\<open>good s f t\<close>: from \<open>s\<close> on the loop writes the pending literal and then \<open>t\<close>.\<close>

definition good :: "string \<Rightarrow> formatter \<Rightarrow> string \<Rightarrow> bool" where
  "good s f t \<longleftrightarrow> (\<forall>lit b. buffer_ok b \<longrightarrow>
     (\<exists>b'. fmt_loop grow lit s f b = Inr b' \<and> buffer_ok b' \<and> written b' = written b @ lit @ t))"

lemma write_lit_appends:
  "buffer_ok b \<Longrightarrow> \<exists>b'. write_lit grow s b = Inr b' \<and> buffer_ok b' \<and> written b' = written b @ s"
  using append_total [of b s] by (simp add: write_lit_def)

lemma good_end: "good [] f []"
  using write_lit_appends by (simp add: good_def fmt_loop.simps [of _ _ "[]"] peek_def)

lemma good_escape: "good s f t \<Longrightarrow> CHR 0x00 \<notin> set l \<Longrightarrow> good (escape l @ s) f (l @ t)"
proof (induction l)
  case (Cons c l)
  then have rest: "good (escape l @ s) f (l @ t)" and c: "c \<noteq> CHR 0x00" by auto
  show ?case unfolding good_def
  proof (intro allI impI)
    fix lit b assume ok: "buffer_ok (b :: char buf)"
    show "\<exists>b'. fmt_loop grow lit (escape (c # l) @ s) f b = Inr b' \<and> buffer_ok b' \<and> written b' = written b @ lit @ (c # l) @ t"
    proof (cases "c = CHR 0x7B \<or> c = CHR 0x7D")
      case True
      obtain b1 where b1: "write_lit grow (lit @ [c]) b = Inr b1" "buffer_ok b1" "written b1 = written b @ lit @ [c]"
        using write_lit_appends [OF ok] by blast
      from rest b1(2) obtain b' where "fmt_loop grow [] (escape l @ s) f b1 = Inr b'" "buffer_ok b'" "written b' = written b1 @ l @ t"
        unfolding good_def by force
      with True b1 c show ?thesis by (auto simp: fmt_loop.simps [of _ _ "_ # _"])
    next
      case False
      from rest ok obtain b' where "fmt_loop grow (lit @ [c]) (escape l @ s) f b = Inr b'" "buffer_ok b'"
          "written b' = written b @ (lit @ [c]) @ l @ t"
        unfolding good_def by blast
      with False c show ?thesis by (auto simp: fmt_loop.simps [of _ _ "_ # _"])
    qed
  qed
qed simp

lemma good_field:
  assumes rest: "good s f' t" and a: "arg_ok a" and first: "peek field \<noteq> CHR 0x7B"
    and "index": "parse_arg_index field f = Inr (a, CHR 0x7D # s, f')"
  shows "good (CHR 0x7B # field) f (arg_text a @ t)"
  unfolding good_def
proof (intro allI impI)
  fix lit b assume ok: "buffer_ok (b :: char buf)"
  obtain b1 where b1: "write_lit grow lit b = Inr b1" "buffer_ok b1" "written b1 = written b @ lit"
    using write_lit_appends [OF ok] by blast
  obtain b2 where b2: "visit_arg grow a default_spec b1 = Inr b2" "buffer_ok b2" "written b2 = written b1 @ arg_text a"
    using visit_arg_plain [OF b1(2) a] by blast
  from rest b2(2) obtain b' where "fmt_loop grow [] s f' b2 = Inr b'" "buffer_ok b'" "written b' = written b2 @ t"
    unfolding good_def by force
  with b1 b2 first "index" show "\<exists>b'. fmt_loop grow lit (CHR 0x7B # field) f b = Inr b' \<and> buffer_ok b' \<and>
      written b' = written b @ lit @ arg_text a @ t"
    by (simp add: fmt_loop.simps [of _ _ "_ # _"] format_arg_plain)
qed

lemma arg_ok_some: "list_all arg_ok as \<Longrightarrow> i < length as \<Longrightarrow> arg_ok (as ! i) \<and> as ! i \<noteq> A_NONE"
  by (auto simp: list_all_length)

lemma good_pieces:
  assumes "length as \<le> 16" and "list_all arg_ok as"
  shows "pieces_text as next ps = Some t \<Longrightarrow> good (render ps) \<lparr>f_args = make_args as, f_next = next\<rparr> t"
proof (induction ps arbitrary: "next" t)
  case Nil
  then show ?case by (simp add: good_end)
next
  case (Cons p ps)
  show ?case
  proof (cases p)
    case (Lit l)
    with Cons.prems obtain u where "CHR 0x00 \<notin> set l" "pieces_text as next ps = Some u" "t = l @ u"
      by (auto split: if_splits)
    with Cons.IH show ?thesis by (simp add: Lit good_escape)
  next
    case Auto
    with Cons.prems obtain u where i: "0 \<le> next" "nat next < length as" and u: "pieces_text as (next + 1) ps = Some u"
        and t: "t = arg_text (as ! nat next) @ u"
      by (auto split: if_splits)
    note a = arg_ok_some [OF assms(2) i(2)]
    show ?thesis
      unfolding Auto render.simps t
      by (rule good_field [OF Cons.IH [OF u]]) (use a i assms in \<open>simp_all add: parse_arg_index_auto\<close>)
  next
    case (Manual i)
    with Cons.prems obtain u where i: "next \<le> 0" "i < length as" and u: "pieces_text as (-1) ps = Some u"
        and t: "t = arg_text (as ! i) @ u"
      by (auto split: if_splits)
    note a = arg_ok_some [OF assms(2) i(2)]
    have "peek (dec_nat i @ CHR 0x7D # render ps) \<noteq> CHR 0x7B"
      using dec_nat_digits [of i] by (cases "dec_nat i") (auto simp: is_digit_def)
    then show ?thesis
      unfolding Manual render.simps t
      by (intro good_field [OF Cons.IH [OF u]]) (use a i assms in \<open>simp_all add: parse_arg_index_manual\<close>)
  qed
qed

lemma format_pieces:
  assumes "length as \<le> 16" and "list_all arg_ok as" and "pieces_text as 0 ps = Some t" and "buffer_ok b"
  shows "\<exists>b'. format grow (render ps) as b = Inr b' \<and> buffer_ok b' \<and> written b' = written b @ t"
  using good_pieces [OF assms(1,2,3)] assms(4) by (force simp: good_def format_def)

end



end
