(* ===== verification/FmtWriter.thy ===== *)
theory FmtWriter
  imports FmtFormat
begin

text \<open>
  What callers use of the formatting library (\<open>include/utils/format.h\<close>): \<open>MakeValue\<close>, the integer and
  string format specifiers (\<open>bin\<close>, \<open>oct\<close>, \<open>hex\<close>, \<open>hexu\<close>, \<open>pad\<close>), the output operators of
  \<open>BasicWriter\<close>, \<open>MemoryWriter\<close>, \<open>format\<close> returning a \<open>std::string\<close>, \<open>FormatInt\<close> and the free
  \<open>format_decimal\<close>.
\<close>

section \<open>Argument values\<close>

text \<open>The types a call can pass; \<open>long\<close> has 64 bits.\<close>

datatype cxx_value =
    C_bool bool | C_short int | C_ushort int | C_int int | C_unsigned int | C_long int | C_ulong int
  | C_longlong int | C_ulonglong int | C_char int | C_schar int | C_uchar int
  | C_cstring "string option" | C_string string | C_void_ptr int

fun make_value :: "cxx_value \<Rightarrow> fmt_arg" where
  "make_value (C_bool v) = A_INT (if v then 1 else 0)"
| "make_value (C_short v) = A_INT v"
| "make_value (C_ushort v) = A_UINT v"
| "make_value (C_int v) = A_INT v"
| "make_value (C_unsigned v) = A_UINT v"
| "make_value (C_long v) = A_LONG_LONG v"
| "make_value (C_ulong v) = A_ULONG_LONG v"
| "make_value (C_longlong v) = A_LONG_LONG v"
| "make_value (C_ulonglong v) = A_ULONG_LONG v"
| "make_value (C_char v) = A_CHAR v"
| "make_value (C_schar v) = A_CHAR v"
| "make_value (C_uchar v) = A_CHAR v"
| "make_value (C_cstring s) = A_CSTRING s"
| "make_value (C_string s) = A_STRING s"
| "make_value (C_void_ptr p) = A_POINTER p"

section \<open>Format specifiers\<close>

definition type_spec :: "char \<Rightarrow> format_spec" where
  "type_spec t = default_spec\<lparr>sp_type := t\<rparr>"

definition align_type_spec :: "char \<Rightarrow> nat \<Rightarrow> char \<Rightarrow> format_spec" where
  "align_type_spec t width fill = default_spec\<lparr>sp_type := t, sp_width := width, sp_fill := fill\<rparr>"

record int_format_spec =
  if_width :: nat
  if_value :: int
  if_spec :: format_spec

text \<open>\<open>if_width\<close> is the number of bits of the value's type, its template argument \<open>T\<close>.\<close>

definition bin :: "nat \<Rightarrow> int \<Rightarrow> int_format_spec" where
  "bin bits value = \<lparr>if_width = bits, if_value = value, if_spec = type_spec (CHR ''b'')\<rparr>"
definition oct :: "nat \<Rightarrow> int \<Rightarrow> int_format_spec" where
  "oct bits value = \<lparr>if_width = bits, if_value = value, if_spec = type_spec (CHR ''o'')\<rparr>"
definition hex :: "nat \<Rightarrow> int \<Rightarrow> int_format_spec" where
  "hex bits value = \<lparr>if_width = bits, if_value = value, if_spec = type_spec (CHR ''x'')\<rparr>"
definition hexu :: "nat \<Rightarrow> int \<Rightarrow> int_format_spec" where
  "hexu bits value = \<lparr>if_width = bits, if_value = value, if_spec = type_spec (CHR ''X'')\<rparr>"

definition pad_spec :: "int_format_spec \<Rightarrow> nat \<Rightarrow> char \<Rightarrow> int_format_spec" where
  "pad_spec f width fill = f\<lparr>if_spec := align_type_spec (sp_type (if_spec f)) width fill\<rparr>"

definition pad_int :: "nat \<Rightarrow> int \<Rightarrow> nat \<Rightarrow> char \<Rightarrow> int_format_spec" where
  "pad_int bits value width fill =
     \<lparr>if_width = bits, if_value = value, if_spec = align_type_spec (CHR 0x00) width fill\<rparr>"

text \<open>\<open>pad\<close> of a C string: the string and the specification \<open>StrFormatSpec\<close>.\<close>

definition pad_str :: "string \<Rightarrow> nat \<Rightarrow> char \<Rightarrow> string \<times> format_spec" where
  "pad_str str width fill = (str, default_spec\<lparr>sp_width := width, sp_fill := fill\<rparr>)"

section \<open>The writer\<close>

type_synonym grow = "nat \<Rightarrow> char buf \<Rightarrow> char buf outcome"

definition put_int :: "grow \<Rightarrow> nat \<Rightarrow> int \<Rightarrow> char buf \<Rightarrow> char buf outcome" where
  "put_int grow bits value w = write_int grow bits value default_spec w"

definition put_char :: "grow \<Rightarrow> char \<Rightarrow> char buf \<Rightarrow> char buf outcome" where
  "put_char grow value w = buf_push_back grow value w"

definition put_str :: "grow \<Rightarrow> string \<Rightarrow> char buf \<Rightarrow> char buf outcome" where
  "put_str grow value w = buf_append grow value w"

definition put_int_spec :: "grow \<Rightarrow> int_format_spec \<Rightarrow> char buf \<Rightarrow> char buf outcome" where
  "put_int_spec grow f w = write_int grow (if_width f) (if_value f) (if_spec f) w"

definition put_str_spec :: "grow \<Rightarrow> string \<times> format_spec \<Rightarrow> char buf \<Rightarrow> char buf outcome" where
  "put_str_spec grow f w = write_chars grow (takeWhile (\<lambda>c. c \<noteq> CHR 0x00) (fst f)) (snd f) w"

definition INLINE_BUFFER_SIZE :: nat where "INLINE_BUFFER_SIZE = 500"

definition memory_writer :: "char \<Rightarrow> char buf" where
  "memory_writer junk = memory_buffer INLINE_BUFFER_SIZE junk"

text \<open>
  \<open>data()\<close> is a pointer to the storage. A \<open>std::string\<close> made from it has the characters before the first
  null of the storage; without one the read leaves it.
\<close>

definition c_string_of :: "string \<Rightarrow> string outcome" where
  "c_string_of storage =
     (if CHR 0x00 \<in> set storage then Inr (takeWhile (\<lambda>c. c \<noteq> CHR 0x00) storage) else Inl BadRange)"

definition writer_data :: "char buf \<Rightarrow> string" where
  "writer_data w = ptr w"

definition writer_c_str :: "grow \<Rightarrow> char buf \<Rightarrow> char buf outcome" where
  "writer_c_str grow w =
     bind_outcome (buf_reserve grow (buf_size w + 1) w) (\<lambda>w'. Inr (w'\<lparr>ptr := (ptr w')[buf_size w := CHR 0x00]\<rparr>))"

definition writer_str :: "char buf \<Rightarrow> string" where
  "writer_str w = take (buf_size w) (ptr w)"

definition writer_write :: "grow \<Rightarrow> string \<Rightarrow> cxx_value list \<Rightarrow> char buf \<Rightarrow> char buf outcome" where
  "writer_write grow format_str args w = format grow format_str (map make_value args) w"

text \<open>\<open>fmt::format\<close> returning a string.\<close>

definition format_string :: "char \<Rightarrow> string \<Rightarrow> cxx_value list \<Rightarrow> string outcome" where
  "format_string junk format_str args =
     bind_outcome (writer_write (memory_grow junk) format_str args (memory_writer junk)) (\<lambda>w. Inr (writer_str w))"

lemma writer_str_written: "writer_str w = written w"
  by (simp add: writer_str_def written_def)

lemma memory_writer_ok [simp]: "buffer_ok (memory_writer junk)" "written (memory_writer junk) = []"
  using memory_buffer_ok [of INLINE_BUFFER_SIZE junk] by (simp_all add: memory_writer_def)

context char_growable begin

lemma put_str_appends:
  "buffer_ok w \<Longrightarrow> \<exists>w'. put_str grow s w = Inr w' \<and> buffer_ok w' \<and> written w' = written w @ s"
  by (simp add: put_str_def append_total)

lemma put_char_appends:
  "buffer_ok w \<Longrightarrow> \<exists>w'. put_char grow c w = Inr w' \<and> buffer_ok w' \<and> written w' = written w @ [c]"
  by (simp add: put_char_def push_back_total)

lemma put_int_appends:
  assumes "buffer_ok w" and "bits = 32 \<or> bits = 64" and "- (2 ^ (bits - 1)) \<le> value" and "value < 2 ^ bits"
  shows "\<exists>w'. put_int grow bits value w = Inr w' \<and> buffer_ok w' \<and> written w' = written w @ dec_int value"
  using write_int_exact [OF assms(1) _ _ assms(2-), of default_spec]
  by (simp add: put_int_def default_spec_fields int_type_def int_text_default)

lemma put_int_spec_appends:
  assumes "buffer_ok w" and "if_width f = 32 \<or> if_width f = 64"
    and "- (2 ^ (if_width f - 1)) \<le> if_value f" and "if_value f < 2 ^ if_width f"
    and "sp_precision (if_spec f) \<le> 1" and "int_type (sp_type (if_spec f))"
  shows "\<exists>w'. put_int_spec grow f w = Inr w' \<and> buffer_ok w' \<and> written w' = written w @ int_text (if_value f) (if_spec f)"
  using write_int_exact [OF assms(1,5,6,2,3,4)] by (simp add: put_int_spec_def)

lemma put_str_spec_appends:
  "buffer_ok w \<Longrightarrow> \<exists>w'. put_str_spec grow f w = Inr w' \<and> buffer_ok w' \<and>
     written w' = written w @ padded (snd f) (takeWhile (\<lambda>c. c \<noteq> CHR 0x00) (fst f))"
  by (simp add: put_str_spec_def write_chars_padded)

text \<open>After \<open>c_str()\<close> the storage is the text and a null.\<close>

lemma writer_c_str_terminates:
  assumes "buffer_ok w"
  shows "\<exists>w'. writer_c_str grow w = Inr w' \<and> buffer_ok w' \<and> written w' = written w \<and>
    (CHR 0x00 \<notin> set (written w) \<longrightarrow> c_string_of (ptr w') = Inr (written w))"
proof -
  obtain c where c: "buf_reserve grow (buf_size w + 1) w = Inr c"
    using grow_total [of "buf_size w + 1" w] by (cases "buf_size w + 1 > buf_capacity w") (auto simp: buf_reserve_def)
  then have c': "(if buf_size w + 1 > buf_capacity w then grow (buf_size w + 1) w else Inr w) = Inr c"
    by (auto simp: buf_reserve_def split: if_splits)
  note ok = ensured [OF assms c']
  let ?w' = "c\<lparr>ptr := (ptr c)[buf_size w := CHR 0x00]\<rparr>"
  have room: "buf_size w < length (ptr c)" and sz: "buf_size c = buf_size w" using ok by (auto simp: buffer_ok_def)
  have split: "ptr ?w' = take (buf_size w) (ptr c) @ CHR 0x00 # drop (Suc (buf_size w)) (ptr c)"
    using room by (simp add: upd_conv_take_nth_drop)
  have "written ?w' = written c" by (simp add: written_def sz)
  moreover have "buffer_ok ?w'" using ok by (simp add: buffer_ok_def)
  moreover have "c_string_of (ptr ?w') = Inr (written w)" if nn: "CHR 0x00 \<notin> set (written w)"
  proof -
    have t: "take (buf_size w) (ptr c) = written w" using ok by (metis sz written_def)
    show ?thesis unfolding c_string_of_def split t using nn
      by (auto simp: takeWhile_append)
  qed
  moreover have "writer_c_str grow w = Inr ?w'" unfolding writer_c_str_def c by simp
  ultimately show ?thesis using ok by auto
qed

end

text \<open>\<open>format\<close> returning a string, for any contents of fresh storage.\<close>

lemma format_string_pieces:
  assumes "length args \<le> 16" and "list_all arg_ok (map make_value args)"
    and "pieces_text (map make_value args) 0 ps = Some t"
  shows "format_string junk (render ps) args = Inr t"
proof -
  have "\<exists>w. format (memory_grow junk) (render ps) (map make_value args) (memory_writer junk) = Inr w \<and>
      buffer_ok w \<and> written w = written (memory_writer junk) @ t"
    using assms by (intro chars.format_pieces) auto
  then show ?thesis by (auto simp: format_string_def writer_write_def writer_str_written)
qed

text \<open>
  The writer: \<open>pad(hex(value), width, fill)\<close> on a \<open>MemoryWriter\<close> writes the lower-case hexadecimal digits of the
  value, right-aligned with the fill character in at least the given width; a negative value has its sign
  before the digits of its absolute value.
\<close>

theorem pad_hex_written:
  assumes "buffer_ok w" and "- (2 ^ 31) \<le> value" and "value < 2 ^ 32"
  shows "\<exists>w'. put_int_spec (memory_grow junk) (pad_spec (hex 32 value) width fill) w = Inr w' \<and> buffer_ok w' \<and>
    written w' = written w @
      (let t = (if value < 0 then ''-'' else []) @ radix_text 4 ''0123456789abcdef'' (nat \<bar>value\<bar>)
       in replicate (width - length t) fill @ t)"
proof -
  let ?f = "pad_spec (hex 32 value) width fill"
  have f: "if_width ?f = 32" "if_value ?f = value" "sp_precision (if_spec ?f) \<le> 1" "int_type (sp_type (if_spec ?f))"
    by (simp_all add: pad_spec_def hex_def align_type_spec_def type_spec_def default_spec_def int_type_def)
  have "int_text value (if_spec ?f) =
      (let t = (if value < 0 then ''-'' else []) @ radix_text 4 ''0123456789abcdef'' (nat \<bar>value\<bar>)
       in replicate (width - length t) fill @ t)"
    by (simp add: int_text_def pad_spec_def hex_def align_type_spec_def type_spec_def default_spec_def
        number_field_def sign_text_def base_text_def digits_text_def spec_flag_def hex_lower_def Let_def)
  with chars.put_int_spec_appends [OF assms(1), of ?f junk] f assms show ?thesis by simp
qed

theorem pad_hex_written_witness:
  "\<exists>w'. put_int_spec (memory_grow (CHR ''?'')) (pad_spec (hex 32 51966) 8 (CHR ''0'')) (memory_writer (CHR ''?'')) = Inr w' \<and>
    buffer_ok w' \<and> written w' = written (memory_writer (CHR ''?'')) @
      (let t = (if (51966 :: int) < 0 then ''-'' else []) @ radix_text 4 ''0123456789abcdef'' (nat \<bar>51966\<bar>)
       in replicate (8 - length t) (CHR ''0'') @ t)"
  by (rule pad_hex_written) simp_all

section \<open>FormatInt\<close>

text \<open>The buffer has room for 19 + 1 digits, a sign and a null; it is filled from its end.\<close>

definition BUFFER_SIZE :: nat where "BUFFER_SIZE = 22"

record format_int =
  fi_buffer :: string
  fi_str :: nat

function format_back :: "string \<Rightarrow> nat \<Rightarrow> nat \<Rightarrow> string \<times> nat" where
  "format_back buffer buffer_end value =
     (if value \<ge> 100 then
        (let index = (value mod 100) * 2 in
         format_back ((buffer[buffer_end - 1 := DIGITS ! (index + 1)])[buffer_end - 2 := DIGITS ! index])
           (buffer_end - 2) (value div 100))
      else if value < 10 then (buffer[buffer_end - 1 := char_of (48 + value)], buffer_end - 1)
      else
        (let index = value * 2 in
         ((buffer[buffer_end - 1 := DIGITS ! (index + 1)])[buffer_end - 2 := DIGITS ! index], buffer_end - 2)))"
  by pat_completeness auto
termination
  by (relation "measure (\<lambda>(buffer, buffer_end, value). value)") auto

declare format_back.simps [simp del]

definition format_unsigned :: "string \<Rightarrow> nat \<Rightarrow> format_int" where
  "format_unsigned junk value =
     (case format_back junk (BUFFER_SIZE - 1) value of (buffer, str) \<Rightarrow> \<lparr>fi_buffer = buffer, fi_str = str\<rparr>)"

definition FormatSigned :: "string \<Rightarrow> int \<Rightarrow> format_int" where
  "FormatSigned junk value =
     (let abs_value = nat (value mod 2 ^ 64);
          f = format_unsigned junk (if value < 0 then nat ((0 - int abs_value) mod 2 ^ 64) else abs_value)
      in if value < 0 then \<lparr>fi_buffer = (fi_buffer f)[fi_str f - 1 := CHR ''-''], fi_str = fi_str f - 1\<rparr> else f)"

definition fi_size :: "format_int \<Rightarrow> nat" where
  "fi_size f = BUFFER_SIZE - 1 - fi_str f"

definition fi_c_str :: "format_int \<Rightarrow> format_int" where
  "fi_c_str f = f\<lparr>fi_buffer := (fi_buffer f)[BUFFER_SIZE - 1 := CHR 0x00]\<rparr>"

definition fi_text :: "format_int \<Rightarrow> string" where
  "fi_text f = take (fi_size f) (drop (fi_str f) (fi_buffer f))"

lemma format_back_digits:
  assumes "length (dec_nat v) \<le> length us"
  shows "format_back (us @ rest) (length us) v =
    (take (length us - length (dec_nat v)) us @ dec_nat v @ rest, length us - length (dec_nat v))"
  using assms
proof (induction v arbitrary: us rest rule: less_induct)
  case (less v)
  consider "v < 10" | "10 \<le> v" "v < 100" | "100 \<le> v" by linarith
  then show ?case
  proof cases
    case 1
    then have "dec_nat v = [digit_char v]" by (simp add: dec_nat.simps [of v])
    moreover from this less.prems obtain us' x where "us = us' @ [x]" by (cases us rule: rev_cases) auto
    ultimately show ?thesis using 1 by (subst format_back.simps) (simp add: digit_char_def)
  next
    case 2
    then have d: "dec_nat v = [digit_char (v div 10), digit_char (v mod 10)]"
      by (simp add: dec_nat.simps [of v] dec_nat.simps [of "v div 10"])
    with less.prems obtain us' x y where us: "us = us' @ [x, y]"
      by (cases us rule: rev_cases; cases "butlast us" rule: rev_cases) auto
    show ?thesis unfolding us d using 2 DIGITS_pair [of v]
      by (subst format_back.simps) (simp add: Let_def list_update_append)
  next
    case 3
    let ?q = "v div 100" and ?r = "v mod 100"
    have d: "dec_nat v = dec_nat ?q @ [digit_char (?r div 10), digit_char (?r mod 10)]"
      by (rule dec_nat_hundred [OF 3])
    with less.prems obtain us' x y where us: "us = us' @ [x, y]"
      by (cases us rule: rev_cases; cases "butlast us" rule: rev_cases) auto
    have step: "format_back (us @ rest) (length us) v =
        format_back (us' @ [digit_char (?r div 10), digit_char (?r mod 10)] @ rest) (length us') ?q"
      unfolding us using 3 DIGITS_pair [of ?r]
      by (subst format_back.simps) (simp add: Let_def list_update_append)
    have "length (dec_nat ?q) \<le> length us'" using less.prems by (simp add: us d)
    with 3 have "format_back (us' @ [digit_char (?r div 10), digit_char (?r mod 10)] @ rest) (length us') ?q =
        (take (length us' - length (dec_nat ?q)) us' @ dec_nat ?q @ [digit_char (?r div 10), digit_char (?r mod 10)] @ rest,
         length us' - length (dec_nat ?q))"
      by (intro less.IH) simp_all
    then show ?thesis unfolding step by (simp add: us d)
  qed
qed

lemma format_unsigned_text:
  assumes "v < 2 ^ 64" and "length junk = BUFFER_SIZE"
  shows "fi_text (format_unsigned junk v) = dec_nat v \<and> 0 < fi_str (format_unsigned junk v) \<and>
    length (fi_buffer (format_unsigned junk v)) = BUFFER_SIZE \<and>
    fi_str (format_unsigned junk v) = BUFFER_SIZE - 1 - length (dec_nat v)"
proof -
  have len: "length (dec_nat v) \<le> 20" using assms(1) by (intro dec_nat_length) simp_all
  obtain us x where j: "junk = us @ [x]" and us: "length us = BUFFER_SIZE - 1"
    using assms(2) by (cases junk rule: rev_cases) (auto simp: BUFFER_SIZE_def)
  have f: "format_unsigned junk v =
      \<lparr>fi_buffer = take (21 - length (dec_nat v)) us @ dec_nat v @ [x], fi_str = 21 - length (dec_nat v)\<rparr>"
    using format_back_digits [of v us "[x]"] len us by (simp add: format_unsigned_def j BUFFER_SIZE_def)
  show ?thesis using len us by (simp add: f fi_text_def fi_size_def BUFFER_SIZE_def)
qed

text \<open>
  In detail: \<open>FormatInt\<close> holds exactly the decimal text of every signed 64-bit value, and the pointer into its
  buffer of 22 characters never leaves it, sign included; \<open>c_str()\<close> ends the text with a null inside the
  buffer.
\<close>

theorem format_int_exact:
  assumes "- (2 ^ 63) \<le> value" and "value < 2 ^ 63" and "length junk = BUFFER_SIZE"
  shows "fi_text (FormatSigned junk value) = dec_int value \<and> fi_str (FormatSigned junk value) < BUFFER_SIZE \<and>
    drop (fi_str (FormatSigned junk value)) (fi_buffer (fi_c_str (FormatSigned junk value))) = dec_int value @ [CHR 0x00]"
proof -
  let ?n = "nat \<bar>value\<bar>"
  let ?u = "format_unsigned junk ?n"
  have n64: "?n < 2 ^ 64" using assms by auto
  then have "length (dec_nat ?n) \<le> 20" by (intro dec_nat_length) simp_all
  note u = format_unsigned_text [OF n64 assms(3)]
  have "value < 2 ^ 64" using assms(2) by simp
  then have abs: "\<lbrakk>value < 0\<rbrakk> \<Longrightarrow> nat ((0 - int (nat (value mod 2 ^ 64))) mod 2 ^ 64) = ?n"
    "\<lbrakk>\<not> value < 0\<rbrakk> \<Longrightarrow> nat (value mod 2 ^ 64) = ?n"
    using abs_value_exact [of 64 "value"] assms(1) by simp_all
  have sel: "FormatSigned junk value =
      (if value < 0 then \<lparr>fi_buffer = (fi_buffer ?u)[fi_str ?u - 1 := CHR ''-''], fi_str = fi_str ?u - 1\<rparr> else ?u)"
    using abs assms by (auto simp: FormatSigned_def Let_def)
  define p where "p = fi_str ?u"
  define B where "B = fi_buffer ?u"
  have lenB: "length B = 22" and p: "0 < p" "p = 21 - length (dec_nat ?n)" "p < 22"
    and digits: "take (21 - p) (drop p B) = dec_nat ?n"
    using u by (auto simp: B_def p_def BUFFER_SIZE_def fi_text_def fi_size_def)
  obtain us v ws x where B: "B = us @ (v # ws @ [x])" and us: "length us = p - 1" and ws: "ws = dec_nat ?n"
  proof -
    have "B = take (p - 1) B @ B ! (p - 1) # drop p B"
      using id_take_nth_drop [of "p - 1" B] lenB p(1,3) by simp
    moreover have "drop p B = take (21 - p) (drop p B) @ [B ! 21]"
    proof -
      have "length (drop p B) = Suc (21 - p)" using lenB p by simp
      then have "drop p B = take (21 - p) (drop p B) @ [drop p B ! (21 - p)]"
        by (metis lessI take_Suc_conv_app_nth take_all_iff order_refl)
      with p lenB show ?thesis by simp
    qed
    ultimately show ?thesis using that [of "take (p - 1) B" "B ! (p - 1)" "dec_nat ?n" "B ! 21"] digits lenB p by simp
  qed
  have pp: "p = Suc (length us)" using us p(1) by linarith
  have ws': "length ws = 21 - p" using lenB pp by (simp add: B)
  show ?thesis
  proof (cases "value < 0")
    case True
    then have s: "FormatSigned junk value = \<lparr>fi_buffer = us @ CHR ''-'' # ws @ [x], fi_str = length us\<rparr>"
      unfolding sel p_def [symmetric] B_def [symmetric] by (simp add: B pp)
    have "dec_int value = CHR ''-'' # ws" using True by (simp add: dec_int_def ws)
    moreover have "21 - length us = Suc (length ws)" using ws' pp p(3) by linarith
    ultimately show ?thesis using ws' pp p
      by (simp add: s fi_text_def fi_size_def fi_c_str_def BUFFER_SIZE_def list_update_append)
  next
    case False
    then have "FormatSigned junk value = \<lparr>fi_buffer = B, fi_str = p\<rparr>"
      unfolding sel p_def B_def by simp
    then have s: "FormatSigned junk value = \<lparr>fi_buffer = us @ v # ws @ [x], fi_str = Suc (length us)\<rparr>"
      by (simp add: B pp)
    have "dec_int value = ws" using False by (simp add: dec_int_def ws)
    moreover have "21 - length us = Suc (length ws)" using ws' pp p(3) by linarith
    ultimately show ?thesis using ws' pp p
      by (simp add: s fi_text_def fi_size_def fi_c_str_def BUFFER_SIZE_def list_update_append)
  qed
qed

theorem format_int_exact_witness:
  "fi_text (FormatSigned (replicate 22 (CHR ''?'')) (-9223372036854775808)) = dec_int (-9223372036854775808) \<and>
   fi_str (FormatSigned (replicate 22 (CHR ''?'')) (-9223372036854775808)) < BUFFER_SIZE \<and>
   drop (fi_str (FormatSigned (replicate 22 (CHR ''?'')) (-9223372036854775808)))
     (fi_buffer (fi_c_str (FormatSigned (replicate 22 (CHR ''?'')) (-9223372036854775808)))) =
     dec_int (-9223372036854775808) @ [CHR 0x00]"
  by (rule format_int_exact) (simp_all add: BUFFER_SIZE_def)

end
