(* ===== verification/RecordText.thy ===== *)
theory RecordText
  imports Records FmtWriter
begin

text \<open>
  The texts of records: \<open>SysRecord::to_string\<close> and \<open>SysParamsRecord::to_string\<close>
  (\<open>include/sensor/trace/sys_record.h\<close>, \<open>sys_params_record.h\<close>), through the model of \<open>fmt::format\<close>, and
  that the text determines the record.
\<close>

section \<open>to_string\<close>

definition record_to_string :: "char \<Rightarrow> ('a) sys_record_scheme \<Rightarrow> string outcome" where
  "record_to_string junk r =
     format_string junk [CHR 0x27, CHR 0x7B, CHR ''0'', CHR 0x7D, CHR 0x27, CHR '','', CHR 0x27, CHR 0x7B, CHR ''1'', CHR 0x7D, CHR 0x27]
       [C_int (rec_pid r), C_short (rec_syscall r)]"

definition params_to_string :: "char \<Rightarrow> sys_params_record \<Rightarrow> string outcome" where
  "params_to_string junk r =
     format_string junk
       [CHR 0x27, CHR 0x7B, CHR ''0'', CHR 0x7D, CHR 0x27, CHR '','', CHR 0x27, CHR 0x7B, CHR ''1'', CHR 0x7D, CHR 0x27, CHR '','',
        CHR 0x27, CHR 0x7B, CHR ''2'', CHR 0x7D, CHR 0x27, CHR '','', CHR 0x27, CHR 0x7B, CHR ''3'', CHR 0x7D, CHR 0x27]
       [C_string (rec_name r), C_int (rec_pid r), C_short (rec_syscall r), C_string (rec_arg r)]"

text \<open>The values a record can hold: an \<open>int\<close> and a \<open>short\<close>.\<close>

definition record_ok :: "('a) sys_record_scheme \<Rightarrow> bool" where
  "record_ok r \<longleftrightarrow> in_int32 (rec_pid r) \<and> - (2 ^ 15) \<le> rec_syscall r \<and> rec_syscall r < 2 ^ 15"

definition quote :: "string \<Rightarrow> string" where
  "quote s = CHR 0x27 # s @ [CHR 0x27]"

definition record_text :: "('a) sys_record_scheme \<Rightarrow> string" where
  "record_text r = quote (dec_int (rec_pid r)) @ '','' @ quote (dec_int (rec_syscall r))"

definition params_text :: "sys_params_record \<Rightarrow> string" where
  "params_text r = quote (rec_name r) @ '','' @ quote (dec_int (rec_pid r)) @ '','' @
     quote (dec_int (rec_syscall r)) @ '','' @ quote (rec_arg r)"

lemma dec_nat_small: "dec_nat 0 = ''0''" "dec_nat (Suc 0) = ''1''" "dec_nat 2 = ''2''" "dec_nat 3 = ''3''"
  by (simp_all add: dec_nat.simps digit_char_def char_of_def bit_0 bit_Suc)

lemma record_to_string_text: "record_ok r \<Longrightarrow> record_to_string junk r = Inr (record_text r)"
proof -
  assume ok: "record_ok r"
  let ?ps = "[Lit [CHR 0x27], Manual 0, Lit [CHR 0x27, CHR '','', CHR 0x27], Manual (Suc 0), Lit [CHR 0x27]]"
  have "format_string junk (render ?ps) [C_int (rec_pid r), C_short (rec_syscall r)] = Inr (record_text r)"
    using ok by (intro format_string_pieces) (simp_all add: record_ok_def in_int32_def record_text_def quote_def)
  then show ?thesis by (simp add: record_to_string_def dec_nat_small)
qed

lemma params_to_string_text: "record_ok r \<Longrightarrow> params_to_string junk r = Inr (params_text r)"
proof -
  assume ok: "record_ok r"
  let ?q = "Lit [CHR 0x27, CHR '','', CHR 0x27]"
  let ?ps = "[Lit [CHR 0x27], Manual 0, ?q, Manual (Suc 0), ?q, Manual 2, ?q, Manual 3, Lit [CHR 0x27]]"
  have "format_string junk (render ?ps)
      [C_string (rec_name r), C_int (rec_pid r), C_short (rec_syscall r), C_string (rec_arg r)] = Inr (params_text r)"
    using ok by (intro format_string_pieces) (simp_all add: record_ok_def in_int32_def params_text_def quote_def)
  then show ?thesis by (simp add: params_to_string_def dec_nat_small)
qed

section \<open>The text determines the record\<close>

lemma dec_nat_inject [simp]: "dec_nat m = dec_nat n \<longleftrightarrow> m = n"
  using dec_value_dec_nat by (metis of_nat_eq_iff)

lemma dec_nat_no_char: "\<not> is_digit c \<Longrightarrow> c \<notin> set (dec_nat n)"
  using dec_nat_digits [of n] by (auto simp: list_all_iff)

lemma dec_int_no_quote: "CHR 0x27 \<notin> set (dec_int i)"
  using dec_nat_no_char [of "CHR 0x27"] by (simp add: dec_int_def is_digit_def)

lemma is_digit_minus: "\<not> is_digit (CHR ''-'')"
  by (simp add: is_digit_def)

lemma dec_int_inject [simp]: "dec_int i = dec_int j \<longleftrightarrow> i = j"
proof
  have minus: "CHR ''-'' # s \<noteq> dec_nat n" for s n
    using dec_nat_no_char [of "CHR ''-''" n] by (metis is_digit_minus list.set_intros(1))
  assume "dec_int i = dec_int j"
  then show "i = j" using minus minus [THEN not_sym] by (auto simp: dec_int_def split: if_splits)
qed simp

text \<open>A text that ends in \<open>q s\<close> with no \<open>q\<close> in \<open>s\<close> splits in one way.\<close>

lemma last_split_unique:
  assumes "xs @ q # s = ys @ q # t" and "q \<notin> set s" and "q \<notin> set t"
  shows "xs = ys \<and> s = t"
proof -
  from assms(1) have "rev s @ q # rev xs = rev t @ q # rev ys"
    by (metis append.assoc append_Cons append_Nil rev.simps(2) rev_append)
  moreover have "takeWhile (\<lambda>c. c \<noteq> q) (rev s @ q # u) = rev s" if "q \<notin> set s" for s u
    using that by (auto simp: takeWhile_append)
  ultimately have "rev s = rev t" using assms(2,3) by metis
  with assms(1) show ?thesis by simp
qed

lemma params_text_inject:
  assumes "rec_arg r = []" and "rec_arg r' = []" and "params_text r = params_text r'"
  shows "r = r'"
proof -
  let ?q = "CHR 0x27 :: char"
  have "(quote (rec_name r) @ '','' @ quote (dec_int (rec_pid r)) @ '','') @ ?q # dec_int (rec_syscall r) =
        (quote (rec_name r') @ '','' @ quote (dec_int (rec_pid r')) @ '','') @ ?q # dec_int (rec_syscall r')"
    using assms by (simp add: params_text_def quote_def)
  from last_split_unique [OF this dec_int_no_quote dec_int_no_quote]
  have nr: "rec_syscall r = rec_syscall r'"
    and rest: "(quote (rec_name r) @ '','') @ ?q # dec_int (rec_pid r) = (quote (rec_name r') @ '','') @ ?q # dec_int (rec_pid r')"
    by (simp_all add: quote_def)
  from last_split_unique [OF rest dec_int_no_quote dec_int_no_quote]
  have "rec_pid r = rec_pid r'" "rec_name r = rec_name r'" by (simp_all add: quote_def)
  with nr assms show ?thesis by simp
qed

text \<open>
  C38: \<open>to_string\<close> of a record never fails, whatever fresh storage holds, and gives its name, task number,
  system call and parameters between quotes; although nothing in the name is escaped, the text determines
  the record as long as the parameters are empty, which they are for every record the collector makes.
\<close>

theorem params_to_string_faithful:
  assumes "record_ok r" and "record_ok r'" and "rec_arg r = []" and "rec_arg r' = []"
  shows "params_to_string junk r = Inr (quote (rec_name r) @ '','' @ quote (dec_int (rec_pid r)) @ '','' @
      quote (dec_int (rec_syscall r)) @ '','' @ quote []) \<and>
    (params_to_string junk r = params_to_string junk' r' \<longleftrightarrow> r = r')"
  using assms params_to_string_text [OF assms(1)] params_to_string_text [OF assms(2)] params_text_inject [OF assms(3,4)]
  by (auto simp: params_text_def)

definition quote_record :: sys_params_record where
  "quote_record = \<lparr>rec_pid = 812, rec_syscall = 39, rec_name = [CHR 0x27, CHR ''x''], rec_arg = []\<rparr>"

definition plain_record :: sys_params_record where
  "plain_record = \<lparr>rec_pid = 81, rec_syscall = 39, rec_name = ''y'', rec_arg = []\<rparr>"

theorem params_to_string_faithful_witness:
  "params_to_string (CHR ''?'') quote_record =
     Inr (quote (rec_name quote_record) @ '','' @ quote (dec_int (rec_pid quote_record)) @ '','' @
       quote (dec_int (rec_syscall quote_record)) @ '','' @ quote []) \<and>
   (params_to_string (CHR ''?'') quote_record = params_to_string (CHR ''!'') plain_record \<longleftrightarrow> quote_record = plain_record)"
  by (rule params_to_string_faithful) (simp_all add: quote_record_def plain_record_def record_ok_def in_int32_def)

end
