(* ===== verification/Sockets.thy ===== *)
theory Sockets
  imports Prelude
begin

text \<open>
  The two socket classes, \<open>linux_socket\<close> and \<open>linux_server_socket\<close> (\<open>include/socket/linux_socket.h\<close>,
  \<open>linux_server_socket.h\<close>). The kernel's answers are arguments of the operations; every operation
  returns, beside its result, the system calls it made with these answers. What the classes do not
  initialise is whatever it was: the first value of \<open>socket_id\<close> is an argument of the constructor.
\<close>

section \<open>System calls\<close>

datatype sys_call =
    SysSocket int | SysConnect int string nat int | SysBind int nat int | SysListen int nat
  | SysAccept int int | SysClose int | SysSend int string | SysRead int nat int

text \<open>\<open>htons\<close> takes the low 16 bits of the port; \<open>sin_port\<close> then reads as that number on the wire.\<close>

definition wire_port :: "int \<Rightarrow> nat" where
  "wire_port port = nat (port mod 2 ^ 16)"

text \<open>The descriptors a sequence of calls has opened and not closed, in the order they were opened.\<close>

fun open_fds :: "int list \<Rightarrow> sys_call list \<Rightarrow> int list" where
  "open_fds fds [] = fds"
| "open_fds fds (SysSocket r # cs) = open_fds (if r < 0 then fds else fds @ [r]) cs"
| "open_fds fds (SysAccept s r # cs) = open_fds (if r < 0 then fds else fds @ [r]) cs"
| "open_fds fds (SysClose fd # cs) = open_fds (filter (\<lambda>d. d \<noteq> fd) fds) cs"
| "open_fds fds (c # cs) = open_fds fds cs"

lemma open_fds_append: "open_fds fds (cs @ ds) = open_fds (open_fds fds cs) ds"
  by (induction fds cs rule: open_fds.induct) auto

section \<open>The client socket\<close>

record linux_socket =
  ls_id :: int
  ls_address :: string
  ls_port :: int

definition ls_make :: "int \<Rightarrow> string \<Rightarrow> int \<Rightarrow> linux_socket" where
  "ls_make junk address port = \<lparr>ls_id = junk, ls_address = address, ls_port = port\<rparr>"

definition ls_clean_up :: "linux_socket \<Rightarrow> sys_call list" where
  "ls_clean_up s = [SysClose (ls_id s)]"

definition ls_connect :: "int \<Rightarrow> int \<Rightarrow> linux_socket \<Rightarrow> bool \<times> linux_socket \<times> sys_call list" where
  "ls_connect sock conn s =
     (let s' = s\<lparr>ls_id := sock\<rparr> in
      if sock < 0 then (False, s', [SysSocket sock])
      else
        let cs = [SysSocket sock, SysConnect sock (ls_address s) (wire_port (ls_port s)) conn] in
        if conn \<noteq> 0 then (False, s', cs @ (if sock \<noteq> 0 then ls_clean_up s' else []))
        else (True, s', cs))"

text \<open>\<open>send\<close> ignores the answer of the kernel.\<close>

definition ls_send :: "string \<Rightarrow> linux_socket \<Rightarrow> sys_call list" where
  "ls_send buffer s = [SysSend (ls_id s) buffer]"

text \<open>\<open>read\<close> answers a count and fills the array of 1024 characters, the argument \<open>server_reply\<close>.\<close>

definition ls_receive :: "int \<Rightarrow> string \<Rightarrow> linux_socket \<Rightarrow> string outcome \<times> sys_call list" where
  "ls_receive recv_size server_reply s =
     (if recv_size < 1 then Inr [] else range_chars server_reply 0 recv_size, [SysRead (ls_id s) 1024 recv_size])"

definition ls_destroy :: "linux_socket \<Rightarrow> sys_call list" where
  "ls_destroy s = ls_clean_up s"

section \<open>The server socket\<close>

record server_socket =
  lss_id :: int
  lss_client :: int
  lss_address :: string
  lss_port :: int

definition lss_make :: "int \<Rightarrow> int \<Rightarrow> string \<Rightarrow> int \<Rightarrow> server_socket" where
  "lss_make junk1 junk2 address port =
     \<lparr>lss_id = junk1, lss_client = junk2, lss_address = address, lss_port = port\<rparr>"

definition lss_clean_up :: "server_socket \<Rightarrow> sys_call list" where
  "lss_clean_up s = [SysClose (lss_client s), SysClose (lss_id s)]"

definition lss_connect :: "int \<Rightarrow> int \<Rightarrow> server_socket \<Rightarrow> bool \<times> server_socket \<times> sys_call list" where
  "lss_connect sock conn s =
     (let s' = s\<lparr>lss_id := sock\<rparr> in
      if sock < 0 then (False, s', [SysSocket sock])
      else
        let cs = [SysSocket sock, SysConnect sock (lss_address s) (wire_port (lss_port s)) conn] in
        if conn \<noteq> 0 then (False, s', cs @ (if sock \<noteq> 0 then lss_clean_up s' else []))
        else (True, s', cs))"

definition lss_listen :: "int \<Rightarrow> int \<Rightarrow> int \<Rightarrow> server_socket \<Rightarrow> bool \<times> server_socket \<times> sys_call list" where
  "lss_listen sock bound client s =
     (let s1 = s\<lparr>lss_id := sock\<rparr> in
      if sock = -1 then (False, s1, [SysSocket sock])
      else
        let cs = [SysSocket sock, SysBind sock (wire_port (lss_port s)) bound] in
        if bound = -1 then (False, s1, cs)
        else
          let s2 = s1\<lparr>lss_client := client\<rparr>;
              cs' = cs @ [SysListen sock 3, SysAccept sock client]
          in (client \<noteq> -1, s2, cs'))"

definition lss_close :: "server_socket \<Rightarrow> sys_call list" where
  "lss_close s = [SysClose (lss_client s), SysClose (lss_id s)]"

text \<open>The test is \<open>< -1\<close>, and \<open>read\<close> never answers less than -1.\<close>

definition lss_receive :: "int \<Rightarrow> string \<Rightarrow> server_socket \<Rightarrow> string outcome \<times> sys_call list" where
  "lss_receive recv_size server_reply s =
     (if recv_size < -1 then Inr [] else range_chars server_reply 0 recv_size, [SysRead (lss_client s) 1024 recv_size])"

definition lss_send :: "int \<Rightarrow> string \<Rightarrow> server_socket \<Rightarrow> int \<times> sys_call list" where
  "lss_send answer buffer s = (answer, [SysSend (lss_client s) buffer])"

definition lss_destroy :: "server_socket \<Rightarrow> sys_call list" where
  "lss_destroy s = lss_clean_up s"

section \<open>Reading\<close>

lemma received:
  assumes "0 \<le> n" and "n \<le> int (length reply)"
  shows "range_chars reply 0 n = Inr (take (nat n) reply)"
  using range_chars_valid [of 0 "nat n" reply] assms by simp

text \<open>
  For every answer \<open>read\<close> can give, the client's \<open>receive\<close> returns exactly the characters read, and the
  empty string at the end of the stream or on an error; the server's \<open>receive\<close> agrees except on the answer
  -1, where it builds a string from a reversed range.
\<close>

theorem receive_answers:
  assumes "-1 \<le> n" and "n \<le> 1024" and "length reply = 1024"
  shows "fst (ls_receive n reply s) = Inr (take (nat n) reply) \<and>
    fst (lss_receive n reply t) = (if n = -1 then Inl BadRange else Inr (take (nat n) reply))"
  using assms received [of n reply]
  by (auto simp: ls_receive_def lss_receive_def range_chars_reversed)

theorem receive_answers_witness:
  "fst (ls_receive (-1) (replicate 1024 (CHR ''?'')) (ls_make 0 ''127.0.0.1'' 8787)) = Inr (take (nat (-1)) (replicate 1024 (CHR ''?''))) \<and>
   fst (lss_receive (-1) (replicate 1024 (CHR ''?'')) (lss_make 3 4 ''localhost'' 8787)) =
     (if (-1 :: int) = -1 then Inl BadRange else Inr (take (nat (-1)) (replicate 1024 (CHR ''?''))))"
  by (rule receive_answers) simp_all

section \<open>Descriptors\<close>

text \<open>
  \<open>while (!_socket.listen()) sleep_sec(1)\<close> in \<open>multithreaded_sensor::run\<close>: the answers of \<open>socket\<close>,
  \<open>bind\<close> and \<open>accept\<close> for each turn; \<open>None\<close> is a loop that has not ended with the answers given.
\<close>

fun listen_loop :: "(int \<times> int \<times> int) list \<Rightarrow> server_socket \<Rightarrow> (server_socket option \<times> sys_call list)" where
  "listen_loop [] s = (None, [])"
| "listen_loop ((sock, bound, client) # answers) s =
     (case lss_listen sock bound client s of (ok, s', cs) \<Rightarrow>
        if ok then (Some s', cs)
        else (case listen_loop answers s' of (r, cs') \<Rightarrow> (r, cs @ cs')))"

lemma failed_listens_open:
  assumes "list_all (\<lambda>(sock, bound, client). 0 \<le> sock \<and> bound = -1) failed"
  shows "\<exists>cs' s'. listen_loop (failed @ answers) s = (fst (listen_loop answers s'), cs' @ snd (listen_loop answers s')) \<and>
    open_fds fds cs' = fds @ map fst failed \<and> lss_client s' = lss_client s \<and>
    lss_id s' = (if failed = [] then lss_id s else fst (last failed))"
  using assms
proof (induction failed arbitrary: s fds)
  case Nil
  have "open_fds fds [] = fds" by simp
  then show ?case by (metis append_Nil append_Nil2 list.simps(8) prod.collapse)
next
  case (Cons a failed)
  obtain sock bound client where a: "a = (sock, bound, client)" by (cases a)
  with Cons.prems have "0 \<le> sock" "bound = -1" and rest: "list_all (\<lambda>(sock, bound, client). 0 \<le> sock \<and> bound = -1) failed"
    by auto
  then have l: "lss_listen sock bound client s =
      (False, s\<lparr>lss_id := sock\<rparr>, [SysSocket sock, SysBind sock (wire_port (lss_port s)) bound])"
    by (simp add: lss_listen_def Let_def)
  obtain cs' s' where IH: "listen_loop (failed @ answers) (s\<lparr>lss_id := sock\<rparr>) =
        (fst (listen_loop answers s'), cs' @ snd (listen_loop answers s'))"
      "open_fds (fds @ [sock]) cs' = (fds @ [sock]) @ map fst failed" "lss_client s' = lss_client s"
      "lss_id s' = (if failed = [] then sock else fst (last failed))"
    using Cons.IH [OF rest, of "s\<lparr>lss_id := sock\<rparr>" "fds @ [sock]"] by auto
  let ?cs = "[SysSocket sock, SysBind sock (wire_port (lss_port s)) bound] @ cs'"
  have "listen_loop ((a # failed) @ answers) s = (fst (listen_loop answers s'), ?cs @ snd (listen_loop answers s'))"
    using IH(1) by (simp add: a l)
  moreover have "open_fds fds ?cs = fds @ map fst (a # failed)"
    using IH(2) \<open>0 \<le> sock\<close> by (simp add: a)
  ultimately show ?case using IH(3,4) a by (intro exI [of _ ?cs] exI [of _ s']) auto
qed

text \<open>
  Every turn of the listening loop whose \<open>bind\<close> fails leaves the descriptor it created open: after any
  number of such turns and a successful one, all of them are still open when the socket has been closed,
  and the destructor closes the two descriptors of the last turn a second time.
\<close>

theorem failed_listens_leak:
  assumes "list_all (\<lambda>(sock, bound, client). 0 \<le> sock \<and> bound = -1) failed"
    and "distinct (map fst failed @ [sock, client])" and "0 \<le> sock" and "0 \<le> client" and "bound \<noteq> -1"
  shows "\<exists>s' calls. listen_loop (failed @ [(sock, bound, client)]) s = (Some s', calls) \<and>
    open_fds [] (calls @ lss_close s') = map fst failed \<and>
    lss_close s' = [SysClose client, SysClose sock] \<and> lss_destroy s' = lss_close s'"
proof -
  obtain cs' s' where l: "listen_loop (failed @ [(sock, bound, client)]) s =
        (fst (listen_loop [(sock, bound, client)] s'), cs' @ snd (listen_loop [(sock, bound, client)] s'))"
      and o: "open_fds [] cs' = map fst failed"
    using failed_listens_open [OF assms(1), of "[(sock, bound, client)]" s "[]"] by auto
  have ok: "listen_loop [(sock, bound, client)] s' =
      (Some (s'\<lparr>lss_id := sock, lss_client := client\<rparr>),
       [SysSocket sock, SysBind sock (wire_port (lss_port s')) bound, SysListen sock 3, SysAccept sock client])"
    using assms(3-5) by (simp add: lss_listen_def Let_def)
  have "filter (\<lambda>d. d \<noteq> sock) (filter (\<lambda>d. d \<noteq> client) (map fst failed @ [sock, client])) = map fst failed"
    using assms(2) by (auto simp: filter_id_conv)
  with l ok o assms(3,4) show ?thesis
    by (simp add: open_fds_append lss_close_def lss_destroy_def lss_clean_up_def)
qed

theorem failed_listens_leak_witness:
  "\<exists>s' calls. listen_loop ([(3, -1, 0), (4, -1, 0)] @ [(5, 0, 6)]) (lss_make 0 0 ''localhost'' 8787) = (Some s', calls) \<and>
    open_fds [] (calls @ lss_close s') = map fst [(3, -1 :: int, 0 :: int), (4, -1, 0)] \<and>
    lss_close s' = [SysClose 6, SysClose 5] \<and> lss_destroy s' = lss_close s'"
  by (rule failed_listens_leak) simp_all

text \<open>A client whose connection is refused closes the descriptor twice, the second time in its destructor.\<close>

lemma refused_closed_twice:
  assumes "0 < sock" and "conn \<noteq> 0"
  shows "\<exists>s' calls. ls_connect sock conn s = (False, s', calls @ [SysClose sock]) \<and> ls_destroy s' = [SysClose sock]"
  using assms by (simp add: ls_connect_def ls_clean_up_def ls_destroy_def Let_def)

end
