(* ===== verification/Daemon.thy ===== *)
theory Daemon
  imports Sensor Sockets
begin

text \<open>
  The command \<open>syscall_sensor start | status | stop\<close>: the pid file and the daemon's birth and death
  (\<open>include/utils/linux_daemon.h\<close>) and \<open>main\<close> with \<open>setup_stream\<close> (\<open>main.cpp\<close>). The answers of the operating
  system are arguments; what the process does to it is a log of actions, beside the files it writes.
\<close>

section \<open>Numbers in texts\<close>

text \<open>
  The decimal number that \<open>std::atoi\<close> and \<open>operator>>\<close> read: white space, a sign, digits. \<open>None\<close> when
  there is no digit.
\<close>

definition is_space :: "char \<Rightarrow> bool" where
  "is_space c \<longleftrightarrow> c = CHR '' '' \<or> (9 \<le> (of_char c :: nat) \<and> (of_char c :: nat) \<le> 13)"

definition read_number :: "string \<Rightarrow> int option" where
  "read_number s =
     (let (neg, t) = (case s of [] \<Rightarrow> (False, [])
                      | c # r \<Rightarrow> if c = CHR ''-'' then (True, r) else if c = CHR ''+'' then (False, r) else (False, s));
          ds = takeWhile is_digit t
      in if ds = [] then None else Some (if neg then - dec_value 0 ds else dec_value 0 ds))"

text \<open>\<open>file >> pid\<close>: an empty file leaves the variable alone, a bad number sets it to 0, a large one to the limit.\<close>

definition extract_int :: "string \<Rightarrow> int \<Rightarrow> int" where
  "extract_int s old =
     (let t = dropWhile is_space s in
      if t = [] then old
      else case read_number t of None \<Rightarrow> 0 | Some n \<Rightarrow> max (- (2 ^ 31)) (min (2 ^ 31 - 1) n))"

definition atoi :: "string \<Rightarrow> int outcome" where
  "atoi s =
     (case read_number (dropWhile is_space s) of
        None \<Rightarrow> Inr 0
      | Some n \<Rightarrow> if in_int32 n then Inr n else Inl SignedOverflow)"

section \<open>The process\<close>

datatype action =
    Kill int int | Print string | SleepSec nat | Fork int | Umask nat | Setsid int | Chdir string int | CloseFd int
  | MakeSink sink | RunSensor bool
and sink = SocketSink string int | FileSink string | AggrSink string | DumySink

record process =
  pr_machine :: machine
  pr_log :: "action list"

definition act :: "action \<Rightarrow> process \<Rightarrow> process" where
  "act a p = p\<lparr>pr_log := pr_log p @ [a]\<rparr>"

definition pr_write :: "string \<Rightarrow> string \<Rightarrow> process \<Rightarrow> process" where
  "pr_write f c p = p\<lparr>pr_machine := write_to f c True (pr_machine p)\<rparr>"

text \<open>How a function ended: it returned, it called \<open>exit\<close>, or its behaviour is undefined from there.\<close>

datatype 'a ended = Returned 'a | Exited int | Undefined fault

definition SIGKILL :: int where "SIGKILL = 9"
definition ESRCH :: int where "ESRCH = 3"

definition pid_path :: "string \<Rightarrow> string \<Rightarrow> string" where
  "pid_path deamon_name run_path = run_path @ ''/'' @ deamon_name @ ''.pid''"

section \<open>linux_daemon.h\<close>

text \<open>The answers of \<open>fork\<close>, \<open>getpid\<close>, \<open>setsid\<close> and \<open>chdir\<close>.\<close>

record os_answers =
  os_fork :: int
  os_getpid :: int
  os_setsid :: int
  os_chdir :: int

definition setup_daemon :: "os_answers \<Rightarrow> string \<Rightarrow> string \<Rightarrow> process \<Rightarrow> process \<times> unit ended" where
  "setup_daemon os deamon_name run_path p =
     (let p = act (Fork (os_fork os)) p in
      if os_fork os < 0 then (p, Exited 1)
      else if os_fork os > 0 then
        (act (Print (''You can stop the process by the following command '' @ [CHR 0x27] @ deamon_name @ '' stop'' @ [CHR 0x0A]))
           (act (Print (''Creating a daemon process pid= '' @ dec_int (os_fork os) @ [CHR 0x0A])) p), Exited 0)
      else
        let p = pr_write (run_path @ ''/'' @ deamon_name @ ''.pid'') (dec_int (os_getpid os)) p;
            p = act (Setsid (os_setsid os)) (act (Umask 0) p)
        in if os_setsid os < 0 then (p, Exited 1)
           else
             let p = act (Chdir ''/'' (os_chdir os)) p in
             if os_chdir os < 0 then (p, Exited 1)
             else (act (CloseFd 2) (act (CloseFd 1) (act (CloseFd 0) p)), Returned ()))"

definition get_sensor_pid :: "string \<Rightarrow> string \<Rightarrow> process \<Rightarrow> int" where
  "get_sensor_pid deamon_name run_path p =
     (case files (pr_machine p) (run_path @ ''/'' @ deamon_name @ ''.pid'') of
        None \<Rightarrow> -1
      | Some s \<Rightarrow> extract_int s (-1))"

text \<open>
  The function is declared to return an \<open>int\<close> and has no \<open>return\<close>; neither has \<open>kill_sensor\<close>. Flowing off their
  end is undefined; their callers, which ignore the value, are modelled as going on.
\<close>

definition remove_sensor_pid :: "string \<Rightarrow> string \<Rightarrow> process \<Rightarrow> process \<times> unit ended" where
  "remove_sensor_pid deamon_name run_path p =
     (p\<lparr>pr_machine := (pr_machine p)\<lparr>files := (files (pr_machine p))(run_path @ ''/'' @ deamon_name @ ''.pid'' := None)\<rparr>\<rparr>,
      Undefined MissingReturn)"

fun kill_tasks :: "int \<Rightarrow> int list \<Rightarrow> process \<Rightarrow> process" where
  "kill_tasks curr_pid [] p = p"
| "kill_tasks curr_pid (t # ts) p = kill_tasks curr_pid ts (if curr_pid \<noteq> t then act (Kill t SIGKILL) p else p)"

definition kill_sensor :: "(string \<Rightarrow> string option) \<Rightarrow> int \<Rightarrow> int \<Rightarrow> process \<Rightarrow> process \<times> unit ended" where
  "kill_sensor popen curr_pid pid p =
     (let p = pr_write (SYSCALLS_PATH @ ''/filter'') ''0'' p;
          p = pr_write (SYSCALLS_PATH @ ''/'' @ SYS_ENTRY @ ''/'' @ ''filter'') ''0'' p;
          p = pr_write (SYSCALLS_PATH @ ''/'' @ SYS_EXIT @ ''/filter'') ''0'' p;
          p = act (SleepSec 5) p
      in case get_pids popen pid of
           Inl e \<Rightarrow> (p, Undefined e)
         | Inr pids \<Rightarrow>
             (act (Kill pid SIGKILL) (pr_write (FTRACE_PATH @ ''/tracing_on'') ''0'' (kill_tasks curr_pid pids p)),
              Undefined MissingReturn))"

section \<open>main.cpp\<close>

text \<open>\<open>std::find\<close> on the arguments: the position, or the end.\<close>

fun find_arg :: "string list \<Rightarrow> string \<Rightarrow> nat" where
  "find_arg [] a = 0"
| "find_arg (x # xs) a = (if x = a then 0 else Suc (find_arg xs a))"

definition arg_at :: "string list \<Rightarrow> nat \<Rightarrow> string outcome" where
  "arg_at args i = (if i < length args then Inr (args ! i) else Inl BadDeref)"

text \<open>
  \<open>value.find(':')\<close> and the two \<open>substr\<close>: without a colon \<open>npos\<close> makes both parts the whole value
  (\<open>npos + 1\<close> is 0). A host name passed on with \<open>c_str()\<close> ends at its first null.
\<close>

definition host_port :: "string \<Rightarrow> (string \<times> int) outcome" where
  "host_port value =
     (case str_find value '':'' 0 of
        None \<Rightarrow> bind_outcome (atoi value) (\<lambda>port. Inr (value, port))
      | Some i \<Rightarrow> bind_outcome (atoi (drop (i + 1) value)) (\<lambda>port. Inr (take i value, port)))"

definition setup_stream :: "string list \<Rightarrow> sink outcome" where
  "setup_stream args =
     (if find_arg args ''-h'' \<noteq> length args then
        bind_outcome (arg_at args (find_arg args ''-h'' + 1)) (\<lambda>v.
        bind_outcome (host_port v) (\<lambda>(h, port). Inr (SocketSink h port)))
      else if find_arg args ''-o'' \<noteq> length args then
        bind_outcome (arg_at args (find_arg args ''-o'' + 1)) (\<lambda>v. Inr (FileSink v))
      else if find_arg args ''-a'' \<noteq> length args then
        bind_outcome (arg_at args (find_arg args ''-a'' + 1)) (\<lambda>v. Inr (AggrSink v))
      else Inr DumySink)"

text \<open>
  What \<open>main\<close> is answered: by \<open>kill(pid, 0)\<close>, by the operating system when it daemonises, by \<open>popen\<close>
  and \<open>getpid\<close>, and by the socket of \<open>status\<close>: whether it connects, and the texts received
  before the empty one.
\<close>

record environment =
  env_kill0 :: int
  env_os :: os_answers
  env_popen :: "string \<Rightarrow> string option"
  env_connects :: bool
  env_texts :: "string list"

fun print_texts :: "string list \<Rightarrow> process \<Rightarrow> process" where
  "print_texts [] p = p"
| "print_texts (t # ts) p = (if t = [] then p else print_texts ts (act (Print (t @ [CHR 0x0A])) p))"

definition sensor_name :: string where "sensor_name = ''syscall_sensor''"
definition run_path :: string where "run_path = ''/var/run''"

definition main_stop :: "environment \<Rightarrow> int \<Rightarrow> process \<Rightarrow> process \<times> int ended" where
  "main_stop env pid p =
     (if pid \<noteq> -1 then
        let p = act (Print (''Stopping the daemon process pid= '' @ dec_int pid @ [CHR 0x0A])) p;
            p = fst (remove_sensor_pid sensor_name run_path p)
        in case kill_sensor (env_popen env) (os_getpid (env_os env)) pid p of
             (p, Undefined e) \<Rightarrow> (p, if e = MissingReturn then Returned 0 else Undefined e)
           | (p, _) \<Rightarrow> (p, Returned 0)
      else (act (Print (''The sensor is NOT running.'' @ [CHR 0x0A])) p, Returned 0))"

definition main_status :: "environment \<Rightarrow> string list \<Rightarrow> int \<Rightarrow> process \<Rightarrow> process \<times> int ended" where
  "main_status env args pid p =
     (if pid \<noteq> -1 then
        let p = act (Print (''Gathering info about the sensor pid= '' @ dec_int pid @ [CHR 0x0A])) p in
        if find_arg args ''-h'' = length args then
          (act (Print (''You must specify the address and port to connect to the sensor'' @ [CHR 0x0A])) p, Returned 0)
        else
          case bind_outcome (arg_at args (find_arg args ''-h'' + 1)) host_port of
            Inl e \<Rightarrow> (p, Undefined e)
          | Inr (h, port) \<Rightarrow>
              if \<not> env_connects env then
                (act (Print (''The sensor is not running in logging mode.'' @ [CHR 0x0A])) p, Returned 0)
              else (print_texts (env_texts env) p, Returned 0)
      else (act (Print (''The sensor is NOT running.'' @ [CHR 0x0A])) p, Returned 0))"

definition main_start :: "environment \<Rightarrow> string list \<Rightarrow> int \<Rightarrow> process \<Rightarrow> process \<times> int ended" where
  "main_start env args pid p =
     (case setup_stream args of
        Inl e \<Rightarrow> (p, Undefined e)
      | Inr stream \<Rightarrow>
          let p = act (MakeSink stream) p in
          if pid = -1 then
            case setup_daemon (env_os env) sensor_name run_path p of
              (p, Exited c) \<Rightarrow> (p, Exited c)
            | (p, Undefined e) \<Rightarrow> (p, Undefined e)
            | (p, Returned _) \<Rightarrow>
                if find_arg args ''-r'' \<noteq> length args then (p, Returned 0)
                else
                  let p = p\<lparr>pr_machine := config_events True False (pr_machine p)\<rparr> in
                  (act (RunSensor (find_arg args ''-l'' \<noteq> length args)) p, Returned 0)
          else (act (Print (''The sensor is running.'' @ [CHR 0x0A])) p, Returned 0))"

definition main :: "environment \<Rightarrow> string list \<Rightarrow> process \<Rightarrow> process \<times> int ended" where
  "main env args p =
     (let pid = get_sensor_pid sensor_name run_path p;
          p = act (Kill pid 0) p
      in if env_kill0 env = ESRCH then
           (fst (remove_sensor_pid sensor_name run_path p), Undefined MissingReturn)
         else if find_arg args ''stop'' \<noteq> length args then main_stop env pid p
         else if find_arg args ''status'' \<noteq> length args then main_status env args pid p
         else if find_arg args ''start'' \<noteq> length args then main_start env args pid p
         else (p, Returned 0))"

section \<open>The pid file\<close>

lemma find_arg_le: "find_arg xs a \<le> length xs"
  by (induction xs) auto

lemma find_arg_in: "find_arg xs a \<noteq> length xs \<longleftrightarrow> a \<in> set xs"
  by (induction xs) auto

lemma takeWhile_digits: "list_all is_digit ds \<Longrightarrow> \<not> is_digit c \<Longrightarrow> takeWhile is_digit (ds @ c # s) = ds"
  by (induction ds) auto

lemma extract_dec_int:
  assumes "in_int32 n"
  shows "extract_int (dec_int n @ CHR 0x0A # s) old = n"
proof -
  have nl: "\<not> is_digit (CHR 0x0A)" by (simp add: is_digit_def)
  have digit_start: "\<exists>c ds. dec_nat k = c # ds \<and> is_digit c" for k
    using dec_nat_digits [of k] by (cases "dec_nat k") auto
  have not_space: "is_digit c \<Longrightarrow> \<not> is_space c" "is_digit c \<Longrightarrow> c \<noteq> CHR ''-'' \<and> c \<noteq> CHR ''+''" for c
    by (auto simp: is_space_def is_digit_def)
  have tw: "takeWhile is_digit (dec_nat k @ CHR 0x0A # s) = dec_nat k" for k
    by (rule takeWhile_digits [OF dec_nat_digits nl])
  have "read_number (dropWhile is_space (dec_int n @ CHR 0x0A # s)) = Some n \<and> dropWhile is_space (dec_int n @ CHR 0x0A # s) \<noteq> []"
  proof (cases "n < 0")
    case True
    then show ?thesis using tw [of "nat (- n)"]
      by (simp add: dec_int_def read_number_def is_space_def)
  next
    case False
    from digit_start [of "nat n"] obtain c ds where d: "dec_nat (nat n) = c # ds" "is_digit c" by blast
    with False tw [of "nat n"] not_space [OF d(2)] show ?thesis
      using dec_value_dec_nat [of "nat n"] by (simp add: dec_int_def read_number_def del: dec_value_dec_nat)
  qed
  with assms show ?thesis
    unfolding extract_int_def in_int32_def Let_def by (simp del: dropWhile_eq_Nil_conv)
qed

text \<open>
  C40: after a successful \<open>setup_daemon\<close> with no pid file before, \<open>get_sensor_pid\<close> reads back the daemon's
  own process number.
\<close>

theorem pid_file_roundtrip:
  assumes "files (pr_machine p) (pid_path name path) = None" and "writable (pr_machine p) (pid_path name path)"
    and "in_int32 (os_getpid os)" and "setup_daemon os name path p = (p', Returned u)"
  shows "get_sensor_pid name path p' = os_getpid os \<and> os_fork os = 0"
proof -
  have "os_fork os = 0 \<and> files (pr_machine p') (pid_path name path) = Some (dec_int (os_getpid os) @ [CHR 0x0A])"
    using assms(1,2,4)
    by (auto simp: setup_daemon_def Let_def pid_path_def pr_write_def act_def write_to_def split: if_splits)
  then show ?thesis
    using extract_dec_int [OF assms(3), of "[]" "-1"] by (simp add: get_sensor_pid_def pid_path_def)
qed

definition fresh_process :: process where
  "fresh_process = \<lparr>pr_machine = bare_machine, pr_log = []\<rparr>"

definition daemon_answers :: os_answers where
  "daemon_answers = \<lparr>os_fork = 0, os_getpid = 40000, os_setsid = 40000, os_chdir = 0\<rparr>"

theorem pid_file_roundtrip_witness:
  "get_sensor_pid ''syscall_sensor'' ''/var/run'' (fst (setup_daemon daemon_answers ''syscall_sensor'' ''/var/run'' fresh_process)) = 40000 \<and>
   os_fork daemon_answers = 0"
proof -
  have "setup_daemon daemon_answers ''syscall_sensor'' ''/var/run'' fresh_process =
      (fst (setup_daemon daemon_answers ''syscall_sensor'' ''/var/run'' fresh_process), Returned ())"
    by (simp add: setup_daemon_def daemon_answers_def Let_def)
  from pid_file_roundtrip [OF _ _ _ this] show ?thesis
    by (simp add: fresh_process_def bare_machine_def daemon_answers_def in_int32_def)
qed

text \<open>
  \<open>kill\<close> answers 0 or -1, never the error number: so whatever process number the pid file holds, running or
  long gone, \<open>start\<close> prints that the sensor is running and starts nothing, and the file stays as it was.
\<close>

theorem stale_pid_blocks_start:
  assumes "env_kill0 env \<in> {0, -1}"
    and "files (pr_machine p) (pid_path sensor_name run_path) = Some (dec_int n @ [CHR 0x0A])"
    and "in_int32 n" and "n \<noteq> -1" and "setup_stream args = Inr stream"
    and "''start'' \<in> set args" and "''stop'' \<notin> set args" and "''status'' \<notin> set args"
  shows "main env args p =
    (act (Print (''The sensor is running.'' @ [CHR 0x0A])) (act (MakeSink stream) (act (Kill n 0) p)), Returned 0)"
proof -
  have "get_sensor_pid sensor_name run_path p = n"
    using assms(2) extract_dec_int [OF assms(3), of "[]" "-1"] by (simp add: get_sensor_pid_def pid_path_def)
  with assms show ?thesis
    using find_arg_in [of args "''stop''"] find_arg_in [of args "''status''"] find_arg_in [of args "''start''"]
    by (auto simp: main_def main_start_def ESRCH_def Let_def)
qed

definition stale_process :: process where
  "stale_process = \<lparr>pr_machine = bare_machine\<lparr>files := [pid_path sensor_name run_path \<mapsto> dec_int 812 @ [CHR 0x0A]]\<rparr>, pr_log = []\<rparr>"

definition dead_environment :: environment where
  "dead_environment = \<lparr>env_kill0 = -1, env_os = daemon_answers, env_popen = Map.empty, env_connects = False, env_texts = []\<rparr>"

theorem stale_pid_blocks_start_witness:
  "main dead_environment [''start'', ''-o'', ''/tmp/t''] stale_process =
    (act (Print (''The sensor is running.'' @ [CHR 0x0A])) (act (MakeSink (FileSink ''/tmp/t'')) (act (Kill 812 0) stale_process)), Returned 0)"
  by (rule stale_pid_blocks_start)
     (simp_all add: dead_environment_def stale_process_def in_int32_def setup_stream_def arg_at_def)

section \<open>Stopping\<close>

lemma kill_tasks_log:
  "pr_log (kill_tasks c ts p) = pr_log p @ map (\<lambda>t. Kill t SIGKILL) (filter (\<lambda>t. c \<noteq> t) ts) \<and>
   pr_machine (kill_tasks c ts p) = pr_machine p"
  by (induction ts arbitrary: p) (auto simp: act_def)

text \<open>
  \<open>stop\<close> sends \<open>SIGKILL\<close> to the task numbers of the listing reduced to 16 bits, then to the sensor: for a
  task number from 32768 to 65535 the signal goes to the process group 65536 minus the number, which is
  somebody else's.
\<close>

theorem stop_kills_wrong_group:
  assumes "get_sensor_pid sensor_name run_path p = n" and "n \<noteq> -1" and "env_kill0 env \<in> {0, -1}" and "''stop'' \<in> set args"
    and "env_popen env (task_command n) =
      Some (''total 0'' @ [CHR 0x0A] @ concat (map (\<lambda>(pre, tid). task_line pre tid) ts))"
    and "list_all (\<lambda>(pre, tid). task_line_ok pre tid) ts"
    and "(pre, tid) \<in> set ts" and "2 ^ 15 \<le> tid" and "tid < 2 ^ 16" and "0 \<le> os_getpid (env_os env)"
  shows "Kill (- (2 ^ 16 - int tid)) SIGKILL \<in> set (pr_log (fst (main env args p)))"
proof -
  let ?p1 = "act (Print (''Stopping the daemon process pid= '' @ dec_int n @ [CHR 0x0A])) (act (Kill n 0) p)"
  let ?p2 = "fst (remove_sensor_pid sensor_name run_path ?p1)"
  have tid: "to_int16 (int tid) = int tid - 2 ^ 16"
  proof -
    have "(int tid + 2 ^ 15) mod 2 ^ 16 = ((int tid - 2 ^ 15) + 2 ^ 16) mod 2 ^ 16" by (simp add: ac_simps)
    also have "\<dots> = (int tid - 2 ^ 15) mod 2 ^ 16" by (rule mod_add_self2)
    also have "\<dots> = int tid - 2 ^ 15" using assms(8,9) by (intro mod_pos_pos_trivial) auto
    finally show ?thesis by (simp add: to_int16_def)
  qed
  note g = get_pids_listed [of "env_popen env" n ts, OF assms(5,6)]
  have m: "main env args p = main_stop env n (act (Kill n 0) p)"
    using assms(1,3,4) find_arg_in [of args "''stop''"] by (auto simp: main_def Let_def ESRCH_def)
  have "to_int16 (int tid) \<in> set (map (\<lambda>(pre, tid). to_int16 (int tid)) ts)" using assms(7) by force
  moreover have "os_getpid (env_os env) \<noteq> to_int16 (int tid)" using assms(9,10) tid by simp
  ultimately have "Kill (to_int16 (int tid)) SIGKILL \<in> set (pr_log (fst (kill_sensor (env_popen env) (os_getpid (env_os env)) n ?p2)))"
    by (auto simp: kill_sensor_def g Let_def kill_tasks_log pr_write_def act_def)
  moreover have "fst (main env args p) = fst (kill_sensor (env_popen env) (os_getpid (env_os env)) n ?p2)"
    using assms(2) by (simp add: m main_stop_def Let_def split: prod.split ended.split)
  ultimately show ?thesis by (simp add: tid)
qed

definition listing_of :: "string \<Rightarrow> string option" where
  "listing_of c = Some (''total 0'' @ [CHR 0x0A] @ concat (map (\<lambda>(pre, tid). task_line pre tid)
     [(''dr-xr-xr-x 7 root root 0 Jan 1'', 40000)]))"

definition stop_environment :: environment where
  "stop_environment = dead_environment\<lparr>env_kill0 := 0, env_popen := listing_of\<rparr>"

theorem stop_kills_wrong_group_witness:
  "Kill (- (2 ^ 16 - int 40000)) SIGKILL \<in> set (pr_log (fst (main stop_environment [''stop'']
     (fst (setup_daemon daemon_answers sensor_name run_path fresh_process)))))"
proof -
  have "get_sensor_pid sensor_name run_path (fst (setup_daemon daemon_answers sensor_name run_path fresh_process)) = 40000"
    using extract_dec_int [of 40000 "[]" "-1"]
    by (simp add: get_sensor_pid_def setup_daemon_def daemon_answers_def Let_def pr_write_def act_def write_to_def
        fresh_process_def bare_machine_def in_int32_def)
  then show ?thesis
    by (rule stop_kills_wrong_group [where ts = "[(''dr-xr-xr-x 7 root root 0 Jan 1'', 40000)]" and pre = "''dr-xr-xr-x 7 root root 0 Jan 1''"])
       (simp_all add: stop_environment_def dead_environment_def daemon_answers_def listing_of_def task_line_ok_def
          task_line_def dec_nat.simps)
qed

end
