(* ===== verification/Streams.thy ===== *)
theory Streams
  imports RecordText Base64 Sockets
begin

text \<open>
  The sinks of the sensor (\<open>include/stream/\<close>): console, dummy, file, memory, aggregated file and socket. A
  \<open>dispatch\<close> returns the new state of its sink and the fault it stopped at, if any. The record type is
  \<open>SysParamsRecord\<close>, the one \<open>main.cpp\<close> uses.
\<close>

type_synonym 's dispatched = "'s \<times> fault option"

section \<open>Console and dummy\<close>

fun console_dispatch :: "char \<Rightarrow> sys_params_record list \<Rightarrow> string \<Rightarrow> string dispatched" where
  "console_dispatch junk [] out = (out, None)"
| "console_dispatch junk (r # rs) out =
     (case params_to_string junk r of
        Inl e \<Rightarrow> (out, Some e)
      | Inr t \<Rightarrow> console_dispatch junk rs (out @ t @ [CHR 0x0A]))"

fun dumy_dispatch :: "sys_params_record list \<Rightarrow> unit \<Rightarrow> unit dispatched" where
  "dumy_dispatch [] st = (st, None)"
| "dumy_dispatch (r # rs) st = dumy_dispatch rs st"

section \<open>Files\<close>

text \<open>A \<open>std::ofstream\<close>: whether it could be opened, and what the file holds.\<close>

record out_file =
  of_open :: bool
  of_content :: string

definition of_write :: "string \<Rightarrow> out_file \<Rightarrow> out_file" where
  "of_write s f = (if of_open f then f\<lparr>of_content := of_content f @ s\<rparr> else f)"

definition file_stream :: "bool \<Rightarrow> out_file" where
  "file_stream opens = \<lparr>of_open = opens, of_content = []\<rparr>"

fun append_lines :: "char \<Rightarrow> sys_params_record list \<Rightarrow> string \<Rightarrow> string outcome" where
  "append_lines junk [] json = Inr json"
| "append_lines junk (r # rs) json =
     bind_outcome (params_to_string junk r) (\<lambda>t. append_lines junk rs (json @ t @ [CHR 0x0A]))"

definition file_dispatch :: "char \<Rightarrow> sys_params_record list \<Rightarrow> out_file \<Rightarrow> out_file dispatched" where
  "file_dispatch junk rs f =
     (case append_lines junk rs [] of Inl e \<Rightarrow> (f, Some e) | Inr json \<Rightarrow> (of_write json f, None))"

section \<open>The contract of a sink that shows lines\<close>

text \<open>
  A sink that appends one line per record. From it follows that the batching of records into packs does
  not show.
\<close>

locale line_sink =
  fixes dispatch :: "'r list \<Rightarrow> 's \<Rightarrow> 's dispatched"
    and ready :: "'s \<Rightarrow> bool" and content :: "'s \<Rightarrow> string" and line :: "'r \<Rightarrow> string" and good :: "'r \<Rightarrow> bool"
  assumes dispatch_appends: "ready s \<Longrightarrow> list_all good rs \<Longrightarrow>
    \<exists>s'. dispatch rs s = (s', None) \<and> ready s' \<and> content s' = content s @ concat (map line rs)"
begin

lemma packs_append:
  "ready s \<Longrightarrow> list_all (list_all good) packs \<Longrightarrow>
   ready (foldl (\<lambda>st pack. fst (dispatch pack st)) s packs) \<and>
   content (foldl (\<lambda>st pack. fst (dispatch pack st)) s packs) = content s @ concat (map line (concat packs))"
proof (induction packs arbitrary: s)
  case (Cons p packs)
  obtain s' where "dispatch p s = (s', None)" "ready s'" "content s' = content s @ concat (map line p)"
    using dispatch_appends [of s p] Cons.prems by auto
  with Cons.IH [of s'] Cons.prems show ?case by simp
qed simp

end

lemma console_lines:
  "list_all record_ok rs \<Longrightarrow>
   console_dispatch junk rs out = (out @ concat (map (\<lambda>r. params_text r @ [CHR 0x0A]) rs), None)"
  by (induction rs arbitrary: out) (simp_all add: params_to_string_text)

lemma append_lines_text:
  "list_all record_ok rs \<Longrightarrow>
   append_lines junk rs json = Inr (json @ concat (map (\<lambda>r. params_text r @ [CHR 0x0A]) rs))"
  by (induction rs arbitrary: json) (simp_all add: params_to_string_text)

interpretation console_out: line_sink "console_dispatch junk" "\<lambda>_. True" "\<lambda>out. out"
    "\<lambda>r. params_text r @ [CHR 0x0A]" record_ok for junk :: char
  by unfold_locales (simp add: console_lines)

interpretation file_out: line_sink "file_dispatch junk" of_open of_content
    "\<lambda>r. params_text r @ [CHR 0x0A]" record_ok for junk :: char
  by unfold_locales (simp add: file_dispatch_def append_lines_text of_write_def)

section \<open>Traces by process\<close>

text \<open>
  A \<open>std::unordered_map\<close> is the list of its entries; where \<open>emplace\<close> puts a new one is not specified, and
  the order of an iteration is a parameter of the operations that iterate.
\<close>

fun map_update :: "'k \<Rightarrow> 'v \<Rightarrow> ('k \<times> 'v) list \<Rightarrow> ('k \<times> 'v) list" where
  "map_update k v [] = [(k, v)]"
| "map_update k v ((k', v') # m) = (if k' = k then (k, v) # m else (k', v') # map_update k v m)"

definition add_trace :: "int \<Rightarrow> int \<Rightarrow> (int \<times> int list) list \<Rightarrow> (int \<times> int list) list" where
  "add_trace pid syscall traces =
     (case map_of traces pid of
        Some scs \<Rightarrow> map_update pid (scs @ [syscall]) traces
      | None \<Rightarrow> map_update pid [syscall] traces)"

fun memory_dispatch :: "('a) sys_record_scheme list \<Rightarrow> (int \<times> int list) list \<Rightarrow> (int \<times> int list) list dispatched" where
  "memory_dispatch [] traces = (traces, None)"
| "memory_dispatch (r # rs) traces = memory_dispatch rs (add_trace (rec_pid r) (rec_syscall r) traces)"

lemma map_of_update [simp]: "map_of (map_update k v m) = (map_of m)(k \<mapsto> v)"
  by (induction m) auto

lemma map_update_keys: "fst ` set (map_update k v m) = insert k (fst ` set m)"
proof (induction m)
  case (Cons e m)
  obtain a b where e: "e = (a, b)" by (cases e)
  show ?case by (cases "a = k") (simp_all add: e Cons.IH insert_commute)
qed simp

lemma map_update_distinct: "distinct (map fst m) \<Longrightarrow> distinct (map fst (map_update k v m))"
proof (induction m)
  case (Cons e m)
  then show ?case by (cases e) (auto simp: map_update_keys)
qed simp

text \<open>The reference: the system calls of one process, in the order of the records.\<close>

definition calls_of :: "int \<Rightarrow> ('a) sys_record_scheme list \<Rightarrow> int list" where
  "calls_of pid rs = map rec_syscall (filter (\<lambda>r. rec_pid r = pid) rs)"

definition grouped :: "int list option \<Rightarrow> int list \<Rightarrow> int list option" where
  "grouped old new = (if new = [] then old else Some (case old of None \<Rightarrow> new | Some scs \<Rightarrow> scs @ new))"

lemma add_trace_groups: "map_of (add_trace pid sc m) p = grouped (map_of m p) (if p = pid then [sc] else [])"
  by (auto simp: add_trace_def grouped_def split: option.splits)

lemma grouped_append: "grouped (grouped old xs) ys = grouped old (xs @ ys)"
  by (auto simp: grouped_def split: option.splits)

lemma memory_dispatch_groups:
  "snd (memory_dispatch rs m) = None \<and>
   map_of (fst (memory_dispatch rs m)) p = grouped (map_of m p) (calls_of p rs) \<and>
   (distinct (map fst m) \<longrightarrow> distinct (map fst (fst (memory_dispatch rs m))))"
proof (induction rs arbitrary: m)
  case Nil
  then show ?case by (simp add: calls_of_def grouped_def)
next
  case (Cons r rs)
  have "distinct (map fst m) \<longrightarrow> distinct (map fst (add_trace (rec_pid r) (rec_syscall r) m))"
    by (auto simp: add_trace_def map_update_distinct split: option.splits)
  with Cons.IH [of "add_trace (rec_pid r) (rec_syscall r) m"] show ?case
    by (auto simp: add_trace_groups grouped_append calls_of_def)
qed

section \<open>The aggregated file\<close>

text \<open>
  \<open>file_aggr_stream\<close>: the compressed file it writes, under its current name, and the files it has closed. The
  class has two constructor heads, the first without an end (lines 14 to 18), so it does not compile as it
  is; the second one is modelled.
\<close>

record aggr_stream =
  ag_file :: "string \<times> string"
  ag_closed :: "(string \<times> string) list"
  ag_name :: string
  ag_traces :: "(int \<times> int list) list"
  ag_pnames :: "(int \<times> string) list"
  ag_size :: int
  ag_index :: int

definition gz_name :: "string \<Rightarrow> int \<Rightarrow> string" where
  "gz_name name i = name @ ''_'' @ dec_int i @ ''.gz''"

definition ag_make :: "string \<Rightarrow> int \<Rightarrow> aggr_stream" where
  "ag_make name sz =
     \<lparr>ag_file = (gz_name name 10, []), ag_closed = [], ag_name = name, ag_traces = [], ag_pnames = [],
      ag_size = sz, ag_index = 10 + 1\<rparr>"

definition ag_add :: "sys_params_record \<Rightarrow> aggr_stream \<Rightarrow> aggr_stream" where
  "ag_add r st =
     st\<lparr>ag_traces := add_trace (rec_pid r) (rec_syscall r) (ag_traces st),
        ag_pnames := (if map_of (ag_pnames st) (rec_pid r) = None
                      then map_update (rec_pid r) (rec_name r) (ag_pnames st) else ag_pnames st)\<rparr>"

definition trace_row :: "(int \<times> string) list \<Rightarrow> int \<times> int list \<Rightarrow> string outcome" where
  "trace_row pnames e =
     (case map_of pnames (fst e) of
        None \<Rightarrow> Inl BadDeref
      | Some name \<Rightarrow> Inr (name @ '' == '' @ dec_int (fst e) @ '' ==> '' @
          concat (map (\<lambda>sc. dec_int sc @ '','') (snd e)) @ [CHR 0x0A]))"

fun trace_rows :: "(int \<times> string) list \<Rightarrow> (int \<times> int list) list \<Rightarrow> string \<Rightarrow> string outcome" where
  "trace_rows pnames [] out = Inr out"
| "trace_rows pnames (e # es) out = bind_outcome (trace_row pnames e) (\<lambda>t. trace_rows pnames es (out @ t))"

definition print_header :: "nat \<Rightarrow> int \<Rightarrow> string" where
  "print_header n ms = ''processes = '' @ dec_nat n @ '' timestamp = '' @ dec_int ms @ [CHR 0x0A]"

definition print_all ::
    "((int \<times> int list) list \<Rightarrow> (int \<times> int list) list) \<Rightarrow> int \<Rightarrow> aggr_stream \<Rightarrow> aggr_stream outcome" where
  "print_all iter ms st =
     bind_outcome (trace_rows (ag_pnames st) (iter (ag_traces st)) (snd (ag_file st) @ print_header (length (ag_traces st)) ms))
       (\<lambda>out.
          let st' = st\<lparr>ag_file := (fst (ag_file st), out), ag_traces := [], ag_pnames := []\<rparr> in
          Inr (if ag_index st' mod 10 = 0 then
                 st'\<lparr>ag_closed := ag_closed st' @ [ag_file st'],
                     ag_file := (gz_name (ag_name st') (ag_index st'), []), ag_index := ag_index st' + 1\<rparr>
               else st'))"

definition ag_dispatch ::
    "((int \<times> int list) list \<Rightarrow> (int \<times> int list) list) \<Rightarrow> int \<Rightarrow> sys_params_record list \<Rightarrow> aggr_stream \<Rightarrow> aggr_stream outcome" where
  "ag_dispatch iter ms rs st =
     (let st' = foldl (\<lambda>st r. ag_add r st) st rs in
      if length (ag_traces st') \<ge> size_of_ptrdiff (ag_size st') then print_all iter ms st' else Inr st')"

text \<open>The invariant: both maps have the same processes, once each, and the file index is the constructor's.\<close>

definition ag_inv :: "string \<Rightarrow> aggr_stream \<Rightarrow> bool" where
  "ag_inv name st \<longleftrightarrow> set (map fst (ag_traces st)) = set (map fst (ag_pnames st)) \<and>
     distinct (map fst (ag_traces st)) \<and> ag_index st = 11 \<and> ag_name st = name \<and>
     fst (ag_file st) = gz_name name 10 \<and> ag_closed st = []"

lemma map_of_keys: "map_of m k = None \<longleftrightarrow> k \<notin> set (map fst m)"
  by (induction m) auto

lemma ag_add_inv: "ag_inv name st \<Longrightarrow> ag_inv name (ag_add r st)"
proof -
  assume inv: "ag_inv name st"
  have "fst ` set (add_trace p s m) = insert p (fst ` set m)" for p s m
    by (simp add: add_trace_def map_update_keys split: option.split)
  moreover have "distinct (map fst m) \<Longrightarrow> distinct (map fst (add_trace p s m))" for p s m
    by (auto simp: add_trace_def map_update_distinct split: option.splits)
  moreover have "fst ` set (ag_pnames (ag_add r st)) = insert (rec_pid r) (fst ` set (ag_pnames st))"
    using map_of_keys [of "ag_pnames st" "rec_pid r"]
    by (simp add: ag_add_def map_update_keys insert_absorb)
  ultimately show ?thesis using inv by (simp add: ag_inv_def ag_add_def)
qed

lemma ag_adds:
  "ag_inv name st \<Longrightarrow> ag_inv name (foldl (\<lambda>st r. ag_add r st) st rs) \<and>
   snd (ag_file (foldl (\<lambda>st r. ag_add r st) st rs)) = snd (ag_file st) \<and>
   ag_size (foldl (\<lambda>st r. ag_add r st) st rs) = ag_size st \<and>
   map_of (ag_traces (foldl (\<lambda>st r. ag_add r st) st rs)) p = grouped (map_of (ag_traces st) p) (calls_of p rs)"
proof (induction rs arbitrary: st)
  case Nil
  then show ?case by (simp add: calls_of_def grouped_def)
next
  case (Cons r rs)
  from Cons.IH [OF ag_add_inv [OF Cons.prems, of r]] show ?case
    by (auto simp: ag_add_def add_trace_groups grouped_append calls_of_def)
qed

text \<open>The rows, when every process has a name.\<close>

lemma trace_rows_text:
  assumes "set (map fst es) \<subseteq> set (map fst pnames)"
  shows "trace_rows pnames es out = Inr (out @ concat (map (\<lambda>e. the (map_of pnames (fst e)) @ '' == '' @ dec_int (fst e) @
    '' ==> '' @ concat (map (\<lambda>sc. dec_int sc @ '','') (snd e)) @ [CHR 0x0A]) es))"
  using assms
proof (induction es arbitrary: out)
  case (Cons e es)
  from Cons.prems map_of_keys [of pnames "fst e"] obtain name where "map_of pnames (fst e) = Some name" by auto
  with Cons show ?case by (simp add: trace_row_def)
qed simp

text \<open>
  C39: a batch given to \<open>file_aggr_stream\<close> never faults; below the threshold it only adds each record's system
  call to its process, in order; at the threshold it writes one row per process, whatever the order of the
  iteration, and forgets them. The file index stays 11 for ever, so the rotation that waits for a multiple
  of 10 never happens: everything goes to the one file of the constructor.
\<close>

theorem aggregated_batch:
  assumes "ag_inv name st" and "\<And>m. set (iter m) = set (m :: (int \<times> int list) list)"
  shows "\<exists>st'. ag_dispatch iter ms rs st = Inr st' \<and> ag_inv name st' \<and>
    (let all = foldl (\<lambda>st r. ag_add r st) st rs in
     (\<forall>p. map_of (ag_traces all) p = grouped (map_of (ag_traces st) p) (calls_of p rs)) \<and>
     (if length (ag_traces all) \<ge> size_of_ptrdiff (ag_size st) then
        ag_traces st' = [] \<and> ag_pnames st' = [] \<and>
        snd (ag_file st') = snd (ag_file st) @ print_header (length (ag_traces all)) ms @
          concat (map (\<lambda>e. the (map_of (ag_pnames all) (fst e)) @ '' == '' @ dec_int (fst e) @
            '' ==> '' @ concat (map (\<lambda>sc. dec_int sc @ '','') (snd e)) @ [CHR 0x0A]) (iter (ag_traces all)))
      else st' = all))"
proof -
  let ?all = "foldl (\<lambda>st r. ag_add r st) st rs"
  note all = ag_adds [OF assms(1), of rs]
  then have inv: "ag_inv name ?all" and content: "snd (ag_file ?all) = snd (ag_file st)" and sz: "ag_size ?all = ag_size st"
    by auto
  have keys: "set (map fst (iter (ag_traces ?all))) \<subseteq> set (map fst (ag_pnames ?all))"
    using inv assms(2) [of "ag_traces ?all"] by (simp add: ag_inv_def)
  show ?thesis
  proof (cases "length (ag_traces ?all) \<ge> size_of_ptrdiff (ag_size st)")
    case True
    let ?out = "snd (ag_file st) @ print_header (length (ag_traces ?all)) ms @
        concat (map (\<lambda>e. the (map_of (ag_pnames ?all) (fst e)) @ '' == '' @ dec_int (fst e) @
          '' ==> '' @ concat (map (\<lambda>sc. dec_int sc @ '','') (snd e)) @ [CHR 0x0A]) (iter (ag_traces ?all)))"
    have "print_all iter ms ?all = Inr (?all\<lparr>ag_file := (fst (ag_file ?all), ?out), ag_traces := [], ag_pnames := []\<rparr>)"
      using inv trace_rows_text [OF keys] by (simp add: print_all_def content Let_def ag_inv_def)
    with True sz inv all show ?thesis by (simp add: ag_dispatch_def Let_def ag_inv_def)
  qed (use sz inv all in \<open>simp add: ag_dispatch_def Let_def\<close>)
qed

lemma ag_make_inv: "ag_inv name (ag_make name sz)"
  by (simp add: ag_inv_def ag_make_def)

theorem aggregated_batch_witness:
  "\<exists>st'. ag_dispatch rev 5 [\<lparr>rec_pid = 7, rec_syscall = 1, rec_name = ''sh'', rec_arg = []\<rparr>,
      \<lparr>rec_pid = 8, rec_syscall = 2, rec_name = ''ls'', rec_arg = []\<rparr>] (ag_make ''t'' 2) = Inr st' \<and> ag_index st' = 11 \<and>
    ag_traces st' = []"
proof -
  let ?rs = "[\<lparr>rec_pid = 7, rec_syscall = 1, rec_name = ''sh'', rec_arg = []\<rparr>,
      \<lparr>rec_pid = 8, rec_syscall = 2, rec_name = ''ls'', rec_arg = []\<rparr>]"
  have "set (rev m) = set (m :: (int \<times> int list) list)" for m by simp
  from aggregated_batch [OF ag_make_inv [of "''t''" 2] this, of 5 ?rs] show ?thesis
    by (auto simp: ag_make_def ag_add_def add_trace_def Let_def ag_inv_def)
qed

end
