(* ===== verification/SocketStream.thy ===== *)
theory SocketStream
  imports Streams
begin

text \<open>
  \<open>sensor_packet_json\<close> and \<open>socket_stream\<close> (\<open>include/stream/socket_stream.h\<close>): the text of a pack, and
  the frame that carries it, four bytes of length and the base64 of the text. A decoder of the receiving
  side, which is not in the repository, is the reference for the frames.
\<close>

section \<open>The text of a pack\<close>

text \<open>The loop over the records; a comma follows every record but the last.\<close>

fun put_records :: "char \<Rightarrow> sys_params_record list \<Rightarrow> char buf \<Rightarrow> char buf outcome" where
  "put_records junk [] w = Inr w"
| "put_records junk (r # rs) w =
     bind_outcome (put_str (memory_grow junk) ''('' w) (\<lambda>w.
     bind_outcome (params_to_string junk r) (\<lambda>t.
     bind_outcome (put_str (memory_grow junk) t w) (\<lambda>w.
     bind_outcome (put_str (memory_grow junk) '')'' w) (\<lambda>w.
     bind_outcome (if rs \<noteq> [] then put_str (memory_grow junk) '','' w else Inr w) (\<lambda>w.
       put_records junk rs w)))))"

text \<open>The literals; a double quote is character 0x22.\<close>

definition json_info :: string where "json_info = ''{ '' @ [CHR 0x22] @ ''sensor_info'' @ [CHR 0x22] @ '': '' @ [CHR 0x22]"
definition json_sep :: string where "json_sep = [CHR 0x22, CHR '','']"
definition json_time :: string where "json_time = [CHR 0x22] @ ''timestamp'' @ [CHR 0x22] @ '': '' @ [CHR 0x22]"
definition json_calls :: string where "json_calls = [CHR 0x22] @ ''syscalls'' @ [CHR 0x22] @ '':[''"

lemmas json_defs = json_info_def json_sep_def json_time_def json_calls_def

definition to_json :: "char \<Rightarrow> string \<Rightarrow> int \<Rightarrow> sys_params_record list \<Rightarrow> string outcome" where
  "to_json junk meta now records =
     (let put = put_str (memory_grow junk) in
      bind_outcome (put json_info (buf_clear (memory_writer junk))) (\<lambda>w.
      bind_outcome (put meta w) (\<lambda>w.
      bind_outcome (put json_sep w) (\<lambda>w.
      bind_outcome (put json_time w) (\<lambda>w.
      bind_outcome (put_int (memory_grow junk) 64 now w) (\<lambda>w.
      bind_outcome (put json_sep w) (\<lambda>w.
      bind_outcome (put json_calls w) (\<lambda>w.
      bind_outcome (put_records junk records w) (\<lambda>w.
      bind_outcome (put '']}'' w) (\<lambda>w.
      bind_outcome (put_char (memory_grow junk) (CHR 0x00) w) (\<lambda>w.
        c_string_of (writer_data w))))))))))))"

definition json_text :: "string \<Rightarrow> int \<Rightarrow> sys_params_record list \<Rightarrow> string" where
  "json_text meta now records =
     json_info @ meta @ json_sep @ json_time @ dec_int now @ json_sep @ json_calls @
     joined '','' (map (\<lambda>r. ''('' @ params_text r @ '')'') records) @ '']}''"

lemma put_records_text:
  "buffer_ok w \<Longrightarrow> list_all record_ok rs \<Longrightarrow>
   \<exists>w'. put_records junk rs w = Inr w' \<and> buffer_ok w' \<and>
     written w' = written w @ joined '','' (map (\<lambda>r. ''('' @ params_text r @ '')'') rs)"
proof (induction rs arbitrary: w)
  case (Cons r rs)
  obtain w1 where w1: "put_str (memory_grow junk) ''('' w = Inr w1" "buffer_ok w1" "written w1 = written w @ ''(''"
    using chars.put_str_appends [OF Cons.prems(1)] by blast
  obtain w2 where w2: "put_str (memory_grow junk) (params_text r) w1 = Inr w2" "buffer_ok w2" "written w2 = written w1 @ params_text r"
    using chars.put_str_appends [OF w1(2)] by blast
  obtain w3 where w3: "put_str (memory_grow junk) '')'' w2 = Inr w3" "buffer_ok w3" "written w3 = written w2 @ '')''"
    using chars.put_str_appends [OF w2(2)] by blast
  obtain w4 where w4: "(if rs \<noteq> [] then put_str (memory_grow junk) '','' w3 else Inr w3) = Inr w4" "buffer_ok w4"
      "written w4 = written w3 @ (if rs \<noteq> [] then '','' else [])"
    using chars.put_str_appends [OF w3(2)] w3(2) by (cases "rs = []") auto
  obtain w5 where "put_records junk rs w4 = Inr w5" "buffer_ok w5"
      "written w5 = written w4 @ joined '','' (map (\<lambda>r. ''('' @ params_text r @ '')'') rs)"
    using Cons.IH [OF w4(2)] Cons.prems(2) by auto
  with w1 w2 w3 w4 Cons.prems(2) show ?case
    by (cases rs) (simp_all add: params_to_string_text)
qed simp

lemma dec_nat_no_null: "CHR 0x00 \<notin> set (dec_nat n)"
  by (rule dec_nat_no_char) (simp add: is_digit_def)

lemma dec_int_no_null: "CHR 0x00 \<notin> set (dec_int i)"
  by (simp add: dec_int_def dec_nat_no_null)

lemma joined_set: "set (joined sep xs) \<subseteq> set sep \<union> (\<Union>x \<in> set xs. set x)"
  by (induction sep xs rule: joined.induct) auto

text \<open>No null in the texts that make up a pack.\<close>

definition pack_ok :: "sys_params_record list \<Rightarrow> bool" where
  "pack_ok rs \<longleftrightarrow> list_all (\<lambda>r. record_ok r \<and> CHR 0x00 \<notin> set (rec_name r) \<and> CHR 0x00 \<notin> set (rec_arg r)) rs"

lemma params_text_no_null:
  "CHR 0x00 \<notin> set (rec_name r) \<Longrightarrow> CHR 0x00 \<notin> set (rec_arg r) \<Longrightarrow> CHR 0x00 \<notin> set (params_text r)"
  by (simp add: params_text_def quote_def dec_int_no_null)

lemma json_text_no_null:
  assumes "pack_ok rs" and "CHR 0x00 \<notin> set meta"
  shows "CHR 0x00 \<notin> set (json_text meta now rs)"
proof -
  let ?xs = "map (\<lambda>r. ''('' @ params_text r @ '')'') rs"
  have "CHR 0x00 \<notin> set x" if "x \<in> set ?xs" for x
    using that assms(1) params_text_no_null by (auto simp: pack_ok_def list_all_iff)
  then have "CHR 0x00 \<notin> (\<Union>x \<in> set ?xs. set x)" by blast
  moreover have "CHR 0x00 \<notin> set '',''" by simp
  ultimately have "CHR 0x00 \<notin> set (joined '','' ?xs)" using joined_set [of "'',''" ?xs] by blast
  with assms(2) show ?thesis by (simp add: json_text_def json_defs dec_int_no_null)
qed

lemma c_string_of_prefix: "CHR 0x00 \<notin> set s \<Longrightarrow> c_string_of (s @ CHR 0x00 # t) = Inr s"
  by (auto simp: c_string_of_def takeWhile_append)

lemma to_json_text:
  assumes ok: "pack_ok rs" and meta: "CHR 0x00 \<notin> set meta" and now: "- (2 ^ 63) \<le> now" "now < 2 ^ 63"
  shows "to_json junk meta now rs = Inr (json_text meta now rs)"
proof -
  let ?g = "memory_grow junk"
  note put = chars.put_str_appends [where junk = junk]
  have "buffer_ok (buf_clear (memory_writer junk))" "written (buf_clear (memory_writer junk)) = []"
    using memory_writer_ok(1) [of junk] by (simp_all add: buf_clear_def buffer_ok_def written_def)
  then obtain w1 where w1: "put_str ?g json_info (buf_clear (memory_writer junk)) = Inr w1" "buffer_ok w1" "written w1 = json_info"
    using put [of "buf_clear (memory_writer junk)" json_info] by auto
  obtain w2 where w2: "put_str ?g meta w1 = Inr w2" "buffer_ok w2" "written w2 = written w1 @ meta"
    using put [OF w1(2)] by blast
  obtain w3 where w3: "put_str ?g json_sep w2 = Inr w3" "buffer_ok w3" "written w3 = written w2 @ json_sep"
    using put [OF w2(2)] by blast
  obtain w4 where w4: "put_str ?g json_time w3 = Inr w4" "buffer_ok w4" "written w4 = written w3 @ json_time"
    using put [OF w3(2)] by blast
  obtain w5 where w5: "put_int ?g 64 now w4 = Inr w5" "buffer_ok w5" "written w5 = written w4 @ dec_int now"
    using chars.put_int_appends [OF w4(2), of 64 now junk] now by auto
  obtain w6 where w6: "put_str ?g json_sep w5 = Inr w6" "buffer_ok w6" "written w6 = written w5 @ json_sep"
    using put [OF w5(2)] by blast
  obtain w7 where w7: "put_str ?g json_calls w6 = Inr w7" "buffer_ok w7" "written w7 = written w6 @ json_calls"
    using put [OF w6(2)] by blast
  have "list_all record_ok rs" using ok by (simp add: pack_ok_def list_all_iff)
  then obtain w8 where w8: "put_records junk rs w7 = Inr w8" "buffer_ok w8"
      "written w8 = written w7 @ joined '','' (map (\<lambda>r. ''('' @ params_text r @ '')'') rs)"
    using put_records_text [OF w7(2)] by blast
  obtain w9 where w9: "put_str ?g '']}'' w8 = Inr w9" "buffer_ok w9" "written w9 = written w8 @ '']}''"
    using put [OF w8(2)] by blast
  obtain w where w: "put_char ?g (CHR 0x00) w9 = Inr w" "buffer_ok w" "written w = written w9 @ [CHR 0x00]"
    using chars.put_char_appends [OF w9(2)] by blast
  have final: "written w9 = json_text meta now rs"
    by (simp add: w9 w8(3) w7(3) w6(3) w5(3) w4(3) w3(3) w2(3) w1(3) json_text_def)
  have "ptr w = (json_text meta now rs @ [CHR 0x00]) @ drop (buf_size w) (ptr w)"
    using w(3) final append_take_drop_id [of "buf_size w" "ptr w"] by (simp add: written_def)
  then have "ptr w = json_text meta now rs @ CHR 0x00 # drop (buf_size w) (ptr w)" by simp
  with c_string_of_prefix [OF json_text_no_null [OF ok meta]] have "c_string_of (ptr w) = Inr (json_text meta now rs)"
    by metis
  with w1(1) w2(1) w3(1) w4(1) w5(1) w6(1) w7(1) w8(1) w9(1) w(1) show ?thesis
    by (simp add: to_json_def Let_def writer_data_def)
qed

section \<open>The frame\<close>

text \<open>\<open>htonl\<close> on the machines of this program swaps the bytes; \<open>memcpy\<close> copies them in memory order.\<close>

definition le_bytes :: "nat \<Rightarrow> nat list" where
  "le_bytes n = [n mod 256, n div 256 mod 256, n div 65536 mod 256, n div 16777216 mod 256]"

definition htonl :: "nat \<Rightarrow> nat" where
  "htonl n = (n mod 256) * 16777216 + (n div 256 mod 256) * 65536 + (n div 65536 mod 256) * 256 + n div 16777216 mod 256"

text \<open>\<open>in_len\<close> is an \<open>unsigned int\<close>, \<open>n\<close> an \<open>int\<close>.\<close>

definition make_frame :: "8 word list \<Rightarrow> string \<Rightarrow> string" where
  "make_frame junk json =
     (let str = replicate 4 (CHR '' '') @ base64_encode junk (map byte_of_char json) (length json mod 2 ^ 32);
          n = to_int32 (int (size_sub (length str) 4));
          bytes = map (char_of :: nat \<Rightarrow> char) (le_bytes (htonl (nat (n mod 2 ^ 32))))
      in str[0 := bytes ! 0, 1 := bytes ! 1, 2 := bytes ! 2, 3 := bytes ! 3])"

definition socket_dispatch ::
    "char \<Rightarrow> 8 word list \<Rightarrow> string \<Rightarrow> int \<Rightarrow> sys_params_record list \<Rightarrow> linux_socket \<Rightarrow> sys_call list outcome" where
  "socket_dispatch junk junk3 meta now records s =
     bind_outcome (to_json junk meta now records) (\<lambda>json. Inr (ls_send (make_frame junk3 json) s))"

text \<open>The reference receiver: a big-endian length, that many characters, their base64.\<close>

fun read_be32 :: "string \<Rightarrow> nat" where
  "read_be32 (a # b # c # d # s) = of_char a * 16777216 + of_char b * 65536 + of_char c * 256 + of_char d"
| "read_be32 s = 0"

function unframe :: "8 word list \<Rightarrow> string \<Rightarrow> string list" where
  "unframe junk4 s =
     (if length s < 4 then []
      else base64_decode junk4 (take (read_be32 s) (drop 4 s)) # unframe junk4 (drop (4 + read_be32 s) s))"
  by pat_completeness auto
termination
  by (relation "measure (\<lambda>(junk, s). length s)") auto

declare unframe.simps [simp del]

lemma base256: "x < 256 \<Longrightarrow> (x + 256 * y) mod 256 = x \<and> (x + 256 * y) div 256 = (y :: nat)"
  by simp

lemma div_bytes: "n div 65536 = n div 256 div 256" "n div 16777216 = n div 256 div 256 div (256 :: nat)"
  by (simp_all flip: div_mult2_eq)

lemma le_bytes_htonl:
  "le_bytes (htonl n) = [n div 16777216 mod 256, n div 65536 mod 256, n div 256 mod 256, n mod 256]"
proof -
  define a b c d where "a = n mod 256" and "b = n div 256 mod 256" and "c = n div 65536 mod 256" and "d = n div 16777216 mod 256"
  have lt: "a < 256" "b < 256" "c < 256" "d < 256" by (simp_all add: a_def b_def c_def d_def)
  have "htonl n = d + 256 * (c + 256 * (b + 256 * a))" by (simp add: htonl_def a_def b_def c_def d_def)
  then have "htonl n mod 256 = d" "htonl n div 256 = c + 256 * (b + 256 * a)"
    using base256 [OF lt(4)] by metis+
  moreover from this have "htonl n div 256 mod 256 = c" "htonl n div 256 div 256 = b + 256 * a"
    using base256 [OF lt(3)] by metis+
  moreover from this have "htonl n div 256 div 256 mod 256 = b" "htonl n div 256 div 256 div 256 = a"
    using base256 [OF lt(2)] by metis+
  ultimately have "le_bytes (htonl n) = [d, c, b, a mod 256]"
    unfolding le_bytes_def div_bytes [of "htonl n"] by simp
  then show ?thesis using lt by (simp add: a_def b_def c_def d_def)
qed

lemma be_digits:
  assumes "n < 2 ^ 32"
  shows "(n div 16777216 mod 256) * 16777216 + (n div 65536 mod 256) * 65536 + (n div 256 mod 256) * 256 + n mod 256 = (n :: nat)"
proof -
  have "n div 16777216 < 256" using assms by (simp add: less_mult_imp_div_less)
  then have "n div 256 div 256 div 256 mod 256 = n div 256 div 256 div 256" by (simp add: div_bytes)
  moreover have "n = n div 256 * 256 + n mod 256" by simp
  moreover have "n div 256 = n div 256 div 256 * 256 + n div 256 mod 256" by simp
  moreover have "n div 256 div 256 = n div 256 div 256 div 256 * 256 + n div 256 div 256 mod 256" by simp
  ultimately show ?thesis unfolding div_bytes by linarith
qed

text \<open>What the frame is, and that reading it back gives the text.\<close>

lemma make_frame_parts:
  assumes "length junk3 = 3" and "length json < 2 ^ 30"
  shows "\<exists>h. length h = 4 \<and> make_frame junk3 json = h @ b64_spec (map (unat \<circ> byte_of_char) json) \<and>
    read_be32 (make_frame junk3 json @ rest) = length (b64_spec (map (unat \<circ> byte_of_char) json))"
proof -
  let ?b = "b64_spec (map (unat \<circ> byte_of_char) json)"
  let ?n = "length ?b"
  have enc: "base64_encode junk3 (map byte_of_char json) (length json mod 2 ^ 32) = ?b"
    using encode_loop_spec [OF assms(1), of "map byte_of_char json" "[]"] assms(2)
    by (simp add: base64_encode_def)
  have n: "?n < 2 ^ 31" using assms(2) by (simp add: b64_spec_length)
  then have "nat (to_int32 (int ?n) mod 2 ^ 32) = ?n" by simp
  then have bytes: "map char_of (le_bytes (htonl (nat (to_int32 (int (size_sub (length (replicate 4 (CHR '' '') @ ?b)) 4)) mod 2 ^ 32)))) =
      map (char_of :: nat \<Rightarrow> char) [?n div 16777216 mod 256, ?n div 65536 mod 256, ?n div 256 mod 256, ?n mod 256]"
    by (simp add: le_bytes_htonl)
  let ?h = "map (char_of :: nat \<Rightarrow> char) [?n div 16777216 mod 256, ?n div 65536 mod 256, ?n div 256 mod 256, ?n mod 256]"
  have upd: "(replicate 4 (CHR '' '') @ t)[0 := p, 1 := q, 2 := r, 3 := u] = [p, q, r, u] @ t" for p q r u :: char and t
    by (simp add: numeral_eq_Suc)
  have f: "make_frame junk3 json = ?h @ ?b"
    unfolding make_frame_def enc Let_def bytes upd by simp
  have n32: "?n < 2 ^ 32" by (rule order.strict_trans [OF n]) simp
  have r: "read_be32 (?h @ ?b @ rest) = ?n"
    using be_digits [OF n32] by (simp only: list.map append_Cons append_Nil read_be32.simps of_char_of mod_mod_trivial)
  show ?thesis
  proof (intro exI conjI)
    show "length ?h = 4" by simp
    show "make_frame junk3 json = ?h @ ?b" by (rule f)
    show "read_be32 (make_frame junk3 json @ rest) = ?n" unfolding f append_assoc by (rule r)
  qed
qed

lemma decode_b64_spec:
  assumes "length junk4 = 4"
  shows "base64_decode junk4 (b64_spec (map (unat \<circ> byte_of_char) json)) = json"
proof -
  have "base64_decode junk4 (b64_spec (map unat (map byte_of_char json))) = map char_of_byte (map byte_of_char json)"
    using decode_loop_spec [OF assms, of "map byte_of_char json" "[]"] by (simp add: base64_decode_def)
  then show ?thesis by (simp add: comp_def map_idI)
qed

lemma unframe_frames:
  assumes "length junk3 = 3" and "length junk4 = 4"
  shows "list_all (\<lambda>json. length json < 2 ^ 30) jsons \<Longrightarrow> unframe junk4 (concat (map (make_frame junk3) jsons)) = jsons"
proof (induction jsons)
  case Nil
  then show ?case by (simp add: unframe.simps)
next
  case (Cons json jsons)
  then have "length json < 2 ^ 30" by simp
  from make_frame_parts [OF assms(1) this, of "concat (map (make_frame junk3) jsons)"] obtain h where
    h: "length h = 4" and f: "make_frame junk3 json = h @ b64_spec (map (unat \<circ> byte_of_char) json)"
    and n: "read_be32 (make_frame junk3 json @ concat (map (make_frame junk3) jsons)) =
        length (b64_spec (map (unat \<circ> byte_of_char) json))" by blast
  have "unframe junk4 (make_frame junk3 json @ concat (map (make_frame junk3) jsons)) =
      base64_decode junk4 (b64_spec (map (unat \<circ> byte_of_char) json)) # unframe junk4 (concat (map (make_frame junk3) jsons))"
    by (subst unframe.simps) (simp add: n, simp add: f h)
  with Cons show ?case by (simp add: decode_b64_spec [OF assms(2)])
qed

section \<open>What arrives\<close>

text \<open>
  \<open>send\<close> hands its buffer to the kernel once; \<open>accepted\<close> is how many characters the kernel took of each
  buffer, an answer the code does not look at.
\<close>

fun wire :: "nat list \<Rightarrow> sys_call list \<Rightarrow> string" where
  "wire (n # ns) (SysSend fd buffer # cs) = take n buffer @ wire ns cs"
| "wire ns (SysSend fd buffer # cs) = []"
| "wire ns (c # cs) = wire ns cs"
| "wire ns [] = []"

fun send_packs ::
    "char \<Rightarrow> 8 word list \<Rightarrow> string \<Rightarrow> (int \<times> sys_params_record list) list \<Rightarrow> linux_socket \<Rightarrow> sys_call list outcome" where
  "send_packs junk junk3 meta [] s = Inr []"
| "send_packs junk junk3 meta ((now, rs) # packs) s =
     bind_outcome (socket_dispatch junk junk3 meta now rs s) (\<lambda>cs.
     bind_outcome (send_packs junk junk3 meta packs s) (\<lambda>cs'. Inr (cs @ cs')))"

definition packs_ok :: "string \<Rightarrow> (int \<times> sys_params_record list) list \<Rightarrow> bool" where
  "packs_ok meta packs \<longleftrightarrow> list_all (\<lambda>(now, rs). pack_ok rs \<and> - (2 ^ 63) \<le> now \<and> now < 2 ^ 63 \<and>
     length (json_text meta now rs) < 2 ^ 30) packs"

lemma send_packs_calls:
  assumes "CHR 0x00 \<notin> set meta"
  shows "packs_ok meta packs \<Longrightarrow> send_packs junk junk3 meta packs s =
    Inr (map (\<lambda>(now, rs). SysSend (ls_id s) (make_frame junk3 (json_text meta now rs))) packs)"
  by (induction packs) (auto simp: packs_ok_def socket_dispatch_def to_json_text assms ls_send_def)


definition sample_pack :: "sys_params_record list" where
  "sample_pack = [\<lparr>rec_pid = 812, rec_syscall = 39, rec_name = ''sh'', rec_arg = []\<rparr>]"


text \<open>
  A short answer of the kernel is ignored: the rest of the frame is never sent, and the receiver reads the
  next frame from the middle of this one.
\<close>

lemma short_send_cuts_frame:
  "wire [n] (ls_send buffer s) = take n buffer \<and> ls_send buffer s = [SysSend (ls_id s) buffer]"
  by (simp add: ls_send_def)

end
