(* ===== verification/Spsc.thy ===== *)
theory Spsc
  imports FmtInt
begin

text \<open>
  The single-producer, single-consumer queue \<open>ReaderWriterQueue\<close> the sensor's queues were built on
  (\<open>include/queue/moodycamel/readerwriterqueue.h\<close>): a ring of blocks, each a circular buffer whose size is a
  power of two, that grows by whole blocks. The operations are modelled one after the other, as atomic
  actions (\<open>SpscSteps\<close> interleaves them); the caches \<open>localTail\<close> and \<open>localFront\<close>, that are behind the values of the other thread, are kept.

  Blocks are addressed by naturals; \<open>malloc\<close> is the environment's: an address, or \<open>None\<close> for a null pointer.
  A slot of a block is \<open>None\<close> while it is raw storage and \<open>Some x\<close> while an object lives there. The guards
  against reentrance, which exist in debug builds only, are not modelled.
\<close>

section \<open>Blocks\<close>

record 'a block =
  b_front :: nat
  b_localTail :: nat
  b_tail :: nat
  b_localFront :: nat
  b_next :: nat
  b_data :: "'a option list"
  b_sizeMask :: nat

record 'a rwq =
  q_blocks :: "nat \<rightharpoonup> 'a block"
  q_frontBlock :: nat
  q_tailBlock :: nat
  q_largest :: nat

definition make_block :: "nat \<Rightarrow> 'a block" where
  "make_block capacity =
     \<lparr>b_front = 0, b_localTail = 0, b_tail = 0, b_localFront = 0, b_next = 0,
      b_data = replicate capacity None, b_sizeMask = capacity - 1\<rparr>"

definition blk :: "'a rwq \<Rightarrow> nat \<Rightarrow> 'a block outcome" where
  "blk q a = (case q_blocks q a of None \<Rightarrow> Inl BadDeref | Some b \<Rightarrow> Inr b)"

definition set_blk :: "nat \<Rightarrow> 'a block \<Rightarrow> 'a rwq \<Rightarrow> 'a rwq" where
  "set_blk a b q = q\<lparr>q_blocks := (q_blocks q)(a \<mapsto> b)\<rparr>"

text \<open>The contents of a block, from \<open>front\<close> to \<open>tail\<close>, and what relates its four indices to them.\<close>

definition pow2 :: "nat \<Rightarrow> bool" where
  "pow2 n \<longleftrightarrow> (\<exists>k. n = 2 ^ k)"

definition slots :: "'a option list \<Rightarrow> nat \<Rightarrow> 'a list \<Rightarrow> bool" where
  "slots data h xs \<longleftrightarrow>
     (\<forall>k < length xs. data ! ((h + k) mod length data) = Some (xs ! k)) \<and>
     (\<forall>k. length xs \<le> k \<and> k < length data \<longrightarrow> data ! ((h + k) mod length data) = None)"

definition block_holds :: "'a block \<Rightarrow> 'a list \<Rightarrow> bool" where
  "block_holds b xs \<longleftrightarrow> pow2 (b_sizeMask b + 1) \<and> 0 < b_sizeMask b \<and> length (b_data b) = b_sizeMask b + 1 \<and>
     (\<exists>lf h lt. lf \<le> h \<and> h \<le> lt \<and> lt \<le> h + length xs \<and> h + length xs \<le> lf + b_sizeMask b \<and>
        b_localFront b = lf mod (b_sizeMask b + 1) \<and> b_front b = h mod (b_sizeMask b + 1) \<and>
        b_localTail b = lt mod (b_sizeMask b + 1) \<and> b_tail b = (h + length xs) mod (b_sizeMask b + 1) \<and>
        slots (b_data b) h xs)"

lemma and_mask_mod: "pow2 (m + 1) \<Longrightarrow> n AND m = n mod (m + 1)"
proof -
  assume "pow2 (m + 1)"
  then obtain k where k: "m + 1 = 2 ^ k" by (auto simp: pow2_def)
  then have "m = mask k" by (simp add: mask_eq_exp_minus_1 flip: k)
  then have "n AND m = take_bit k n" by (simp add: take_bit_eq_mask)
  then show ?thesis by (simp only: k take_bit_eq_mod)
qed

lemma mod_eq_close: "a \<le> b \<Longrightarrow> b - a < S \<Longrightarrow> (a mod S = b mod S) = (a = (b :: nat))"
proof
  assume le: "a \<le> b" and lt: "b - a < S" and "a mod S = b mod S"
  then have "S dvd b - a" by (metis mod_eq_dvd_iff_nat)
  with lt have "b - a = 0" using nat_dvd_not_less by blast
  with le show "a = b" by simp
qed simp

text \<open>Two offsets of a ring that are closer than its size are the same slot only when they are equal.\<close>

lemma slot_eq: "i < S \<Longrightarrow> j < S \<Longrightarrow> ((h + i) mod S = (h + j) mod S) = (i = (j :: nat))"
proof -
  assume "i < S" "j < S"
  then have d: "i \<le> j \<Longrightarrow> h + j - (h + i) < S" "j \<le> i \<Longrightarrow> h + i - (h + j) < S" by auto
  show ?thesis
    using mod_eq_close [of "h + i" "h + j" S] mod_eq_close [of "h + j" "h + i" S] d
    by (cases "i \<le> j") auto
qed

lemma block_holds_length: "block_holds b xs \<Longrightarrow> length xs \<le> b_sizeMask b"
  by (auto simp: block_holds_def)

lemma block_holds_index: "block_holds b xs \<Longrightarrow> b_front b < length (b_data b) \<and> b_tail b < length (b_data b)"
  by (auto simp: block_holds_def)

lemma block_empty: "block_holds b xs \<Longrightarrow> b_front b = b_tail b \<longleftrightarrow> xs = []"
proof -
  assume "block_holds b xs"
  then obtain lf h where "lf \<le> h" "h + length xs \<le> lf + b_sizeMask b"
      "b_front b = h mod (b_sizeMask b + 1)" "b_tail b = (h + length xs) mod (b_sizeMask b + 1)"
    unfolding block_holds_def by blast
  with mod_eq_close [of h "h + length xs" "b_sizeMask b + 1"] show ?thesis by auto
qed

lemma block_front: "block_holds b (x # xs) \<Longrightarrow> b_data b ! b_front b = Some x"
  unfolding block_holds_def slots_def by force

lemma slots_push:
  assumes "slots data h xs" and "length xs < length data"
  shows "slots (data[(h + length xs) mod length data := Some x]) h (xs @ [x])"
proof -
  let ?S = "length data"
  have S: "0 < ?S" using assms(2) by auto
  have eq: "(h + k) mod ?S = (h + length xs) mod ?S \<longleftrightarrow> k = length xs" if "k < ?S" for k
    using slot_eq [OF that assms(2)] .
  show ?thesis
    unfolding slots_def length_list_update
  proof (intro conjI allI impI)
    fix k assume k: "k < length (xs @ [x])"
    then have "k < ?S" using assms(2) by simp
    with S eq [of k] k assms(1) show "data[(h + length xs) mod ?S := Some x] ! ((h + k) mod ?S) = Some ((xs @ [x]) ! k)"
      by (cases "k = length xs") (auto simp: nth_list_update nth_append slots_def)
  next
    fix k assume "length (xs @ [x]) \<le> k \<and> k < ?S"
    with S eq [of k] assms(1) show "data[(h + length xs) mod ?S := Some x] ! ((h + k) mod ?S) = None"
      by (auto simp: nth_list_update slots_def)
  qed
qed

lemma slots_pop:
  assumes "slots data h (x # xs)" and "length xs < length data"
  shows "slots (data[h mod length data := None]) (h + 1) xs"
proof -
  let ?S = "length data"
  have S: "0 < ?S" using assms(2) by auto
  have eq: "(h + 1 + k) mod ?S = h mod ?S \<longleftrightarrow> k + 1 = ?S" if "k < ?S" for k
  proof (cases "k + 1 = ?S")
    case True
    then have "h + 1 + k = h + ?S" by simp
    then have "(h + 1 + k) mod ?S = h mod ?S" by (simp only: mod_add_self2)
    with True show ?thesis by blast
  next
    case False
    with that have "k + 1 < ?S" by simp
    with slot_eq [of "k + 1" ?S 0 h] S False show ?thesis by simp
  qed
  have first: "data ! ((h + 1 + k) mod ?S) = Some (xs ! k)" if "k < length xs" for k
    using assms(1) that unfolding slots_def by (auto dest: spec [of _ "Suc k"])
  have rest: "data ! ((h + 1 + k) mod ?S) = None" if "length xs \<le> k" "k + 1 < ?S" for k
    using assms(1) that unfolding slots_def by (auto dest: spec [of _ "Suc k"])
  show ?thesis
    unfolding slots_def length_list_update
  proof (intro conjI allI impI)
    fix k assume "k < length xs"
    with assms(2) eq [of k] first [of k] show "data[h mod ?S := None] ! ((h + 1 + k) mod ?S) = Some (xs ! k)"
      by (simp add: nth_list_update)
  next
    fix k assume "length xs \<le> k \<and> k < ?S"
    with S eq [of k] rest [of k] show "data[h mod ?S := None] ! ((h + 1 + k) mod ?S) = None"
      by (cases "k + 1 = ?S") (auto simp: nth_list_update)
  qed
qed

text \<open>What the operations need of a block: refreshing a cache, adding at the tail, taking at the front.\<close>

lemma block_refresh_front: "block_holds b xs \<Longrightarrow> block_holds (b\<lparr>b_localFront := b_front b\<rparr>) xs"
proof -
  assume "block_holds b xs"
  then obtain lf h lt where "lf \<le> h \<and> h \<le> lt \<and> lt \<le> h + length xs \<and> h + length xs \<le> lf + b_sizeMask b"
      "b_front b = h mod (b_sizeMask b + 1)" "b_localTail b = lt mod (b_sizeMask b + 1)"
      "b_tail b = (h + length xs) mod (b_sizeMask b + 1)" "slots (b_data b) h xs"
    and "pow2 (b_sizeMask b + 1)" "0 < b_sizeMask b" "length (b_data b) = b_sizeMask b + 1"
    unfolding block_holds_def by blast
  then show ?thesis unfolding block_holds_def by (intro conjI exI [of _ h] exI [of _ lt]) auto
qed

lemma block_refresh_tail: "block_holds b xs \<Longrightarrow> block_holds (b\<lparr>b_localTail := b_tail b\<rparr>) xs"
proof -
  assume "block_holds b xs"
  then obtain lf h where "lf \<le> h \<and> h + length xs \<le> lf + b_sizeMask b"
      "b_localFront b = lf mod (b_sizeMask b + 1)" "b_front b = h mod (b_sizeMask b + 1)"
      "b_tail b = (h + length xs) mod (b_sizeMask b + 1)" "slots (b_data b) h xs"
    and "pow2 (b_sizeMask b + 1)" "0 < b_sizeMask b" "length (b_data b) = b_sizeMask b + 1"
    unfolding block_holds_def by blast
  then show ?thesis
    unfolding block_holds_def by (intro conjI exI [of _ lf] exI [of _ h] exI [of _ "h + length xs"]) auto
qed

lemma mod_succ: "(a mod S + 1) mod S = (a + 1) mod (S :: nat)"
  by (simp add: mod_simps)

lemma block_push:
  assumes holds: "block_holds b xs" and room: "(b_tail b + 1) AND b_sizeMask b \<noteq> b_localFront b"
  shows "block_holds (b\<lparr>b_data := (b_data b)[b_tail b := Some x], b_tail := (b_tail b + 1) AND b_sizeMask b\<rparr>) (xs @ [x])"
proof -
  let ?S = "b_sizeMask b + 1"
  obtain lf h lt where ord: "lf \<le> h" "h \<le> lt" "lt \<le> h + length xs" "h + length xs \<le> lf + b_sizeMask b"
    and ix: "b_localFront b = lf mod ?S" "b_front b = h mod ?S" "b_localTail b = lt mod ?S" "b_tail b = (h + length xs) mod ?S"
    and sl: "slots (b_data b) h xs"
    and blk: "pow2 ?S" "0 < b_sizeMask b" "length (b_data b) = ?S"
    using holds unfolding block_holds_def by blast
  have "(b_tail b + 1) AND b_sizeMask b = (h + length xs + 1) mod ?S"
    unfolding and_mask_mod [OF blk(1)] ix(4) mod_succ ..
  moreover have "h + length xs \<noteq> lf + b_sizeMask b"
  proof
    assume "h + length xs = lf + b_sizeMask b"
    then have "h + length xs + 1 = lf + ?S" by simp
    then have "(h + length xs + 1) mod ?S = lf mod ?S" by (simp only: mod_add_self2)
    with calculation room ix(1) show False by simp
  qed
  moreover have "slots ((b_data b)[b_tail b := Some x]) h (xs @ [x])"
    using slots_push [OF sl, of x] ord blk(3) ix(4) by simp
  ultimately show ?thesis
    unfolding block_holds_def using ord ix blk
    by (intro conjI exI [of _ lf] exI [of _ h] exI [of _ lt]) auto
qed

lemma block_full:
  assumes holds: "block_holds b xs" and full: "(b_tail b + 1) AND b_sizeMask b = b_front b"
  shows "length xs = b_sizeMask b"
proof -
  let ?S = "b_sizeMask b + 1"
  obtain lf h where ord: "lf \<le> h" "h + length xs \<le> lf + b_sizeMask b"
    and ix: "b_front b = h mod ?S" "b_tail b = (h + length xs) mod ?S" and blk: "pow2 ?S"
    using holds unfolding block_holds_def by blast
  have "(h + length xs + 1) mod ?S = h mod ?S"
    using full unfolding and_mask_mod [OF blk] ix mod_succ .
  then have "h mod ?S = (h + length xs + 1) mod ?S" by simp
  with mod_eq_close [of h "h + length xs + 1" ?S] ord have "\<not> length xs + 1 < ?S" by auto
  with ord show ?thesis by simp
qed

lemma block_pop:
  assumes holds: "block_holds b (x # xs)" and seen: "b_front b \<noteq> b_localTail b"
  shows "block_holds (b\<lparr>b_data := (b_data b)[b_front b := None], b_front := (b_front b + 1) AND b_sizeMask b\<rparr>) xs"
proof -
  let ?S = "b_sizeMask b + 1"
  obtain lf h lt where ord: "lf \<le> h" "h \<le> lt" "lt \<le> h + length (x # xs)" "h + length (x # xs) \<le> lf + b_sizeMask b"
    and ix: "b_localFront b = lf mod ?S" "b_front b = h mod ?S" "b_localTail b = lt mod ?S" "b_tail b = (h + length (x # xs)) mod ?S"
    and sl: "slots (b_data b) h (x # xs)"
    and blk: "pow2 ?S" "0 < b_sizeMask b" "length (b_data b) = ?S"
    using holds unfolding block_holds_def by blast
  have "(b_front b + 1) AND b_sizeMask b = (h + 1) mod ?S"
    unfolding and_mask_mod [OF blk(1)] ix(2) mod_succ ..
  moreover have "h \<noteq> lt" using seen ix by auto
  moreover have "slots ((b_data b)[b_front b := None]) (h + 1) xs"
    using slots_pop [OF sl] ord blk(3) ix(2) by simp
  ultimately show ?thesis
    unfolding block_holds_def using ord ix blk
    by (intro conjI exI [of _ lf] exI [of _ "h + 1"] exI [of _ lt]) auto
qed

lemma block_seen: "block_holds b xs \<Longrightarrow> b_front b \<noteq> b_localTail b \<Longrightarrow> xs \<noteq> []"
  unfolding block_holds_def by auto

lemma make_block_holds: "pow2 n \<Longrightarrow> 2 \<le> n \<Longrightarrow> block_holds (make_block n) []"
  unfolding block_holds_def make_block_def
  by (auto simp: slots_def intro!: exI [of _ 0])

section \<open>The operations\<close>

text \<open>Reading the object at the front of a block, destroying it and moving the front on.\<close>

definition take_front :: "nat \<Rightarrow> 'a rwq \<Rightarrow> ('a \<times> 'a rwq) outcome" where
  "take_front a q =
     bind_outcome (blk q a) (\<lambda>b.
       if b_front b < length (b_data b) then
         case b_data b ! b_front b of
           None \<Rightarrow> Inl BadDeref
         | Some x \<Rightarrow> Inr (x, set_blk a (b\<lparr>b_data := (b_data b)[b_front b := None],
             b_front := (b_front b + 1) AND b_sizeMask b\<rparr>) q)
       else Inl BadDeref)"

definition rw_try_dequeue :: "'a rwq \<Rightarrow> ('a option \<times> 'a rwq) outcome" where
  "rw_try_dequeue q =
     (let F = q_frontBlock q in
      bind_outcome (blk q F) (\<lambda>b.
        let blockTail = b_localTail b; blockFront = b_front b in
        if blockFront \<noteq> blockTail then bind_outcome (take_front F q) (\<lambda>(x, q'). Inr (Some x, q'))
        else
          let q = set_blk F (b\<lparr>b_localTail := b_tail b\<rparr>) q in
          if blockFront \<noteq> b_tail b then bind_outcome (take_front F q) (\<lambda>(x, q'). Inr (Some x, q'))
          else if F \<noteq> q_tailBlock q then
            bind_outcome (blk q (b_next b)) (\<lambda>n.
              let q = set_blk (b_next b) (n\<lparr>b_localTail := b_tail n\<rparr>) q in
              if b_front n = b_tail n then Inl AssertFailed
              else bind_outcome (take_front (b_next b) (q\<lparr>q_frontBlock := b_next b\<rparr>)) (\<lambda>(x, q'). Inr (Some x, q')))
          else Inr (None, q)))"

definition rw_pop :: "'a rwq \<Rightarrow> (bool \<times> 'a rwq) outcome" where
  "rw_pop q =
     (let F = q_frontBlock q in
      bind_outcome (blk q F) (\<lambda>b.
        let blockTail = b_localTail b; blockFront = b_front b in
        if blockFront \<noteq> blockTail then bind_outcome (take_front F q) (\<lambda>(x, q'). Inr (True, q'))
        else
          let q = set_blk F (b\<lparr>b_localTail := b_tail b\<rparr>) q in
          if blockFront \<noteq> b_tail b then bind_outcome (take_front F q) (\<lambda>(x, q'). Inr (True, q'))
          else if F \<noteq> q_tailBlock q then
            bind_outcome (blk q (b_next b)) (\<lambda>n.
              let q = set_blk (b_next b) (n\<lparr>b_localTail := b_tail n\<rparr>) q in
              if b_front n = b_tail n then Inl AssertFailed
              else bind_outcome (take_front (b_next b) (q\<lparr>q_frontBlock := b_next b\<rparr>)) (\<lambda>(x, q'). Inr (True, q')))
          else Inr (False, q)))"

text \<open>\<open>peek\<close> returns a pointer: a block and an index, read with \<open>rw_read\<close>.\<close>

definition rw_peek :: "'a rwq \<Rightarrow> ((nat \<times> nat) option \<times> 'a rwq) outcome" where
  "rw_peek q =
     (let F = q_frontBlock q in
      bind_outcome (blk q F) (\<lambda>b.
        let blockTail = b_localTail b; blockFront = b_front b in
        if blockFront \<noteq> blockTail then Inr (Some (F, blockFront), q)
        else
          let q = set_blk F (b\<lparr>b_localTail := b_tail b\<rparr>) q in
          if blockFront \<noteq> b_tail b then Inr (Some (F, blockFront), q)
          else if F \<noteq> q_tailBlock q then
            bind_outcome (blk q (b_next b)) (\<lambda>n.
              if b_front n = b_tail n then Inl AssertFailed else Inr (Some (b_next b, b_front n), q))
          else Inr (None, q)))"

definition rw_read :: "'a rwq \<Rightarrow> nat \<times> nat \<Rightarrow> 'a outcome" where
  "rw_read q p =
     bind_outcome (blk q (fst p)) (\<lambda>b.
       if snd p < length (b_data b) then (case b_data b ! snd p of None \<Rightarrow> Inl BadDeref | Some x \<Rightarrow> Inr x)
       else Inl BadDeref)"

datatype allocation_mode = CanAlloc | CannotAlloc

text \<open>Constructing an object in the slot at the tail of a block.\<close>

definition put_tail :: "nat \<Rightarrow> 'a \<Rightarrow> 'a rwq \<Rightarrow> 'a rwq outcome" where
  "put_tail a x q =
     bind_outcome (blk q a) (\<lambda>b.
       if b_tail b < length (b_data b) then
         Inr (set_blk a (b\<lparr>b_data := (b_data b)[b_tail b := Some x], b_tail := (b_tail b + 1) AND b_sizeMask b\<rparr>) q)
       else Inl BadDeref)"

definition inner_enqueue :: "nat \<Rightarrow> allocation_mode \<Rightarrow> nat option \<Rightarrow> 'a \<Rightarrow> 'a rwq \<Rightarrow> (bool \<times> 'a rwq) outcome" where
  "inner_enqueue MAX_BLOCK_SIZE canAlloc malloc x q =
     (let T = q_tailBlock q in
      bind_outcome (blk q T) (\<lambda>b.
        let blockFront = b_localFront b; blockTail = b_tail b; nextBlockTail = (blockTail + 1) AND b_sizeMask b in
        if nextBlockTail \<noteq> blockFront then bind_outcome (put_tail T x q) (\<lambda>q. Inr (True, q))
        else
          let b = b\<lparr>b_localFront := b_front b\<rparr>; q = set_blk T b q in
          if nextBlockTail \<noteq> b_front b then bind_outcome (put_tail T x q) (\<lambda>q. Inr (True, q))
          else if b_next b \<noteq> q_frontBlock q then
            bind_outcome (blk q (b_next b)) (\<lambda>n.
              if b_front n \<noteq> b_tail n then Inl AssertFailed
              else bind_outcome (put_tail (b_next b) x (set_blk (b_next b) (n\<lparr>b_localFront := b_front n\<rparr>) q))
                     (\<lambda>q. Inr (True, q\<lparr>q_tailBlock := b_next b\<rparr>)))
          else if canAlloc = CanAlloc then
            let newBlockSize = (if q_largest q \<ge> MAX_BLOCK_SIZE then q_largest q else q_largest q * 2) in
            case malloc of
              None \<Rightarrow> Inr (False, q)
            | Some a \<Rightarrow>
                let new = make_block newBlockSize;
                    new = new\<lparr>b_data := (b_data new)[0 := Some x], b_tail := 1, b_localTail := 1, b_next := b_next b\<rparr>
                in Inr (True, set_blk T (b\<lparr>b_next := a\<rparr>) (set_blk a new q)\<lparr>q_largest := newBlockSize, q_tailBlock := a\<rparr>)
          else Inr (False, q)))"

definition rw_enqueue :: "nat \<Rightarrow> nat option \<Rightarrow> 'a \<Rightarrow> 'a rwq \<Rightarrow> (bool \<times> 'a rwq) outcome" where
  "rw_enqueue MAX_BLOCK_SIZE malloc x q = inner_enqueue MAX_BLOCK_SIZE CanAlloc malloc x q"

definition rw_try_enqueue :: "nat \<Rightarrow> 'a \<Rightarrow> 'a rwq \<Rightarrow> (bool \<times> 'a rwq) outcome" where
  "rw_try_enqueue MAX_BLOCK_SIZE x q = inner_enqueue MAX_BLOCK_SIZE CannotAlloc None x q"

text \<open>The loop of \<open>size_approx\<close>: it follows \<open>next\<close> until it is back at the front block.\<close>

partial_function (option) size_loop :: "'a rwq \<Rightarrow> nat \<Rightarrow> nat \<Rightarrow> nat option" where
  "size_loop q a result =
     (case q_blocks q a of
        None \<Rightarrow> None
      | Some b \<Rightarrow>
          let result' = result + (size_sub (b_tail b) (b_front b) AND b_sizeMask b) in
          if b_next b \<noteq> q_frontBlock q then size_loop q (b_next b) result' else Some result')"

definition rw_size_approx :: "'a rwq \<Rightarrow> nat option" where
  "rw_size_approx q = size_loop q (q_frontBlock q) 0"

section \<open>The ring\<close>

text \<open>
  \<open>ring\<close> are the blocks from the front block on, along \<open>next\<close>; \<open>xss\<close> their contents; \<open>m\<close> a lower
  bound of what a block holds.
\<close>

definition rw_blocks :: "nat \<Rightarrow> (nat \<rightharpoonup> 'a block) \<Rightarrow> nat list \<Rightarrow> 'a list list \<Rightarrow> bool" where
  "rw_blocks m heap ring xss \<longleftrightarrow> length xss = length ring \<and> distinct ring \<and> dom heap = set ring \<and>
     (\<forall>i < length ring. \<exists>b. heap (ring ! i) = Some b \<and> b_next b = ring ! (Suc i mod length ring) \<and>
        block_holds b (xss ! i) \<and> m \<le> b_sizeMask b)"

text \<open>
  The invariant: the tail block is the \<open>t\<close>-th of the ring; blocks strictly between are full, those behind the
  tail block are empty, and the tail block is not unless it is the front block.
\<close>

definition rw_holds :: "nat \<Rightarrow> 'a rwq \<Rightarrow> nat list \<Rightarrow> nat \<Rightarrow> 'a list list \<Rightarrow> bool" where
  "rw_holds m q ring t xss \<longleftrightarrow> rw_blocks m (q_blocks q) ring xss \<and> t < length ring \<and>
     ring ! 0 = q_frontBlock q \<and> ring ! t = q_tailBlock q \<and>
     (\<forall>i b. 0 < i \<and> i < t \<longrightarrow> q_blocks q (ring ! i) = Some b \<longrightarrow> length (xss ! i) = b_sizeMask b) \<and>
     (0 < t \<longrightarrow> xss ! t \<noteq> []) \<and> (\<forall>i. t < i \<and> i < length ring \<longrightarrow> xss ! i = []) \<and>
     pow2 (q_largest q) \<and> m < q_largest q \<and> 2 \<le> q_largest q"

definition rw_queue :: "nat \<Rightarrow> nat \<Rightarrow> 'a rwq \<Rightarrow> 'a list \<Rightarrow> bool" where
  "rw_queue m n q xs \<longleftrightarrow> (\<exists>ring t xss. rw_holds m q ring t xss \<and> n \<le> length ring \<and> xs = concat xss)"

lemma rw_blocks_at:
  "rw_blocks m heap ring xss \<Longrightarrow> i < length ring \<Longrightarrow>
   \<exists>b. heap (ring ! i) = Some b \<and> b_next b = ring ! (Suc i mod length ring) \<and> block_holds b (xss ! i) \<and> m \<le> b_sizeMask b"
  by (simp add: rw_blocks_def)

lemma rw_blocks_set:
  assumes "rw_blocks m heap ring xss" and "i < length ring" and "b_next b = ring ! (Suc i mod length ring)"
    and "block_holds b ys" and "m \<le> b_sizeMask b"
  shows "rw_blocks m (heap(ring ! i \<mapsto> b)) ring (xss[i := ys])"
  unfolding rw_blocks_def
proof (intro conjI allI impI)
  show "length (xss[i := ys]) = length ring" "distinct ring" "dom (heap(ring ! i \<mapsto> b)) = set ring"
    using assms(1,2) by (auto simp: rw_blocks_def)
  fix j assume j: "j < length ring"
  have d: "ring ! j = ring ! i \<longleftrightarrow> j = i" using assms(1,2) j by (simp add: rw_blocks_def nth_eq_iff_index_eq)
  have l: "length xss = length ring" using assms(1) by (simp add: rw_blocks_def)
  show "\<exists>b'. (heap(ring ! i \<mapsto> b)) (ring ! j) = Some b' \<and> b_next b' = ring ! (Suc j mod length ring) \<and>
      block_holds b' (xss[i := ys] ! j) \<and> m \<le> b_sizeMask b'"
    using rw_blocks_at [OF assms(1) j] assms(2-5) d l by (cases "j = i") auto
qed

lemma rw_blocks_rotate:
  assumes "rw_blocks m heap ring xss"
  shows "rw_blocks m heap (rotate1 ring) (rotate1 xss)"
  unfolding rw_blocks_def
proof (intro conjI allI impI)
  show "length (rotate1 xss) = length (rotate1 ring)" "distinct (rotate1 ring)" "dom heap = set (rotate1 ring)"
    using assms by (simp_all add: rw_blocks_def)
  fix i assume i: "i < length (rotate1 ring)"
  have l: "length xss = length ring" using assms by (simp add: rw_blocks_def)
  have i': "Suc i mod length ring < length ring" using i by (intro mod_less_divisor) auto
  show "\<exists>b. heap (rotate1 ring ! i) = Some b \<and> b_next b = rotate1 ring ! (Suc i mod length (rotate1 ring)) \<and>
      block_holds b (rotate1 xss ! i) \<and> m \<le> b_sizeMask b"
    using rw_blocks_at [OF assms i'] i i' l by (simp add: nth_rotate1)
qed

lemma rw_blocks_extend:
  assumes "rw_blocks m heap ring xss" and "ring \<noteq> []" and "a \<notin> dom heap" and "heap (last ring) = Some b"
    and "block_holds new ys" and "b_next new = ring ! 0" and "m \<le> b_sizeMask new"
  shows "rw_blocks m ((heap(a \<mapsto> new))(last ring \<mapsto> b\<lparr>b_next := a\<rparr>)) (ring @ [a]) (xss @ [ys])"
  unfolding rw_blocks_def
proof (intro conjI allI impI)
  have l: "length xss = length ring" and d: "distinct ring" using assms(1) by (simp_all add: rw_blocks_def)
  have in_dom: "ring ! i \<in> dom heap" if "i < length ring" for i using rw_blocks_at [OF assms(1) that] by auto
  have a: "a \<notin> set ring" using in_dom assms(3) by (auto simp: in_set_conv_nth)
  show "length (xss @ [ys]) = length (ring @ [a])" "distinct (ring @ [a])" using l d a by simp_all
  show "dom ((heap(a \<mapsto> new))(last ring \<mapsto> b\<lparr>b_next := a\<rparr>)) = set (ring @ [a])"
    using assms(1) last_in_set [OF assms(2)] by (auto simp: rw_blocks_def)
  fix i assume "i < length (ring @ [a])"
  then consider "i = length ring" | "i = length ring - 1" "i < length ring" | "Suc i < length ring" by fastforce
  then show "\<exists>b'. ((heap(a \<mapsto> new))(last ring \<mapsto> b\<lparr>b_next := a\<rparr>)) ((ring @ [a]) ! i) = Some b' \<and>
      b_next b' = (ring @ [a]) ! (Suc i mod length (ring @ [a])) \<and> block_holds b' ((xss @ [ys]) ! i) \<and> m \<le> b_sizeMask b'"
  proof cases
    case 1
    have "last ring \<noteq> a" using a assms(2) by auto
    with 1 assms l show ?thesis by (simp add: nth_append)
  next
    case 2
    then have "ring ! i = last ring" using assms(2) by (simp add: last_conv_nth)
    moreover have "Suc i = length ring" using 2 by simp
    moreover have "block_holds (b\<lparr>b_next := a\<rparr>) (xss ! i) \<and> m \<le> b_sizeMask b"
      using rw_blocks_at [OF assms(1) 2(2)] assms(4) \<open>ring ! i = last ring\<close> by (auto simp: block_holds_def)
    ultimately show ?thesis using 2 l by (auto simp: nth_append)
  next
    case 3
    then have "ring ! i \<noteq> last ring" using d assms(2) by (auto simp: last_conv_nth nth_eq_iff_index_eq)
    moreover have "ring ! i \<noteq> a" using a 3 by (auto simp: in_set_conv_nth)
    ultimately show ?thesis using rw_blocks_at [OF assms(1), of i] 3 l by (auto simp: nth_append)
  qed
qed

lemma set_blk_simps [simp]:
  "q_blocks (set_blk a b q) = (q_blocks q)(a \<mapsto> b)" "q_frontBlock (set_blk a b q) = q_frontBlock q"
  "q_tailBlock (set_blk a b q) = q_tailBlock q" "q_largest (set_blk a b q) = q_largest q"
  by (simp_all add: set_blk_def)

lemma rw_holds_blocks: "rw_holds m q ring t xss \<Longrightarrow> rw_blocks m (q_blocks q) ring xss"
  by (simp add: rw_holds_def)

lemma rw_holds_at:
  assumes "rw_holds m q ring t xss" and "i < length ring"
  obtains b where "q_blocks q (ring ! i) = Some b" and "b_next b = ring ! (Suc i mod length ring)"
    and "block_holds b (xss ! i)" and "m \<le> b_sizeMask b"
  using rw_blocks_at [OF rw_holds_blocks [OF assms(1)] assms(2)] by blast

lemma ring_eq: "rw_holds m q ring t xss \<Longrightarrow> i < length ring \<Longrightarrow> j < length ring \<Longrightarrow> ring ! i = ring ! j \<longleftrightarrow> i = j"
  by (simp add: rw_holds_def rw_blocks_def nth_eq_iff_index_eq)

lemma rw_holds_lengths: "rw_holds m q ring t xss \<Longrightarrow> length xss = length ring \<and> t < length ring \<and> ring \<noteq> []"
  by (auto simp: rw_holds_def rw_blocks_def)

text \<open>Refreshing a cache of a block changes nothing the ring says.\<close>

lemma rw_holds_set:
  assumes h: "rw_holds m q ring t xss" and i: "i < length ring" and b: "q_blocks q (ring ! i) = Some b"
    and b': "b_next b' = b_next b" "b_sizeMask b' = b_sizeMask b" "block_holds b' (xss ! i)"
  shows "rw_holds m (set_blk (ring ! i) b' q) ring t xss"
proof -
  obtain c where c: "q_blocks q (ring ! i) = Some c" "b_next c = ring ! (Suc i mod length ring)" "m \<le> b_sizeMask c"
    using rw_holds_at [OF h i] by metis
  have "rw_blocks m ((q_blocks q)(ring ! i \<mapsto> b')) ring (xss[i := xss ! i])"
    by (rule rw_blocks_set [OF rw_holds_blocks [OF h] i]) (use b b' c in auto)
  moreover have "length (xss ! j) = b_sizeMask d"
    if "0 < j" "j < t" "((q_blocks q)(ring ! i \<mapsto> b')) (ring ! j) = Some d" for j d
    using that b b'(2) h ring_eq [OF h, of j i] rw_holds_lengths [OF h] i
    by (auto simp: rw_holds_def split: if_splits)
  ultimately show ?thesis using h by (auto simp: rw_holds_def)
qed

text \<open>Taking the front object of the front block.\<close>

lemma rw_holds_take:
  assumes h: "rw_holds m q ring t ((x # ys) # yss)" and b: "q_blocks q (ring ! 0) = Some b" and seen: "b_front b \<noteq> b_localTail b"
  shows "\<exists>q'. take_front (ring ! 0) q = Inr (x, q') \<and> rw_holds m q' ring t (ys # yss)"
proof -
  note len = rw_holds_lengths [OF h]
  then have i: "0 < length ring" by auto
  obtain c where c: "q_blocks q (ring ! 0) = Some c" "b_next c = ring ! (Suc 0 mod length ring)"
      "block_holds c (x # ys)" "m \<le> b_sizeMask c"
    using rw_holds_at [OF h i] by (metis nth_Cons_0)
  with b have holds: "block_holds b (x # ys)" by simp
  let ?b' = "b\<lparr>b_data := (b_data b)[b_front b := None], b_front := (b_front b + 1) AND b_sizeMask b\<rparr>"
  have take: "take_front (ring ! 0) q = Inr (x, set_blk (ring ! 0) ?b' q)"
    using b block_front [OF holds] block_holds_index [OF holds] by (simp add: take_front_def blk_def)
  have "rw_blocks m ((q_blocks q)(ring ! 0 \<mapsto> ?b')) ring (((x # ys) # yss)[0 := ys])"
    by (rule rw_blocks_set [OF rw_holds_blocks [OF h] i]) (use b c block_pop [OF holds seen] in auto)
  moreover have "length (((ys # yss)) ! j) = b_sizeMask d"
    if "0 < j" "j < t" "((q_blocks q)(ring ! 0 \<mapsto> ?b')) (ring ! j) = Some d" for j d
    using that h ring_eq [OF h, of j 0] len by (cases j) (auto simp: rw_holds_def split: if_splits)
  moreover have "(ys # yss) ! j = ((x # ys) # yss) ! j" if "0 < j" for j using that by (cases j) auto
  ultimately have "rw_holds m (set_blk (ring ! 0) ?b' q) ring t (ys # yss)"
    using h by (auto simp: rw_holds_def)
  with take show ?thesis by blast
qed

text \<open>Moving on from an empty front block.\<close>

lemma rw_holds_advance:
  assumes h: "rw_holds m q ring t xss" and empty: "xss ! 0 = []" and t: "0 < t"
  shows "rw_holds m (q\<lparr>q_frontBlock := ring ! 1\<rparr>) (rotate1 ring) (t - 1) (rotate1 xss) \<and> concat (rotate1 xss) = concat xss"
proof -
  note len = rw_holds_lengths [OF h]
  have l1: "1 < length ring" using len t by auto
  have nth: "rotate1 ring ! i = ring ! Suc i" "rotate1 xss ! i = xss ! Suc i" if "Suc i < length ring" for i
    using that len by (simp_all add: nth_rotate1)
  have last: "rotate1 xss ! i = (if Suc i = length ring then xss ! 0 else xss ! Suc i)" if "i < length ring" for i
    using that len by (cases "Suc i = length ring") (simp_all add: nth_rotate1)
  have "rw_holds m (q\<lparr>q_frontBlock := ring ! 1\<rparr>) (rotate1 ring) (t - 1) (rotate1 xss)"
    unfolding rw_holds_def
  proof (intro conjI allI impI)
    show "rw_blocks m (q_blocks (q\<lparr>q_frontBlock := ring ! 1\<rparr>)) (rotate1 ring) (rotate1 xss)"
      using rw_blocks_rotate [OF rw_holds_blocks [OF h]] by simp
    show "t - 1 < length (rotate1 ring)" using len by (simp add: less_imp_diff_less)
    show "rotate1 ring ! 0 = q_frontBlock (q\<lparr>q_frontBlock := ring ! 1\<rparr>)" using nth [of 0] l1 by simp
    show "rotate1 ring ! (t - 1) = q_tailBlock (q\<lparr>q_frontBlock := ring ! 1\<rparr>)"
      using nth [of "t - 1"] t len h by (simp add: rw_holds_def)
    show "pow2 (q_largest (q\<lparr>q_frontBlock := ring ! 1\<rparr>))" "m < q_largest (q\<lparr>q_frontBlock := ring ! 1\<rparr>)"
        "2 \<le> q_largest (q\<lparr>q_frontBlock := ring ! 1\<rparr>)"
      using h by (simp_all add: rw_holds_def)
  next
    fix i b assume "0 < i \<and> i < t - 1" "q_blocks (q\<lparr>q_frontBlock := ring ! 1\<rparr>) (rotate1 ring ! i) = Some b"
    moreover have "Suc i < length ring" using calculation len by linarith
    moreover have "0 < Suc i \<and> Suc i < t" using calculation by linarith
    ultimately show "length (rotate1 xss ! i) = b_sizeMask b"
      using nth [of i] h unfolding rw_holds_def by auto
  next
    assume "0 < t - 1"
    then show "rotate1 xss ! (t - 1) \<noteq> []" using nth [of "t - 1"] len h by (simp add: rw_holds_def)
  next
    fix i assume "t - 1 < i \<and> i < length (rotate1 ring)"
    then show "rotate1 xss ! i = []" using last [of i] empty t h by (auto simp: rw_holds_def)
  qed
  moreover have "concat (rotate1 xss) = concat xss" using empty len by (cases xss) auto
  ultimately show ?thesis ..
qed

text \<open>Objects are behind an empty front block exactly when it is not the tail block.\<close>

lemma rw_front_empty:
  assumes h: "rw_holds m q ring t xss" and empty: "xss ! 0 = []"
  shows "concat xss = [] \<longleftrightarrow> t = 0"
proof
  assume "t = 0"
  with h empty have "\<forall>i < length xss. xss ! i = []" using rw_holds_lengths [OF h]
    by (metis gr0I rw_holds_def)
  then show "concat xss = []" by (auto simp: concat_eq_Nil_conv in_set_conv_nth)
next
  assume c: "concat xss = []"
  show "t = 0"
  proof (rule ccontr)
    assume "t \<noteq> 0"
    with h have "xss ! t \<noteq> []" "t < length xss" using rw_holds_lengths [OF h] by (auto simp: rw_holds_def)
    with c show False by (simp add: concat_eq_Nil_conv)
  qed
qed

lemma rw_next_nonempty:
  assumes h: "rw_holds m q ring t xss" and t: "0 < t"
  shows "xss ! 1 \<noteq> []"
proof (cases "t = 1")
  case True
  with h show ?thesis by (simp add: rw_holds_def)
next
  case False
  with t have t1: "1 < t" by simp
  then have l: "1 < length ring" using rw_holds_lengths [OF h] by auto
  from rw_holds_at [OF h l] obtain b where b: "q_blocks q (ring ! 1) = Some b" "block_holds b (xss ! 1)" by metis
  with h t1 have "length (xss ! 1) = b_sizeMask b" by (auto simp: rw_holds_def)
  with b(2) show ?thesis by (auto simp: block_holds_def)
qed

section \<open>Dequeuing\<close>

lemma rw_take:
  assumes h: "rw_holds m q ring t xss" and n: "n \<le> length ring" and b: "q_blocks q (ring ! 0) = Some b"
    and seen: "b_front b \<noteq> b_localTail b"
  shows "\<exists>x ys q'. concat xss = x # ys \<and> take_front (ring ! 0) q = Inr (x, q') \<and> rw_queue m n q' ys"
proof -
  note len = rw_holds_lengths [OF h]
  then have "0 < length ring" by auto
  from rw_holds_at [OF h this] b have "block_holds b (xss ! 0)" by (metis option.inject)
  from block_seen [OF this seen] have "xss ! 0 \<noteq> []" .
  moreover obtain ws yss where "xss = ws # yss" using len by (cases xss) auto
  ultimately obtain x ys where xss: "xss = (x # ys) # yss" by (cases ws) auto
  from rw_holds_take [OF h [unfolded xss] b seen] obtain q' where
    "take_front (ring ! 0) q = Inr (x, q')" "rw_holds m q' ring t (ys # yss)" by blast
  moreover from this n have "rw_queue m n q' (ys @ concat yss)"
    unfolding rw_queue_def by (intro exI [of _ ring] exI [of _ t] exI [of _ "ys # yss"]) simp
  ultimately show ?thesis by (simp add: xss)
qed

text \<open>\<open>try_dequeue\<close> refines taking the head of a list.\<close>

lemma rw_try_dequeue_refines:
  assumes "rw_queue m n q xs"
  shows "\<exists>q'. rw_try_dequeue q = Inr (if xs = [] then None else Some (hd xs), q') \<and> rw_queue m n q' (tl xs)"
proof -
  obtain ring t xss where h: "rw_holds m q ring t xss" and n: "n \<le> length ring" and xs: "xs = concat xss"
    using assms unfolding rw_queue_def by blast
  note len = rw_holds_lengths [OF h]
  have i: "0 < length ring" using len by auto
  have F: "q_frontBlock q = ring ! 0" and T: "q_tailBlock q = ring ! t" using h by (simp_all add: rw_holds_def)
  obtain b where b: "q_blocks q (ring ! 0) = Some b" "b_next b = ring ! (Suc 0 mod length ring)" "block_holds b (xss ! 0)"
    using rw_holds_at [OF h i] by metis
  let ?b1 = "b\<lparr>b_localTail := b_tail b\<rparr>" and ?q1 = "set_blk (ring ! 0) (b\<lparr>b_localTail := b_tail b\<rparr>) q"
  have h1: "rw_holds m ?q1 ring t xss"
    by (rule rw_holds_set [OF h i b(1)]) (use block_refresh_tail [OF b(3)] in auto)
  consider (fast) "b_front b \<noteq> b_localTail b" | (fresh) "b_front b = b_localTail b" "b_front b \<noteq> b_tail b"
    | (empty) "b_front b = b_localTail b" "b_front b = b_tail b" "t = 0"
    | (advance) "b_front b = b_localTail b" "b_front b = b_tail b" "0 < t" by fastforce
  then show ?thesis
  proof cases
    case fast
    from rw_take [OF h n b(1) fast, folded xs] obtain x ys q' where
      "xs = x # ys" "take_front (ring ! 0) q = Inr (x, q')" "rw_queue m n q' ys" by blast
    with fast show ?thesis by (simp add: rw_try_dequeue_def F blk_def b(1))
  next
    case fresh
    have "\<exists>x ys q'. concat xss = x # ys \<and> take_front (ring ! 0) ?q1 = Inr (x, q') \<and> rw_queue m n q' ys"
      by (rule rw_take [OF h1 n, of ?b1]) (use fresh in simp_all)
    then obtain x ys q' where "xs = x # ys" "take_front (ring ! 0) ?q1 = Inr (x, q')" "rw_queue m n q' ys"
      using xs by blast
    with fresh show ?thesis by (simp add: rw_try_dequeue_def F blk_def b(1))
  next
    case empty
    have "xs = []" using rw_front_empty [OF h] block_empty [OF b(3)] empty xs by blast
    moreover have "rw_queue m n ?q1 xs" using h1 n xs unfolding rw_queue_def by blast
    ultimately show ?thesis using empty by (auto simp: rw_try_dequeue_def F T blk_def b(1) bind_outcome_def)
  next
    case advance
    have e: "xss ! 0 = []" using block_empty [OF b(3)] advance by simp
    have l1: "1 < length ring" using len advance by linarith
    then have nx: "b_next b = ring ! 1" using b(2) by simp
    obtain c where c: "q_blocks ?q1 (ring ! 1) = Some c" "block_holds c (xss ! 1)" using rw_holds_at [OF h1 l1] by metis
    let ?c1 = "c\<lparr>b_localTail := b_tail c\<rparr>" and ?q2 = "set_blk (ring ! 1) (c\<lparr>b_localTail := b_tail c\<rparr>) ?q1"
    have h2: "rw_holds m ?q2 ring t xss"
      by (rule rw_holds_set [OF h1 l1 c(1)]) (use block_refresh_tail [OF c(2)] in auto)
    have ne: "b_front c \<noteq> b_tail c" using block_empty [OF c(2)] rw_next_nonempty [OF h] advance by simp
    note h3 = rw_holds_advance [OF h2 e advance(3)]
    have r0: "rotate1 ring ! 0 = ring ! 1" using l1 nth_rotate1 [OF i] by simp
    have "\<exists>x ys q'. concat (rotate1 xss) = x # ys \<and>
        take_front (rotate1 ring ! 0) (?q2\<lparr>q_frontBlock := ring ! 1\<rparr>) = Inr (x, q') \<and> rw_queue m n q' ys"
      by (rule rw_take [OF conjunct1 [OF h3], of _ ?c1]) (use n r0 ne in simp_all)
    then obtain x ys q' where "xs = x # ys" "rw_queue m n q' ys"
        "take_front (ring ! 1) (?q2\<lparr>q_frontBlock := ring ! 1\<rparr>) = Inr (x, q')"
      using xs h3 r0 by auto
    moreover have "ring ! 0 \<noteq> ring ! t" using ring_eq [OF h i, of t] len advance by simp
    ultimately show ?thesis using nx ne advance c(1) by (simp add: rw_try_dequeue_def F T blk_def b(1))
  qed
qed

text \<open>\<open>pop\<close> is \<open>try_dequeue\<close> without the value.\<close>

lemma rw_pop_dequeue:
  "rw_pop q = bind_outcome (rw_try_dequeue q) (\<lambda>(v, q'). Inr (v \<noteq> None, q'))"
  by (simp add: rw_pop_def rw_try_dequeue_def Let_def bind_outcome_def case_prod_beta split: sum.split)

section \<open>Enqueuing\<close>

lemma concat_snoc_at:
  "i < length xss \<Longrightarrow> \<forall>j. i < j \<and> j < length xss \<longrightarrow> xss ! j = [] \<Longrightarrow> concat (xss[i := xss ! i @ [x]]) = concat xss @ [x]"
proof -
  assume i: "i < length xss" and rest: "\<forall>j. i < j \<and> j < length xss \<longrightarrow> xss ! j = []"
  have "concat (drop (Suc i) xss) = []" using rest by (auto simp: concat_eq_Nil_conv in_set_conv_nth)
  moreover have "xss = take i xss @ xss ! i # drop (Suc i) xss" using i by (rule id_take_nth_drop)
  then have "concat xss = concat (take i xss) @ xss ! i @ concat (drop (Suc i) xss)"
    by (metis concat_append concat.simps(2))
  ultimately show ?thesis using i by (simp only: upd_conv_take_nth_drop concat_append concat.simps append_assoc append_Nil2 append_Nil)
qed

text \<open>Adding at the tail of block \<open>i\<close>, the tail block or the free one behind it, which becomes the tail block.\<close>

lemma rw_put:
  assumes h: "rw_holds m q ring t xss" and i: "i < length ring" "i = t \<or> i = Suc t"
    and full: "\<And>c. 0 < t \<Longrightarrow> t < i \<Longrightarrow> q_blocks q (ring ! t) = Some c \<Longrightarrow> length (xss ! t) = b_sizeMask c"
    and b: "q_blocks q (ring ! i) = Some b" and room: "(b_tail b + 1) AND b_sizeMask b \<noteq> b_localFront b"
  shows "\<exists>q'. put_tail (ring ! i) x q = Inr q' \<and> q_tailBlock q' = q_tailBlock q \<and>
    rw_holds m (q'\<lparr>q_tailBlock := ring ! i\<rparr>) ring i (xss[i := xss ! i @ [x]]) \<and>
    concat (xss[i := xss ! i @ [x]]) = concat xss @ [x]"
proof -
  note len = rw_holds_lengths [OF h]
  obtain c where c: "q_blocks q (ring ! i) = Some c" "b_next c = ring ! (Suc i mod length ring)"
      "block_holds c (xss ! i)" "m \<le> b_sizeMask c"
    using rw_holds_at [OF h i(1)] by metis
  with b have holds: "block_holds b (xss ! i)" by simp
  let ?b' = "b\<lparr>b_data := (b_data b)[b_tail b := Some x], b_tail := (b_tail b + 1) AND b_sizeMask b\<rparr>"
    and ?q' = "set_blk (ring ! i) (b\<lparr>b_data := (b_data b)[b_tail b := Some x], b_tail := (b_tail b + 1) AND b_sizeMask b\<rparr>) q"
    and ?ys = "xss[i := xss ! i @ [x]]"
  have put: "put_tail (ring ! i) x q = Inr ?q'"
    using b block_holds_index [OF holds] by (simp add: put_tail_def blk_def)
  have blocks: "rw_blocks m ((q_blocks q)(ring ! i \<mapsto> ?b')) ring ?ys"
    by (rule rw_blocks_set [OF rw_holds_blocks [OF h] i(1)]) (use b c block_push [OF holds room] in auto)
  have between: "length (?ys ! j) = b_sizeMask d"
    if "0 < j" "j < i" "((q_blocks q)(ring ! i \<mapsto> ?b')) (ring ! j) = Some d" for j d
  proof -
    have l: "j < length ring" "j \<noteq> i" using that i by linarith+
    then have d: "q_blocks q (ring ! j) = Some d" using that(3) ring_eq [OF h l(1) i(1)] by simp
    show ?thesis
    proof (cases "j < t")
      case True
      with h that d show ?thesis by (auto simp: rw_holds_def)
    next
      case False
      with that i have "j = t" by linarith
      with full [of d] that d show ?thesis by simp
    qed
  qed
  have "rw_holds m (?q'\<lparr>q_tailBlock := ring ! i\<rparr>) ring i ?ys"
    using h blocks between len i by (auto simp: rw_holds_def)
  moreover have "\<forall>j. i < j \<and> j < length xss \<longrightarrow> xss ! j = []" using h len i by (auto simp: rw_holds_def)
  with len i(1) have "concat ?ys = concat xss @ [x]" by (intro concat_snoc_at) auto
  ultimately show ?thesis using put by simp
qed

lemma new_block_holds:
  assumes "pow2 N" and "2 \<le> N"
  shows "block_holds ((make_block N)\<lparr>b_data := (b_data (make_block N))[0 := Some x], b_tail := 1, b_localTail := 1, b_next := a\<rparr>) [x]"
proof -
  have "slots (replicate N None) 0 []" by (simp add: slots_def)
  from slots_push [OF this, of x] assms(2) have "slots ((replicate N None)[0 := Some x]) 0 [x]" by simp
  with assms show ?thesis
    unfolding block_holds_def make_block_def
    by (intro conjI exI [of _ 0] exI [of _ 1] exI [where x = "0 :: nat"]) auto
qed

text \<open>A new block behind the tail block, which is the last of the ring.\<close>

lemma rw_new_block:
  assumes h: "rw_holds m q ring t xss" and t: "Suc t = length ring" and b: "q_blocks q (ring ! t) = Some b"
    and full: "length (xss ! t) = b_sizeMask b" and fresh: "a \<notin> dom (q_blocks q)"
    and N: "pow2 N" "2 \<le> N" "m < N"
    and new: "new = (make_block N)\<lparr>b_data := (b_data (make_block N))[0 := Some x], b_tail := 1, b_localTail := 1, b_next := ring ! 0\<rparr>"
  shows "rw_holds m (set_blk (ring ! t) (b\<lparr>b_next := a\<rparr>) (set_blk a new q)\<lparr>q_largest := N, q_tailBlock := a\<rparr>)
    (ring @ [a]) (length ring) (xss @ [[x]])"
proof -
  note len = rw_holds_lengths [OF h]
  have last: "last ring = ring ! t" using len t by (metis diff_Suc_1 last_conv_nth)
  have mask: "b_next new = ring ! 0" "m \<le> b_sizeMask new" "block_holds new [x]"
    using N new_block_holds [OF N(1,2), of "ring ! 0" x] by (simp_all add: new make_block_def)
  have "rw_blocks m ((q_blocks q)(a \<mapsto> new, ring ! t \<mapsto> b\<lparr>b_next := a\<rparr>)) (ring @ [a]) (xss @ [[x]])"
    using rw_blocks_extend [OF rw_holds_blocks [OF h] _ fresh _ mask(3) mask(1,2), of b] len b by (simp add: last)
  moreover have "length ((xss @ [[x]]) ! i) = b_sizeMask d"
    if "0 < i" "i < length ring" "((q_blocks q)(a \<mapsto> new, ring ! t \<mapsto> b\<lparr>b_next := a\<rparr>)) ((ring @ [a]) ! i) = Some d" for i d
  proof (cases "i = t")
    case True
    with that full len show ?thesis by (auto simp: nth_append)
  next
    case False
    with that t have it: "i < t" by linarith
    then have "ring ! i \<noteq> a" using rw_holds_at [OF h that(2)] fresh by (metis domI)
    with that it False h len ring_eq [OF h that(2), of t] show ?thesis
      by (auto simp: rw_holds_def nth_append)
  qed
  ultimately show ?thesis using h len N by (auto simp: rw_holds_def nth_append)
qed

text \<open>
  \<open>inner_enqueue\<close> refines appending to a list. It can fail only when the tail block and every block between it
  and the front block are full and a new block is not wanted or not to be had; then nothing changed.
\<close>

definition fresh_block :: "'a rwq \<Rightarrow> nat option \<Rightarrow> bool" where
  "fresh_block q malloc \<longleftrightarrow> (\<forall>a. malloc = Some a \<longrightarrow> a \<notin> dom (q_blocks q))"

lemma rw_full_length:
  assumes h: "rw_holds m q ring t xss" and t: "Suc t = length ring" and full: "m \<le> length (xss ! t)"
  shows "m * max 1 (length ring - 1) \<le> length (concat xss)"
proof -
  note len = rw_holds_lengths [OF h]
  have each: "m \<le> length (xss ! i)" if "0 < i" "i < length ring" for i
  proof (cases "i = t")
    case False
    with that t have it: "i < t" by linarith
    from rw_holds_at [OF h that(2)] obtain c where "q_blocks q (ring ! i) = Some c" "m \<le> b_sizeMask c" by metis
    with that it h show ?thesis by (auto simp: rw_holds_def)
  qed (use full in simp)
  obtain ys yss where xss: "xss = ys # yss" using len by (cases xss) auto
  have "\<forall>zs \<in> set yss. m \<le> length zs"
    using each [of "Suc _"] len by (auto simp: in_set_conv_nth xss)
  then have "m * length yss \<le> length (concat yss)" by (induction yss) auto
  moreover have "length ring = 1 \<Longrightarrow> m \<le> length ys" using full t by (simp add: xss)
  moreover have "length ring - 1 = length yss" "length ring = 1 \<longleftrightarrow> yss = []" using len by (auto simp: xss)
  ultimately show ?thesis by (cases "yss = []") (simp_all add: xss max_absorb2 Suc_leI)
qed

lemma inner_enqueue_refines:
  assumes q: "rw_queue m n q xs" and fresh: "fresh_block q malloc"
  shows "\<exists>ok q'. inner_enqueue M can malloc x q = Inr (ok, q') \<and> rw_queue m n q' (if ok then xs @ [x] else xs) \<and>
    (\<not> ok \<longrightarrow> (can = CannotAlloc \<or> malloc = None) \<and> m * max 1 (n - 1) \<le> length xs)"
proof -
  obtain ring t xss where h: "rw_holds m q ring t xss" and n: "n \<le> length ring" and xs: "xs = concat xss"
    using q unfolding rw_queue_def by blast
  note len = rw_holds_lengths [OF h]
  have t: "t < length ring" using len by simp
  have F: "q_frontBlock q = ring ! 0" and T: "q_tailBlock q = ring ! t" using h by (simp_all add: rw_holds_def)
  obtain b where b: "q_blocks q (ring ! t) = Some b" "b_next b = ring ! (Suc t mod length ring)" "block_holds b (xss ! t)"
      "m \<le> b_sizeMask b"
    using rw_holds_at [OF h t] by metis
  define b1 where "b1 = b\<lparr>b_localFront := b_front b\<rparr>"
  define q1 where "q1 = set_blk (ring ! t) b1 q"
  have b1: "block_holds b1 (xss ! t)" "b_next b1 = b_next b" "b_sizeMask b1 = b_sizeMask b" "b_tail b1 = b_tail b"
      "b_front b1 = b_front b" "b_localFront b1 = b_front b"
    using block_refresh_front [OF b(3)] by (simp_all add: b1_def)
  have h1: "rw_holds m q1 ring t xss"
    unfolding q1_def by (rule rw_holds_set [OF h t b(1)]) (use b1 in auto)
  have q1: "q_blocks q1 (ring ! t) = Some b1" "q_frontBlock q1 = ring ! 0" "q_largest q1 = q_largest q"
      "q_tailBlock q1 = ring ! t" "dom (q_blocks q1) = dom (q_blocks q)"
    using b(1) by (auto simp: q1_def F T)
  have push: "\<exists>q'. rw_queue m n q' (xs @ [x]) \<and> put_tail (ring ! t) x p = Inr q'"
    if hp: "rw_holds m p ring t xss" and c: "q_blocks p (ring ! t) = Some c" and "(b_tail c + 1) AND b_sizeMask c \<noteq> b_localFront c"
    for p c
  proof -
    from rw_put [OF hp t _ _ c that(3), of x] obtain q' where q': "put_tail (ring ! t) x p = Inr q'"
        "q_tailBlock q' = q_tailBlock p" "rw_holds m (q'\<lparr>q_tailBlock := ring ! t\<rparr>) ring t (xss[t := xss ! t @ [x]])"
        "concat (xss[t := xss ! t @ [x]]) = concat xss @ [x]"
      by auto
    moreover have "q_tailBlock q' = ring ! t" using hp q'(2) by (simp add: rw_holds_def)
    then have "q'\<lparr>q_tailBlock := ring ! t\<rparr> = q'" by simp
    ultimately show ?thesis using n xs unfolding rw_queue_def by metis
  qed
  let ?nt = "(b_tail b + 1) AND b_sizeMask b"
  consider (room) "?nt \<noteq> b_localFront b" | (fresh_room) "?nt = b_localFront b" "?nt \<noteq> b_front b"
    | (free) "?nt = b_localFront b" "?nt = b_front b" "Suc t < length ring"
    | (full) "?nt = b_localFront b" "?nt = b_front b" "Suc t = length ring" using t by fastforce
  then show ?thesis
  proof cases
    case room
    from push [OF h b(1) room] room show ?thesis by (auto simp: inner_enqueue_def T blk_def b(1))
  next
    case fresh_room
    from push [OF h1 q1(1)] fresh_room b1 obtain q' where "rw_queue m n q' (xs @ [x])" "put_tail (ring ! t) x q1 = Inr q'"
      by auto
    with fresh_room show ?thesis
      by (intro exI [of _ True] exI [of _ q']) (simp add: inner_enqueue_def T blk_def b(1) q1_def b1_def)
  next
    case free
    then have nx: "b_next b = ring ! Suc t" using b(2) by simp
    have i0: "0 < length ring" using len by auto
    have nf: "ring ! Suc t \<noteq> ring ! 0" using ring_eq [OF h free(3) i0] by simp
    obtain c where c: "q_blocks q1 (ring ! Suc t) = Some c" "block_holds c (xss ! Suc t)" using rw_holds_at [OF h1 free(3)] by metis
    have e: "xss ! Suc t = []" using h free(3) by (simp add: rw_holds_def)
    then have ce: "b_front c = b_tail c" using block_empty [OF c(2)] by simp
    define c1 where "c1 = c\<lparr>b_localFront := b_front c\<rparr>"
    define q2 where "q2 = set_blk (ring ! Suc t) c1 q1"
    have hc: "block_holds c1 (xss ! Suc t)" using block_refresh_front [OF c(2)] by (simp add: c1_def)
    have h2: "rw_holds m q2 ring t xss"
      unfolding q2_def by (rule rw_holds_set [OF h1 free(3) c(1)]) (use hc in \<open>auto simp: c1_def\<close>)
    have "(b_tail c1 + 1) AND b_sizeMask c1 \<noteq> b_localFront c1"
      using block_full [OF hc] e hc by (auto simp: c1_def block_holds_def)
    moreover have "length (xss ! t) = b_sizeMask d" if "q_blocks q2 (ring ! t) = Some d" for d
      using that block_full [OF b(3)] free b1 q1(1) ring_eq [OF h t free(3)] by (simp add: q2_def)
    moreover have "q_blocks q2 (ring ! Suc t) = Some c1" by (simp add: q2_def)
    ultimately obtain q' where q': "put_tail (ring ! Suc t) x q2 = Inr q'"
      and hq': "rw_holds m (q'\<lparr>q_tailBlock := ring ! Suc t\<rparr>) ring (Suc t) (xss[Suc t := xss ! Suc t @ [x]])"
      and cat: "concat (xss[Suc t := xss ! Suc t @ [x]]) = concat xss @ [x]"
      using rw_put [OF h2 free(3), of c1 x] by blast
    have "rw_queue m n (q'\<lparr>q_tailBlock := ring ! Suc t\<rparr>) (xs @ [x])"
      using hq' n cat xs unfolding rw_queue_def by metis
    with q' free nx nf c(1) ce show ?thesis
      by (intro exI [of _ True] exI [of _ "q'\<lparr>q_tailBlock := ring ! Suc t\<rparr>"])
        (simp add: inner_enqueue_def T F blk_def b(1) q1_def b1_def q2_def c1_def)
  next
    case full
    then have nx: "b_next b = ring ! 0" using b(2) by simp
    have bf: "length (xss ! t) = b_sizeMask b" using block_full [OF b(3)] full by simp
    have "max 1 (n - 1) \<le> max 1 (length ring - 1)" using n by linarith
    then have "m * max 1 (n - 1) \<le> m * max 1 (length ring - 1)" by (rule mult_le_mono2)
    also have "\<dots> \<le> length xs" using rw_full_length [OF h full(3)] bf b(4) xs by simp
    finally have m_len: "m * max 1 (n - 1) \<le> length xs" .
    have stay: "rw_queue m n q1 xs" using h1 n xs unfolding rw_queue_def by blast
    show ?thesis
    proof (cases "can = CanAlloc \<and> malloc \<noteq> None")
      case False
      then have "inner_enqueue M can malloc x q = Inr (False, q1)"
        using full nx by (cases can; cases malloc) (auto simp: inner_enqueue_def T F blk_def b(1) q1_def b1_def)
      with False stay m_len show ?thesis by (cases can) auto
    next
      case True
      then obtain a where a: "malloc = Some a" "can = CanAlloc" by blast
      define N where "N = (if q_largest q \<ge> M then q_largest q else q_largest q * 2)"
      have N: "pow2 N" "2 \<le> N" "m < N"
        using h by (auto simp: N_def rw_holds_def pow2_def intro: exI [of _ "Suc _"])
      define new :: "'a block" where
        "new = (make_block N)\<lparr>b_data := (b_data (make_block N))[0 := Some x], b_tail := 1, b_localTail := 1, b_next := ring ! 0\<rparr>"
      let ?q' = "set_blk (ring ! t) (b1\<lparr>b_next := a\<rparr>) (set_blk a new q1)\<lparr>q_largest := N, q_tailBlock := a\<rparr>"
      have "rw_holds m ?q' (ring @ [a]) (length ring) (xss @ [[x]])"
        by (rule rw_new_block [OF h1 full(3) q1(1) _ _ N new_def]) (use bf b1 q1 fresh a in \<open>auto simp: fresh_block_def\<close>)
      then have "rw_queue m n ?q' (xs @ [x])"
        using n xs unfolding rw_queue_def
        by (intro exI [of _ "ring @ [a]"] exI [of _ "length ring"] exI [of _ "xss @ [[x]]"]) simp
      moreover have "inner_enqueue M can malloc x q = Inr (True, ?q')"
        using full nx a by (simp add: inner_enqueue_def T F blk_def b(1) q1_def b1_def N_def new_def Let_def)
      ultimately show ?thesis by (intro exI [of _ True] exI [of _ ?q']) simp
    qed
  qed
qed

section \<open>Looking and counting\<close>

lemma rw_read_head:
  assumes h: "rw_holds m q ring t xss" and i: "i < length ring" and b: "q_blocks q (ring ! i) = Some b"
    and ne: "xss ! i = x # ys"
  shows "rw_read q (ring ! i, b_front b) = Inr x"
proof -
  from rw_holds_at [OF h i] b have "block_holds b (x # ys)" by (metis ne option.inject)
  with block_front block_holds_index b show ?thesis by (fastforce simp: rw_read_def blk_def)
qed

text \<open>\<open>peek\<close> points to the first object, or is null on the empty queue; it changes nothing but a cache.\<close>

lemma rw_peek_refines:
  assumes "rw_queue m n q xs"
  shows "\<exists>p q'. rw_peek q = Inr (p, q') \<and> rw_queue m n q' xs \<and>
    (case p of None \<Rightarrow> xs = [] | Some r \<Rightarrow> xs \<noteq> [] \<and> rw_read q' r = Inr (hd xs))"
proof -
  obtain ring t xss where h: "rw_holds m q ring t xss" and n: "n \<le> length ring" and xs: "xs = concat xss"
    using assms unfolding rw_queue_def by blast
  note len = rw_holds_lengths [OF h]
  have i: "0 < length ring" using len by auto
  have F: "q_frontBlock q = ring ! 0" and T: "q_tailBlock q = ring ! t" using h by (simp_all add: rw_holds_def)
  obtain b where b: "q_blocks q (ring ! 0) = Some b" "b_next b = ring ! (Suc 0 mod length ring)" "block_holds b (xss ! 0)"
    using rw_holds_at [OF h i] by metis
  let ?q1 = "set_blk (ring ! 0) (b\<lparr>b_localTail := b_tail b\<rparr>) q"
  have h1: "rw_holds m ?q1 ring t xss"
    by (rule rw_holds_set [OF h i b(1)]) (use block_refresh_tail [OF b(3)] in auto)
  have q: "rw_queue m n q xs" "rw_queue m n ?q1 xs" using h h1 n xs unfolding rw_queue_def by blast+
  obtain zs zss where z: "xss = zs # zss" using len by (cases xss) auto
  consider (front) "b_front b \<noteq> b_localTail b \<or> b_front b \<noteq> b_tail b"
    | (empty) "b_front b = b_localTail b" "b_front b = b_tail b" "t = 0"
    | (advance) "b_front b = b_localTail b" "b_front b = b_tail b" "0 < t" by fastforce
  then show ?thesis
  proof cases
    case front
    then have "zs \<noteq> []" using block_seen [OF b(3)] block_empty [OF b(3)] z by auto
    then obtain x ys where x: "xss ! 0 = x # ys" by (cases zs) (auto simp: z)
    have "rw_read q (ring ! 0, b_front b) = Inr x" "rw_read ?q1 (ring ! 0, b_front b) = Inr x"
      using rw_read_head [OF h i b(1) x] rw_read_head [OF h1 i _ x, of "b\<lparr>b_localTail := b_tail b\<rparr>"] by simp_all
    moreover have "xs \<noteq> [] \<and> hd xs = x" using x xs z by simp
    ultimately show ?thesis using q front by (cases "b_front b = b_localTail b") (auto simp: rw_peek_def F blk_def b(1) Let_def)
  next
    case empty
    have "xs = []" using rw_front_empty [OF h] block_empty [OF b(3)] empty xs by blast
    with q empty show ?thesis by (auto simp: rw_peek_def F T blk_def b(1))
  next
    case advance
    have l1: "1 < length ring" using len advance by linarith
    then have nx: "b_next b = ring ! 1" using b(2) by simp
    obtain c where c: "q_blocks ?q1 (ring ! 1) = Some c" "block_holds c (xss ! 1)" using rw_holds_at [OF h1 l1] by metis
    have ne: "xss ! 1 \<noteq> []" "xss ! 0 = []" using rw_next_nonempty [OF h advance(3)] block_empty [OF b(3)] advance by auto
    then obtain x ys where x: "xss ! 1 = x # ys" by (cases "xss ! 1") auto
    then obtain yss where "zss = (x # ys) # yss" using z len l1 by (cases zss) auto
    with ne(2) have "xs \<noteq> [] \<and> hd xs = x" by (simp add: xs z)
    moreover have "b_front c \<noteq> b_tail c" using block_empty [OF c(2)] ne by simp
    moreover have "ring ! 0 \<noteq> ring ! t" using ring_eq [OF h i, of t] len advance by simp
    moreover have "rw_read ?q1 (ring ! 1, b_front c) = Inr x" by (rule rw_read_head [OF h1 l1 c(1) x])
    ultimately show ?thesis using q nx advance c(1) by (auto simp: rw_peek_def F T blk_def b(1))
  qed
qed

text \<open>The subtraction of \<open>size_approx\<close> wraps at \<open>2 ^ 64\<close>; the mask undoes it. Blocks are smaller than memory.\<close>

lemma block_size:
  assumes "block_holds b xs" and small: "b_sizeMask b < 2 ^ 64"
  shows "size_sub (b_tail b) (b_front b) AND b_sizeMask b = length xs"
proof -
  let ?S = "b_sizeMask b + 1"
  obtain lf h where ord: "lf \<le> h" "h + length xs \<le> lf + b_sizeMask b"
    and ix: "b_front b = h mod ?S" "b_tail b = (h + length xs) mod ?S" and blk: "pow2 ?S"
    using assms(1) unfolding block_holds_def by blast
  obtain k where k: "?S = 2 ^ k" using blk by (auto simp: pow2_def)
  have "(2 :: nat) ^ k \<le> 2 ^ 64" using small k by linarith
  then have "k \<le> 64" by (rule power_le_imp_le_exp [rotated]) simp
  then have dvd: "?S dvd 2 ^ 64" by (simp only: k le_imp_power_dvd)
  have l: "length xs < ?S" using ord by linarith
  have "b_front b < ?S" "?S \<le> 2 ^ 64" using ix small by simp_all
  then have "int (size_sub (b_tail b) (b_front b)) = int (b_tail b) - int (b_front b) + (if b_front b \<le> b_tail b then 0 else 2 ^ 64)"
    by (simp add: size_sub_def of_nat_diff)
  moreover have "(if b_front b \<le> b_tail b then 0 else 2 ^ 64 :: int) mod int ?S = 0"
    using dvd by (auto simp flip: int_dvd_int_iff)
  ultimately have "int (size_sub (b_tail b) (b_front b)) mod int ?S = (int (b_tail b) - int (b_front b)) mod int ?S"
    by (metis add.right_neutral mod_add_right_eq)
  also have "\<dots> = int (length xs) mod int ?S" unfolding ix by (simp add: of_nat_mod mod_simps)
  finally have "size_sub (b_tail b) (b_front b) mod ?S = length xs mod ?S"
    by (metis of_nat_eq_iff of_nat_mod)
  then show ?thesis using l unfolding and_mask_mod [OF blk] by simp
qed

lemma size_loop_from:
  assumes h: "rw_holds m q ring t xss" and small: "\<And>a b. q_blocks q a = Some b \<Longrightarrow> b_sizeMask b < 2 ^ 64"
    and i: "i < length ring"
  shows "size_loop q (ring ! i) r = Some (r + length (concat (drop i xss)))"
  using i
proof (induction "length ring - i" arbitrary: i r)
  case (Suc k)
  from rw_holds_at [OF h Suc.prems] obtain b where b: "q_blocks q (ring ! i) = Some b"
    "b_next b = ring ! (Suc i mod length ring)" "block_holds b (xss ! i)" by metis
  have F: "q_frontBlock q = ring ! 0" using h by (simp add: rw_holds_def)
  have sz: "size_sub (b_tail b) (b_front b) AND b_sizeMask b = length (xss ! i)" using block_size [OF b(3)] small [OF b(1)] by blast
  have d: "drop i xss = xss ! i # drop (Suc i) xss" using Suc.prems rw_holds_lengths [OF h] by (simp add: Cons_nth_drop_Suc)
  show ?case
  proof (cases "Suc i = length ring")
    case True
    then have "drop (Suc i) xss = []" using rw_holds_lengths [OF h] by simp
    with True show ?thesis by (subst size_loop.simps) (simp add: b sz F d)
  next
    case False
    with Suc.prems have i': "Suc i < length ring" by simp
    then have "ring ! Suc i \<noteq> ring ! 0" using ring_eq [OF h i'] i' by (metis Zero_not_Suc less_trans zero_less_Suc)
    with i' show ?thesis
      using Suc.hyps(1) [of "Suc i"] Suc.hyps(2) by (subst size_loop.simps) (simp add: b sz F d)
  qed
qed simp

lemma rw_size_refines:
  assumes "rw_queue m n q xs" and "\<And>a b. q_blocks q a = Some b \<Longrightarrow> b_sizeMask b < 2 ^ 64"
  shows "rw_size_approx q = Some (length xs)"
proof -
  obtain ring t xss where h: "rw_holds m q ring t xss" and xs: "xs = concat xss"
    using assms(1) unfolding rw_queue_def by blast
  have i: "0 < length ring" using rw_holds_lengths [OF h] by auto
  have "size_loop q (ring ! 0) 0 = Some (0 + length (concat (drop 0 xss)))"
    by (rule size_loop_from [OF h _ i]) (use assms(2) in blast)
  then show ?thesis using h by (simp add: rw_size_approx_def rw_holds_def xs)
qed

section \<open>Construction\<close>

text \<open>
  The smallest power of two that is not below \<open>x\<close>. The loop of \<open>ceilToPow2\<close> runs for \<open>i = 1, 2, 4\<close>:
  a \<open>size_t\<close> has eight bytes.
\<close>

definition ceilToPow2 :: "64 word \<Rightarrow> 64 word" where
  "ceilToPow2 x0 =
     (let x = x0 - 1;
          x = x OR drop_bit 1 x;
          x = x OR drop_bit 2 x;
          x = x OR drop_bit 4 x;
          x = foldl (\<lambda>x i. x OR drop_bit (push_bit 3 i) x) x [1, 2, 4]
      in x + 1)"

definition smeared :: "nat \<Rightarrow> 64 word \<Rightarrow> 64 word \<Rightarrow> bool" where
  "smeared w x y \<longleftrightarrow> (\<forall>n. bit y n \<longleftrightarrow> (\<exists>j < w. bit x (n + j)))"

lemma smear_step: "smeared w x y \<Longrightarrow> smeared (w + w) x (y OR drop_bit w y)"
  unfolding smeared_def
proof
  fix n assume y: "\<forall>n. bit y n = (\<exists>j<w. bit x (n + j))"
  have "(\<exists>j<w + w. bit x (n + j)) \<longleftrightarrow> (\<exists>j<w. bit x (n + j)) \<or> (\<exists>j<w. bit x (w + n + j))"
  proof
    assume "\<exists>j<w + w. bit x (n + j)"
    then obtain j where "j < w + w" "bit x (n + j)" by blast
    then show "(\<exists>j<w. bit x (n + j)) \<or> (\<exists>j<w. bit x (w + n + j))"
      by (cases "j < w") (auto intro: exI [of _ "j - w"])
  next
    assume "(\<exists>j<w. bit x (n + j)) \<or> (\<exists>j<w. bit x (w + n + j))"
    then show "\<exists>j<w + w. bit x (n + j)"
    proof
      assume "\<exists>j<w. bit x (n + j)"
      then show ?thesis using trans_less_add1 by blast
    next
      assume "\<exists>j<w. bit x (w + n + j)"
      then obtain j where "j < w" "bit x (n + (w + j))" by (auto simp: ac_simps)
      then show ?thesis by (intro exI [of _ "w + j"]) simp
    qed
  qed
  with y show "bit (y OR drop_bit w y) n = (\<exists>j<w + w. bit x (n + j))"
    by (simp add: bit_or_iff bit_drop_bit_eq)
qed

lemma ceilToPow2_smeared: "\<exists>y. ceilToPow2 x = y + 1 \<and> smeared 64 (x - 1) y"
proof -
  have "smeared 1 (x - 1) (x - 1)" by (simp add: smeared_def)
  from smear_step [OF this] have s2: "smeared 2 (x - 1) ((x - 1) OR drop_bit 1 (x - 1))" by (simp only: one_add_one)
  note s4 = smear_step [OF s2, simplified]
  note s8 = smear_step [OF s4, simplified]
  note s16 = smear_step [OF s8, simplified]
  note s32 = smear_step [OF s16, simplified]
  note s64 = smear_step [OF s32, simplified]
  from s64 show ?thesis by (auto simp: ceilToPow2_def Let_def push_bit_eq_mult)
qed

text \<open>A smeared word is a mask, up to the highest bit of the word.\<close>

lemma word_bits_below: "unat (x :: 64 word) < 2 ^ L \<longleftrightarrow> (\<forall>j. L \<le> j \<longrightarrow> \<not> bit x j)"
proof -
  have "unat x < 2 ^ L \<longleftrightarrow> take_bit L x = x"
    by (metis take_bit_nat_eq_self_iff unsigned_take_bit_eq unsigned_word_eqI)
  also have "\<dots> \<longleftrightarrow> (\<forall>j. L \<le> j \<longrightarrow> \<not> bit x j)"
    unfolding bit_eq_iff bit_take_bit_iff by (metis bit_imp_possible_bit not_le)
  finally show ?thesis .
qed

lemma smeared_mask:
  assumes s: "smeared 64 x y" and up: "unat x < 2 ^ L" and lo: "L = 0 \<or> 2 ^ (L - 1) \<le> unat x" and L: "L < 64"
  shows "y = mask L"
proof (rule bit_word_eqI)
  fix n assume "n < LENGTH(64)"
  have high: "bit x (L - 1)" if "0 < L"
  proof -
    from lo that have "\<not> unat x < 2 ^ (L - 1)" by simp
    then obtain j where "L - 1 \<le> j" "bit x j" unfolding word_bits_below by blast
    moreover have "\<not> L \<le> j" using up calculation(2) unfolding word_bits_below by blast
    ultimately have "j = L - 1" by simp
    with \<open>bit x j\<close> show ?thesis by simp
  qed
  show "bit y n \<longleftrightarrow> bit (mask L :: 64 word) n"
  proof (cases "n < L")
    case True
    then have "n + (L - 1 - n) = L - 1" "L - 1 - n < 64" using L by simp_all
    with high True s have "bit y n" unfolding smeared_def by (metis gr_implies_not0 not_gr_zero)
    with True L show ?thesis by (simp add: bit_mask_iff)
  next
    case False
    with up s have "\<not> bit y n" unfolding smeared_def word_bits_below by simp
    with False show ?thesis by (simp add: bit_mask_iff)
  qed
qed

lemma log2_exists: "\<exists>L. n < 2 ^ L \<and> (L = 0 \<or> 2 ^ (L - 1) \<le> (n :: nat))"
proof -
  have "n < 2 ^ (LEAST L. n < 2 ^ L)" by (rule LeastI [of _ n]) simp
  moreover have "(LEAST L. n < 2 ^ L) = 0 \<or> 2 ^ ((LEAST L. n < 2 ^ L) - 1) \<le> n"
    using not_less_Least [of "(LEAST L. n < 2 ^ L) - 1" "\<lambda>L. n < 2 ^ L"]
    by (metis diff_less not_gr_zero not_less zero_less_one)
  ultimately show ?thesis by blast
qed

lemma ceilToPow2_exact:
  assumes "0 < n" and "n \<le> 2 ^ 63"
  shows "\<exists>L. unat (ceilToPow2 (of_nat n)) = 2 ^ L \<and> n \<le> 2 ^ L \<and> (L = 0 \<or> 2 ^ (L - 1) < n)"
proof -
  have n1: "unat (of_nat n - 1 :: 64 word) = n - 1"
  proof -
    have "(of_nat n - 1 :: 64 word) = of_nat (n - 1)" using assms by (simp add: of_nat_diff)
    then show ?thesis using assms by (simp only: unat_of_nat take_bit_nat_eq_self_iff) simp
  qed
  obtain L where L: "n - 1 < 2 ^ L" "L = 0 \<or> 2 ^ (L - 1) \<le> n - 1" using log2_exists by blast
  have "L < 64"
  proof (rule ccontr)
    assume "\<not> L < 64"
    then have "(2 :: nat) ^ 63 \<le> 2 ^ (L - 1)" by (intro power_increasing) simp_all
    with L(2) assms \<open>\<not> L < 64\<close> show False by auto
  qed
  obtain y where y: "ceilToPow2 (of_nat n) = y + 1" "smeared 64 (of_nat n - 1) y" using ceilToPow2_smeared by blast
  have "y = mask L" by (rule smeared_mask [OF y(2)]) (use L n1 \<open>L < 64\<close> in auto)
  then have "ceilToPow2 (of_nat n) = 2 ^ L" using y(1) by (simp add: mask_eq_decr_exp)
  moreover have "(2 :: nat) ^ L < 2 ^ LENGTH(64)" by (rule power_strict_increasing) (use \<open>L < 64\<close> in simp_all)
  then have "unat (of_nat (2 ^ L) :: 64 word) = 2 ^ L" by (simp only: unat_of_nat mod_less)
  moreover have "L = 0 \<or> 2 ^ (L - 1) < n" using L(2) assms(1) by auto
  moreover have "n \<le> 2 ^ L" using L(1) by linarith
  ultimately show ?thesis by auto
qed

text \<open>
  The constructor. \<open>malloc i\<close> is the answer to its \<open>i\<close>-th allocation. A failed allocation throws
  \<open>std::bad_alloc\<close>; the blocks made before stay in the heap that is returned with it.
\<close>

fun init_blocks :: "(nat \<Rightarrow> nat option) \<Rightarrow> nat \<Rightarrow> nat \<Rightarrow> nat \<Rightarrow> nat option \<Rightarrow> nat \<Rightarrow>
    (nat \<rightharpoonup> 'a block) \<Rightarrow> bool \<times> nat option \<times> (nat \<rightharpoonup> 'a block)" where
  "init_blocks malloc sz 0 i firstBlock lastBlock heap = (True, firstBlock, heap)"
| "init_blocks malloc sz (Suc k) i firstBlock lastBlock heap =
     (case malloc i of
        None \<Rightarrow> (False, firstBlock, heap)
      | Some a \<Rightarrow>
          (case firstBlock of
             None \<Rightarrow> init_blocks malloc sz k (i + 1) (Some a) a (heap(a \<mapsto> make_block sz\<lparr>b_next := a\<rparr>))
           | Some f \<Rightarrow> init_blocks malloc sz k (i + 1) (Some f) a
               ((heap(lastBlock := map_option (\<lambda>b. b\<lparr>b_next := a\<rparr>) (heap lastBlock)))(a \<mapsto> make_block sz\<lparr>b_next := f\<rparr>))))"

definition mk_rwq :: "nat \<Rightarrow> (nat \<Rightarrow> nat option) \<Rightarrow> nat \<Rightarrow> 'a rwq outcome" where
  "mk_rwq MAX_BLOCK_SIZE malloc maxSize =
     (if maxSize = 0 then Inl AssertFailed
      else if MAX_BLOCK_SIZE \<noteq> unat (ceilToPow2 (of_nat MAX_BLOCK_SIZE)) then Inl AssertFailed
      else if MAX_BLOCK_SIZE < 2 then Inl AssertFailed
      else
        let largest = unat (ceilToPow2 (of_nat (maxSize + 1))) in
        if largest > MAX_BLOCK_SIZE * 2 then
          let initialBlockCount = (maxSize + MAX_BLOCK_SIZE * 2 - 3) div (MAX_BLOCK_SIZE - 1) in
          case init_blocks malloc MAX_BLOCK_SIZE initialBlockCount 0 None 0 Map.empty of
            (True, Some f, heap) \<Rightarrow> Inr \<lparr>q_blocks = heap, q_frontBlock = f, q_tailBlock = f, q_largest = MAX_BLOCK_SIZE\<rparr>
          | _ \<Rightarrow> Inl BadAlloc
        else
          case malloc 0 of
            None \<Rightarrow> Inl BadAlloc
          | Some a \<Rightarrow> Inr \<lparr>q_blocks = [a \<mapsto> make_block largest\<lparr>b_next := a\<rparr>], q_frontBlock = a, q_tailBlock = a,
                           q_largest = largest\<rparr>)"

lemma init_blocks_ring:
  assumes addr: "inj addr" and N: "pow2 sz" "2 \<le> sz"
    and heap: "rw_blocks (sz - 1) heap (map addr [0..<Suc i]) (replicate (Suc i) [])"
  shows "\<exists>heap'. init_blocks (\<lambda>i. Some (addr i)) sz k (Suc i) (Some (addr 0)) (addr i) heap = (True, Some (addr 0), heap') \<and>
    rw_blocks (sz - 1) heap' (map addr [0..<Suc i + k]) (replicate (Suc i + k) ([] :: 'a list))"
  using heap
proof (induction k arbitrary: i heap)
  case (Suc k)
  let ?ring = "map addr [0..<Suc i]" and ?a = "addr (Suc i)"
  have "i < length ?ring" by simp
  from rw_blocks_at [OF Suc.prems this] obtain b where b: "heap (addr i) = Some b" by (auto simp del: upt_Suc)
  have last: "last ?ring = addr i" by simp
  have new: "block_holds (make_block sz\<lparr>b_next := addr 0\<rparr>) ([] :: 'a list)"
    using make_block_holds [OF N] by (simp add: block_holds_def)
  have "dom heap = addr ` {0..<Suc i}" using Suc.prems by (simp add: rw_blocks_def del: upt_Suc)
  then have "?a \<noteq> addr i" "?a \<notin> dom heap" using injD [OF addr] by fastforce+
  define next_heap where "next_heap = (heap(?a \<mapsto> make_block sz\<lparr>b_next := addr 0\<rparr>))(addr i \<mapsto> b\<lparr>b_next := ?a\<rparr>)"
  have upd: "(heap(addr i := map_option (\<lambda>b. b\<lparr>b_next := ?a\<rparr>) (heap (addr i))))(?a \<mapsto> make_block sz\<lparr>b_next := addr 0\<rparr>) = next_heap"
    using b \<open>?a \<noteq> addr i\<close> by (simp add: next_heap_def fun_upd_twist)
  have "rw_blocks (sz - 1) next_heap (?ring @ [?a]) (replicate (Suc i) [] @ [[]])"
    unfolding next_heap_def last [symmetric]
    by (rule rw_blocks_extend [OF Suc.prems])
      (use new last b \<open>?a \<notin> dom heap\<close> in \<open>simp_all add: make_block_def nth_append\<close>)
  moreover have "?ring @ [?a] = map addr [0..<Suc (Suc i)]" "replicate (Suc i) ([] :: 'a list) @ [[]] = replicate (Suc (Suc i)) []"
    by (simp_all add: replicate_append_same)
  ultimately show ?case
    using Suc.IH [of next_heap "Suc i"] by (simp add: upd del: upt_Suc replicate_Suc)
qed simp

lemma ceilToPow2_pow2:
  assumes "k \<le> 63"
  shows "unat (ceilToPow2 (of_nat (2 ^ k))) = 2 ^ k"
proof -
  have "(2 :: nat) ^ k \<le> 2 ^ 63" using assms by (rule power_increasing) simp
  then obtain L where L: "unat (ceilToPow2 (of_nat (2 ^ k))) = 2 ^ L" "(2 :: nat) ^ k \<le> 2 ^ L" "L = 0 \<or> (2 :: nat) ^ (L - 1) < 2 ^ k"
    using ceilToPow2_exact [of "2 ^ k"] by auto
  have "k \<le> L" using L(2) by (simp add: power_le_imp_le_exp)
  moreover have "L \<le> k" using L(3) by (auto dest: power_less_imp_less_exp [rotated])
  ultimately show ?thesis using L(1) by simp
qed

lemma empty_ring:
  assumes "rw_blocks (sz - 1) heap ring (replicate (length ring) ([] :: 'a list))" and "ring \<noteq> []" and "pow2 sz" and "2 \<le> sz"
    and "hd ring = f"
  shows "rw_queue (sz - 1) (length ring) \<lparr>q_blocks = heap, q_frontBlock = f, q_tailBlock = f, q_largest = sz\<rparr> ([] :: 'a list)"
proof -
  have "rw_holds (sz - 1) \<lparr>q_blocks = heap, q_frontBlock = f, q_tailBlock = f, q_largest = sz\<rparr> ring 0
      (replicate (length ring) ([] :: 'a list))"
    using assms by (auto simp: rw_holds_def hd_conv_nth)
  then show ?thesis
    unfolding rw_queue_def by (intro exI [of _ ring] exI [of _ 0] exI [of _ "replicate (length ring) []"]) simp
qed

text \<open>
  The constructor makes an empty queue whose \<open>n\<close> blocks have room for \<open>maxSize\<close> objects, whichever block is
  at the front.
\<close>

lemma mk_rwq_empty:
  assumes M: "M = 2 ^ k" "1 \<le> k" "k \<le> 62" and sz: "0 < maxSize" "maxSize \<le> 2 ^ 62" and addr: "inj addr"
  shows "\<exists>q m n. mk_rwq M (\<lambda>i. Some (addr i)) maxSize = Inr q \<and> rw_queue m n q ([] :: 'a list) \<and> maxSize \<le> m * max 1 (n - 1)"
proof -
  have M2: "2 \<le> M" using M(1,2) power_increasing [of 1 k "2 :: nat"] by simp
  have Mp: "unat (ceilToPow2 (of_nat M)) = M" using ceilToPow2_pow2 M by simp
  obtain L where L: "unat (ceilToPow2 (of_nat (maxSize + 1))) = 2 ^ L" "maxSize + 1 \<le> 2 ^ L"
    using ceilToPow2_exact [of "maxSize + 1"] sz by auto
  show ?thesis
  proof (cases "2 ^ L > M * 2")
    case False
    let ?heap = "[addr 0 \<mapsto> (make_block (2 ^ L) :: 'a block)\<lparr>b_next := addr 0\<rparr>]"
    have "2 \<le> (2 :: nat) ^ L" "pow2 (2 ^ L)" using L(2) sz(1) by (auto simp: pow2_def)
    moreover from this have "rw_blocks (2 ^ L - 1) ?heap [addr 0] [[]]"
      using make_block_holds [of "2 ^ L"] by (auto simp: rw_blocks_def block_holds_def make_block_def)
    ultimately have "rw_queue (2 ^ L - 1) 1 \<lparr>q_blocks = ?heap, q_frontBlock = addr 0, q_tailBlock = addr 0, q_largest = 2 ^ L\<rparr> ([] :: 'a list)"
      using empty_ring [of "2 ^ L" ?heap "[addr 0]" "addr 0"] by simp
    then show ?thesis
      using False L sz M2 Mp by (intro exI conjI) (auto simp: mk_rwq_def Let_def)
  next
    case True
    define n where "n = (maxSize + M * 2 - 3) div (M - 1)"
    have n: "maxSize \<le> (M - 1) * (n - 1)" "2 \<le> n"
    proof -
      have e: "maxSize + M * 2 - 3 = (maxSize + (M - 1) - 1) + (M - 1)" using M2 sz by linarith
      have n1: "n = (maxSize + (M - 1) - 1) div (M - 1) + 1" unfolding n_def e using M2 by (subst div_add_self2) simp_all
      have "M - 1 \<le> maxSize + (M - 1) - 1" using sz by linarith
      then have "(M - 1) div (M - 1) \<le> (maxSize + (M - 1) - 1) div (M - 1)" by (rule div_le_mono)
      then show "2 \<le> n" using n1 M2 by simp
      have "maxSize + (M - 1) - 1 < (M - 1) * ((maxSize + (M - 1) - 1) div (M - 1)) + (M - 1)"
        using M2 mod_less_divisor [of "M - 1" "maxSize + (M - 1) - 1"] mult_div_mod_eq [of "M - 1" "maxSize + (M - 1) - 1"]
        by linarith
      then have "maxSize \<le> (M - 1) * ((maxSize + (M - 1) - 1) div (M - 1))" by linarith
      then show "maxSize \<le> (M - 1) * (n - 1)" using n1 by simp
    qed
    let ?h1 = "[addr 0 \<mapsto> (make_block M :: 'a block)\<lparr>b_next := addr 0\<rparr>]"
    have "pow2 M" using M(1) by (auto simp: pow2_def)
    moreover from this have "rw_blocks (M - 1) ?h1 [addr 0] [[]]"
      using make_block_holds [of M] M2 by (auto simp: rw_blocks_def block_holds_def make_block_def)
    ultimately obtain heap where heap:
      "init_blocks (\<lambda>i. Some (addr i)) M (n - 1) (Suc 0) (Some (addr 0)) (addr 0) ?h1 = (True, Some (addr 0), heap)"
      "rw_blocks (M - 1) heap (map addr [0..<Suc 0 + (n - 1)]) (replicate (Suc 0 + (n - 1)) ([] :: 'a list))"
      using init_blocks_ring [OF addr _ M2, of ?h1 0 "n - 1"] by auto
    have ring: "rw_queue (M - 1) n \<lparr>q_blocks = heap, q_frontBlock = addr 0, q_tailBlock = addr 0, q_largest = M\<rparr> ([] :: 'a list)"
      using empty_ring [of M heap "map addr [0..<n]" "addr 0"] heap(2) n(2) M2 \<open>pow2 M\<close> by (simp add: hd_map)
    have "init_blocks (\<lambda>i. Some (addr i)) M n 0 None 0 Map.empty = (True, Some (addr 0), heap)"
      using heap(1) n(2) by (cases n) simp_all
    then have "mk_rwq M (\<lambda>i. Some (addr i)) maxSize = Inr \<lparr>q_blocks = heap, q_frontBlock = addr 0, q_tailBlock = addr 0, q_largest = M\<rparr>"
      using True L sz M2 Mp by (simp add: mk_rwq_def n_def)
    moreover have "maxSize \<le> (M - 1) * max 1 (n - 1)" using n by (simp add: max_absorb2)
    ultimately show ?thesis using ring by blast
  qed
qed


section \<open>Destruction\<close>

text \<open>
  The inner loop of the destructor ends the lifetime of the objects from \<open>front\<close> to \<open>tail\<close>; \<open>None\<close> when it
  meets raw storage. The outer loop follows \<open>next\<close>; it returns the objects destroyed and the blocks freed, in
  order, \<open>None\<close> when it meets a block that is not there (any more).
\<close>

partial_function (option) destroy_slots :: "'a block \<Rightarrow> nat \<Rightarrow> 'a list \<Rightarrow> 'a list option" where
  "destroy_slots b i gone =
     (if i = b_tail b then Some gone
      else if i < length (b_data b) then
        case b_data b ! i of
          None \<Rightarrow> None
        | Some x \<Rightarrow> destroy_slots b ((i + 1) AND b_sizeMask b) (gone @ [x])
      else None)"

partial_function (option) destroy_blocks :: "nat \<Rightarrow> (nat \<rightharpoonup> 'a block) \<Rightarrow> nat \<Rightarrow> 'a list \<Rightarrow> nat list \<Rightarrow>
    ('a list \<times> nat list \<times> (nat \<rightharpoonup> 'a block)) option" where
  "destroy_blocks front heap a gone freed =
     (case heap a of
        None \<Rightarrow> None
      | Some b \<Rightarrow>
          (case destroy_slots b (b_front b) gone of
             None \<Rightarrow> None
           | Some gone' \<Rightarrow>
               if b_next b \<noteq> front then destroy_blocks front (heap(a := None)) (b_next b) gone' (freed @ [a])
               else Some (gone', freed @ [a], heap(a := None))))"

definition rw_destroy :: "'a rwq \<Rightarrow> ('a list \<times> nat list \<times> (nat \<rightharpoonup> 'a block)) option" where
  "rw_destroy q = destroy_blocks (q_frontBlock q) (q_blocks q) (q_frontBlock q) [] []"

lemma destroy_slots_block:
  assumes "block_holds b xs"
  shows "destroy_slots b (b_front b) gone = Some (gone @ xs)"
proof -
  let ?S = "b_sizeMask b + 1"
  obtain lf h where ord: "lf \<le> h" "h + length xs \<le> lf + b_sizeMask b"
    and ix: "b_front b = h mod ?S" "b_tail b = (h + length xs) mod ?S"
    and blk: "pow2 ?S" "length (b_data b) = ?S" and sl: "slots (b_data b) h xs"
    using assms unfolding block_holds_def by blast
  have "destroy_slots b ((h + j) mod ?S) gone = Some (gone @ drop j xs)" if "j \<le> length xs" for j
    using that
  proof (induction "length xs - j" arbitrary: j gone)
    case 0
    then have "j = length xs" by simp
    then show ?case by (subst destroy_slots.simps) (simp add: ix)
  next
    case (Suc k)
    then have j: "j < length xs" by simp
    have ne: "(h + j) mod ?S \<noteq> b_tail b"
      using mod_eq_close [of "h + j" "h + length xs" ?S] j ord by (simp add: ix)
    have "b_data b ! ((h + j) mod ?S) = Some (xs ! j)" using sl j blk(2) by (simp add: slots_def)
    moreover have "((h + j) mod ?S + 1) AND b_sizeMask b = (h + Suc j) mod ?S"
      unfolding and_mask_mod [OF blk(1)] mod_succ by simp
    moreover have "drop j xs = xs ! j # drop (Suc j) xs" using j by (simp add: Cons_nth_drop_Suc)
    ultimately show ?case
      using Suc.hyps(1) [of "Suc j" "gone @ [xs ! j]"] Suc.hyps(2) j ne blk(2)
      by (subst destroy_slots.simps) simp
  qed
  from this [of 0] ix show ?thesis by simp
qed

lemma destroy_blocks_ring:
  assumes h: "rw_holds m q ring t xss" and i: "i < length ring"
    and heap: "heap = q_blocks q |` set (drop i ring)"
  shows "destroy_blocks (ring ! 0) heap (ring ! i) gone freed =
    Some (gone @ concat (drop i xss), freed @ drop i ring, Map.empty)"
  using i heap
proof (induction "length ring - i" arbitrary: i heap gone freed)
  case (Suc k)
  from rw_holds_at [OF h Suc.prems(1)] obtain b where b: "q_blocks q (ring ! i) = Some b"
    "b_next b = ring ! (Suc i mod length ring)" "block_holds b (xss ! i)" by metis
  have d: "drop i xss = xss ! i # drop (Suc i) xss" "drop i ring = ring ! i # drop (Suc i) ring"
    using Suc.prems(1) rw_holds_lengths [OF h] by (simp_all add: Cons_nth_drop_Suc)
  have "distinct (drop i ring)" using h by (simp add: rw_holds_def rw_blocks_def)
  then have "ring ! i \<notin> set (drop (Suc i) ring)" unfolding d(2) by simp
  then have heap': "heap(ring ! i := None) = q_blocks q |` set (drop (Suc i) ring)"
    unfolding Suc.prems(2) d(2) by (auto simp: restrict_map_def fun_eq_iff)
  have at: "heap (ring ! i) = Some b" using b(1) by (simp add: Suc.prems(2) d(2))
  show ?case
  proof (cases "Suc i = length ring")
    case True
    then have e: "drop (Suc i) xss = []" "drop (Suc i) ring = []" using rw_holds_lengths [OF h] by simp_all
    with True heap' show ?thesis
      by (subst destroy_blocks.simps) (simp add: at b destroy_slots_block [OF b(3)] d)
  next
    case False
    with Suc.prems have i': "Suc i < length ring" by simp
    have "0 < length ring" using i' by linarith
    then have "ring ! Suc i \<noteq> ring ! 0" using ring_eq [OF h i'] by simp
    with i' False show ?thesis
      using Suc.hyps(1) [of "Suc i" "heap(ring ! i := None)" "gone @ xss ! i" "freed @ [ring ! i]"] Suc.hyps(2) heap'
      by (subst destroy_blocks.simps) (simp add: at b destroy_slots_block [OF b(3)] d)
  qed
qed simp

lemma rw_destroy_refines:
  assumes "rw_queue m n q xs"
  shows "\<exists>freed. rw_destroy q = Some (xs, freed, Map.empty) \<and> distinct freed \<and> set freed = dom (q_blocks q)"
proof -
  obtain ring t xss where h: "rw_holds m q ring t xss" and xs: "xs = concat xss"
    using assms(1) unfolding rw_queue_def by blast
  have ring: "distinct ring" "dom (q_blocks q) = set ring" "0 < length ring" "ring ! 0 = q_frontBlock q"
    using h by (auto simp: rw_holds_def rw_blocks_def)
  then have "q_blocks q = q_blocks q |` set (drop 0 ring)" by (auto simp: restrict_map_def fun_eq_iff)
  from destroy_blocks_ring [OF h ring(3) this, of "[]" "[]"] ring show ?thesis by (simp add: rw_destroy_def xs)
qed

section \<open>Block sizes\<close>

text \<open>No block is larger than memory: the sizes double up to twice \<open>MAX_BLOCK_SIZE\<close>.\<close>

definition address_space :: nat where
  "address_space = 2 ^ 64"

definition rw_small :: "'a rwq \<Rightarrow> bool" where
  "rw_small q \<longleftrightarrow> (\<forall>a b. q_blocks q a = Some b \<longrightarrow> b_sizeMask b < address_space) \<and> q_largest q \<le> address_space"

lemma rw_small_set: "rw_small q \<Longrightarrow> b_sizeMask b < address_space \<Longrightarrow> rw_small (set_blk a b q)"
  by (auto simp: rw_small_def)

lemma rw_small_ends:
  "rw_small (q\<lparr>q_frontBlock := a\<rparr>) = rw_small q" "rw_small (q\<lparr>q_tailBlock := a\<rparr>) = rw_small q"
  by (simp_all add: rw_small_def)

lemma blk_small: "blk q a = Inr b \<Longrightarrow> rw_small q \<Longrightarrow> b_sizeMask b < address_space"
  by (auto simp: blk_def rw_small_def split: option.splits)

lemma take_front_small: "take_front a q = Inr (x, q') \<Longrightarrow> rw_small q \<Longrightarrow> rw_small q'"
  by (auto simp: take_front_def bind_outcome_eq_Inr split: if_splits option.splits intro!: rw_small_set intro: blk_small)

lemma put_tail_small: "put_tail a x q = Inr q' \<Longrightarrow> rw_small q \<Longrightarrow> rw_small q'"
  by (auto simp: put_tail_def bind_outcome_eq_Inr split: if_splits option.splits intro!: rw_small_set intro: blk_small)

lemma rw_small_largest: "rw_small q \<Longrightarrow> N \<le> address_space \<Longrightarrow> rw_small (q\<lparr>q_largest := N\<rparr>)"
  by (simp add: rw_small_def)

lemma make_block_mask: "n \<le> address_space \<Longrightarrow> b_sizeMask (make_block n) < address_space"
  by (simp add: make_block_def address_space_def)

lemma rw_try_dequeue_small:
  assumes "rw_try_dequeue q = Inr (v, q')" and q: "rw_small q"
  shows "rw_small q'"
proof -
  from assms(1) obtain b where b: "blk q (q_frontBlock q) = Inr b"
    by (auto simp: rw_try_dequeue_def Let_def bind_outcome_eq_Inr)
  then have mask: "b_sizeMask b < address_space" using blk_small q by blast
  then have small: "rw_small (set_blk (q_frontBlock q) (b\<lparr>b_localTail := b_tail b\<rparr>) q)" using q by (simp add: rw_small_set)
  have others: "b_sizeMask d < address_space" if "blk (set_blk (q_frontBlock q) (b\<lparr>b_localTail := b_tail b\<rparr>) q) a = Inr d" for a d
    using blk_small [OF that small] .
  with small assms b mask show ?thesis
    by (auto simp: rw_try_dequeue_def Let_def bind_outcome_eq_Inr rw_small_ends split: if_splits
        elim!: take_front_small intro!: rw_small_set dest: others)
qed

lemma rw_peek_small: "rw_peek q = Inr (v, q') \<Longrightarrow> rw_small q \<Longrightarrow> rw_small q'"
  by (auto simp: rw_peek_def Let_def bind_outcome_eq_Inr split: if_splits intro!: rw_small_set dest: blk_small)

lemma inner_enqueue_small:
  assumes "inner_enqueue M can malloc x q = Inr (ok, q')" and q: "rw_small q" and "2 * M \<le> address_space"
  shows "rw_small q'"
proof -
  have N: "(if M \<le> q_largest q then q_largest q else q_largest q * 2) \<le> address_space"
    using assms(2,3) by (auto simp: rw_small_def)
  from assms(1) obtain b where b: "blk q (q_tailBlock q) = Inr b"
    by (auto simp: inner_enqueue_def Let_def bind_outcome_eq_Inr)
  then have mask: "b_sizeMask b < address_space" using blk_small q by blast
  then have small: "rw_small (set_blk (q_tailBlock q) (b\<lparr>b_localFront := b_front b\<rparr>) q)" using q by (simp add: rw_small_set)
  have others: "b_sizeMask d < address_space" if "blk (set_blk (q_tailBlock q) (b\<lparr>b_localFront := b_front b\<rparr>) q) a = Inr d" for a d
    using blk_small [OF that small] .
  with small assms(1) b mask N make_block_mask [OF N] q show ?thesis
    unfolding inner_enqueue_def Let_def
    by (auto simp: bind_outcome_eq_Inr rw_small_ends split: if_splits option.splits
      elim!: put_tail_small intro!: rw_small_set rw_small_largest dest: others)
qed


definition small_heap :: "(nat \<rightharpoonup> 'a block) \<Rightarrow> bool" where
  "small_heap heap \<longleftrightarrow> (\<forall>a b. heap a = Some b \<longrightarrow> b_sizeMask b < address_space)"

lemma small_heap_intros:
  "small_heap Map.empty"
  "small_heap heap \<Longrightarrow> b_sizeMask b < address_space \<Longrightarrow> small_heap (heap(a \<mapsto> b))"
  "small_heap heap \<Longrightarrow> small_heap (heap(a := map_option (\<lambda>b. b\<lparr>b_next := c\<rparr>) (heap a)))"
  by (auto simp: small_heap_def)

lemma init_blocks_small:
  assumes "sz \<le> address_space"
  shows "small_heap heap \<Longrightarrow> small_heap (snd (snd (init_blocks malloc sz k i f l heap)))"
proof (induction k arbitrary: i f l heap)
  case (Suc k)
  have "b_sizeMask (make_block sz\<lparr>b_next := a\<rparr>) < address_space" for a using make_block_mask [OF assms] by simp
  with Suc show ?case by (auto split: option.split intro!: Suc.IH small_heap_intros(2,3))
qed simp

lemma mk_rwq_small:
  assumes "mk_rwq M malloc maxSize = Inr q" and "M \<le> address_space"
  shows "rw_small q"
proof -
  have "unat (ceilToPow2 x) < 2 ^ LENGTH(64)" for x by (rule unsigned_less)
  then have ceil: "unat (ceilToPow2 x) \<le> address_space" for x by (simp add: address_space_def less_imp_le)
  define count where "count = (maxSize + M * 2 - 3) div (M - 1)"
  define blocks where "blocks = init_blocks malloc M count 0 None 0 (Map.empty :: nat \<rightharpoonup> 'a block)"
  have small: "small_heap (snd (snd blocks))"
    unfolding blocks_def by (rule init_blocks_small [OF assms(2) small_heap_intros(1)])
  from assms(1) consider (many) f where "blocks = (True, Some f, q_blocks q)" "q_largest q = M"
    | (one) a N where "q_blocks q = [a \<mapsto> (make_block N)\<lparr>b_next := a\<rparr>]" "q_largest q = N" "N \<le> address_space"
    using ceil unfolding mk_rwq_def Let_def count_def [symmetric] blocks_def [symmetric]
    by (cases blocks) (auto split: if_splits option.splits bool.splits)
  then show ?thesis
  proof cases
    case many
    with small assms(2) show ?thesis by (auto simp: rw_small_def small_heap_def)
  next
    case one
    with make_block_mask [OF one(3)] show ?thesis by (auto simp: rw_small_def)
  qed
qed

end
