(* ===== verification/SpscQueue.thy ===== *)
theory SpscQueue
  imports Spsc
begin

text \<open>
  \<open>ReaderWriterQueue\<close> (\<open>include/queue/moodycamel/readerwriterqueue.h\<close>) against its contract: sequences of
  calls on a queue answer as they do on a list, whatever the allocations give. The destructor is here too.
\<close>

section \<open>Sequences of calls\<close>

datatype 'a rw_call = Enqueue 'a "nat option" | TryEnqueue 'a | TryDequeue | Pop | Peek

datatype 'a rw_answer = Accepted bool | Dequeued "'a option" | Popped bool | Peeked "'a option"

definition rw_call :: "nat \<Rightarrow> 'a rw_call \<Rightarrow> 'a rwq \<Rightarrow> ('a rw_answer \<times> 'a rwq) outcome" where
  "rw_call M c q =
     (case c of
        Enqueue x malloc \<Rightarrow> bind_outcome (rw_enqueue M malloc x q) (\<lambda>(ok, q'). Inr (Accepted ok, q'))
      | TryEnqueue x \<Rightarrow> bind_outcome (rw_try_enqueue M x q) (\<lambda>(ok, q'). Inr (Accepted ok, q'))
      | TryDequeue \<Rightarrow> bind_outcome (rw_try_dequeue q) (\<lambda>(v, q'). Inr (Dequeued v, q'))
      | Pop \<Rightarrow> bind_outcome (rw_pop q) (\<lambda>(ok, q'). Inr (Popped ok, q'))
      | Peek \<Rightarrow> bind_outcome (rw_peek q) (\<lambda>(p, q').
          case p of None \<Rightarrow> Inr (Peeked None, q') | Some r \<Rightarrow> bind_outcome (rw_read q' r) (\<lambda>x. Inr (Peeked (Some x), q'))))"

fun rw_run :: "nat \<Rightarrow> 'a rw_call list \<Rightarrow> 'a rwq \<Rightarrow> ('a rw_answer list \<times> 'a rwq) outcome" where
  "rw_run M [] q = Inr ([], q)"
| "rw_run M (c # cs) q =
     bind_outcome (rw_call M c q) (\<lambda>r. bind_outcome (rw_run M cs (snd r)) (\<lambda>r'. Inr (fst r # fst r', snd r')))"

text \<open>An allocation never returns the address of a block that is in use.\<close>

fun fresh_call :: "'a rw_call \<Rightarrow> 'a rwq \<Rightarrow> bool" where
  "fresh_call (Enqueue x malloc) q = (case malloc of None \<Rightarrow> True | Some a \<Rightarrow> q_blocks q a = None)"
| "fresh_call c q = True"

fun fresh_run :: "nat \<Rightarrow> 'a rw_call list \<Rightarrow> 'a rwq \<Rightarrow> bool" where
  "fresh_run M [] q = True"
| "fresh_run M (c # cs) q = (fresh_call c q \<and> (case rw_call M c q of Inl e \<Rightarrow> True | Inr r \<Rightarrow> fresh_run M cs (snd r)))"

section \<open>The contract\<close>

text \<open>
  What the comments of the class promise: first in, first out; an enqueue fails only with at least \<open>cap\<close>
  objects in the queue and, for \<open>enqueue\<close>, when the allocation failed.
\<close>

fun fifo_answers :: "nat \<Rightarrow> 'a rw_call \<Rightarrow> 'a rw_answer \<Rightarrow> 'a list \<Rightarrow> bool" where
  "fifo_answers cap (Enqueue x malloc) (Accepted ok) xs = (ok \<or> malloc = None \<and> cap \<le> length xs)"
| "fifo_answers cap (TryEnqueue x) (Accepted ok) xs = (ok \<or> cap \<le> length xs)"
| "fifo_answers cap TryDequeue (Dequeued v) xs = (v = (case xs of [] \<Rightarrow> None | y # ys \<Rightarrow> Some y))"
| "fifo_answers cap Pop (Popped ok) xs = (ok = (xs \<noteq> []))"
| "fifo_answers cap Peek (Peeked v) xs = (v = (case xs of [] \<Rightarrow> None | y # ys \<Rightarrow> Some y))"
| "fifo_answers cap c r xs = False"

fun fifo_after :: "'a rw_call \<Rightarrow> 'a rw_answer \<Rightarrow> 'a list \<Rightarrow> 'a list" where
  "fifo_after (Enqueue x malloc) r xs = (if r = Accepted True then xs @ [x] else xs)"
| "fifo_after (TryEnqueue x) r xs = (if r = Accepted True then xs @ [x] else xs)"
| "fifo_after TryDequeue r xs = tl xs"
| "fifo_after Pop r xs = tl xs"
| "fifo_after Peek r xs = xs"

fun fifo_run :: "nat \<Rightarrow> 'a rw_call list \<Rightarrow> 'a rw_answer list \<Rightarrow> 'a list \<Rightarrow> bool" where
  "fifo_run cap [] [] xs = True"
| "fifo_run cap (c # cs) (r # rs) xs = (fifo_answers cap c r xs \<and> fifo_run cap cs rs (fifo_after c r xs))"
| "fifo_run cap cs rs xs = False"

section \<open>The simulation\<close>

lemma rw_call_simulates:
  assumes q: "rw_queue m n q xs" and fresh: "fresh_call c q" and cap: "cap \<le> m * max 1 (n - 1)"
  shows "\<exists>r q'. rw_call M c q = Inr (r, q') \<and> fifo_answers cap c r xs \<and> rw_queue m n q' (fifo_after c r xs)"
proof (cases c)
  case (Enqueue x malloc)
  with fresh have "fresh_block q malloc" by (auto simp: fresh_block_def split: option.splits)
  from inner_enqueue_refines [OF q this, of M CanAlloc x] obtain ok q' where
    "inner_enqueue M CanAlloc malloc x q = Inr (ok, q')" "rw_queue m n q' (if ok then xs @ [x] else xs)"
    "\<not> ok \<longrightarrow> malloc = None \<and> m * max 1 (n - 1) \<le> length xs" by auto
  with cap Enqueue show ?thesis by (cases ok) (auto simp: rw_call_def rw_enqueue_def)
next
  case (TryEnqueue x)
  from inner_enqueue_refines [OF q, of None M CannotAlloc x] obtain ok q' where
    "inner_enqueue M CannotAlloc None x q = Inr (ok, q')" "rw_queue m n q' (if ok then xs @ [x] else xs)"
    "\<not> ok \<longrightarrow> m * max 1 (n - 1) \<le> length xs" by (auto simp: fresh_block_def)
  with cap TryEnqueue show ?thesis by (cases ok) (auto simp: rw_call_def rw_try_enqueue_def)
next
  case TryDequeue
  from rw_try_dequeue_refines [OF q] TryDequeue show ?thesis by (cases xs) (auto simp: rw_call_def)
next
  case Pop
  from rw_try_dequeue_refines [OF q] Pop show ?thesis by (cases xs) (auto simp: rw_call_def rw_pop_dequeue)
next
  case Peek
  from rw_peek_refines [OF q] obtain p q' where
    "rw_peek q = Inr (p, q')" "rw_queue m n q' xs"
    "case p of None \<Rightarrow> xs = [] | Some r \<Rightarrow> xs \<noteq> [] \<and> rw_read q' r = Inr (hd xs)" by blast
  with Peek show ?thesis by (cases p; cases xs) (auto simp: rw_call_def)
qed

fun fifo_final :: "'a rw_call list \<Rightarrow> 'a rw_answer list \<Rightarrow> 'a list \<Rightarrow> 'a list" where
  "fifo_final (c # cs) (r # rs) xs = fifo_final cs rs (fifo_after c r xs)"
| "fifo_final cs rs xs = xs"

lemma rw_run_simulates:
  assumes "rw_queue m n q xs" and "fresh_run M cs q" and "cap \<le> m * max 1 (n - 1)"
  shows "\<exists>rs q'. rw_run M cs q = Inr (rs, q') \<and> fifo_run cap cs rs xs \<and> rw_queue m n q' (fifo_final cs rs xs)"
  using assms(1,2)
proof (induction cs arbitrary: q xs)
  case (Cons c cs)
  from rw_call_simulates [OF Cons.prems(1) _ assms(3), of c M] Cons.prems(2) obtain r q' where
    r: "rw_call M c q = Inr (r, q')" "fifo_answers cap c r xs" "rw_queue m n q' (fifo_after c r xs)" by auto
  with Cons.IH [OF r(3)] Cons.prems(2) show ?case by force
qed simp

lemma rw_call_small: "rw_call M c q = Inr (r, q') \<Longrightarrow> rw_small q \<Longrightarrow> 2 * M \<le> address_space \<Longrightarrow> rw_small q'"
  by (cases c)
    (auto simp: rw_call_def rw_enqueue_def rw_try_enqueue_def rw_pop_dequeue bind_outcome_eq_Inr split: option.splits
      dest: inner_enqueue_small rw_try_dequeue_small rw_peek_small)

lemma rw_run_small: "rw_run M cs q = Inr (rs, q') \<Longrightarrow> rw_small q \<Longrightarrow> 2 * M \<le> address_space \<Longrightarrow> rw_small q'"
  by (induction cs arbitrary: q rs) (auto simp: bind_outcome_eq_Inr dest!: rw_call_small)

text \<open>
  C8: a \<open>ReaderWriterQueue\<close> made for \<open>maxSize\<close> objects refines the bounded queue: every sequence of calls is
  answered as a list answers it, no assertion fails and no raw slot is read; an enqueue is refused only when the
  queue already holds \<open>maxSize\<close> objects or more.
\<close>

theorem rw_queue_refines:
  fixes cs :: "'a rw_call list"
  assumes "M = 2 ^ k" and "1 \<le> k" and "k \<le> 62" and "0 < maxSize" and "maxSize \<le> 2 ^ 62" and "inj addr"
    and "case mk_rwq M (\<lambda>i. Some (addr i)) maxSize of Inl e \<Rightarrow> True | Inr q \<Rightarrow> fresh_run M cs q"
  shows "\<exists>q rs q'. mk_rwq M (\<lambda>i. Some (addr i)) maxSize = Inr q \<and> rw_run M cs q = Inr (rs, q') \<and> fifo_run maxSize cs rs []"
proof -
  obtain q m n where q: "mk_rwq M (\<lambda>i. Some (addr i)) maxSize = Inr q" "rw_queue m n q ([] :: 'a list)" "maxSize \<le> m * max 1 (n - 1)"
    using mk_rwq_empty [OF assms(1-6)] by blast
  with rw_run_simulates [OF q(2) _ q(3), of M cs] assms(7) show ?thesis by auto
qed

theorem rw_queue_refines_witness:
  "\<exists>q rs q'. mk_rwq 2 (\<lambda>i. Some (2 * i)) 1 = Inr q \<and>
     rw_run 2 [TryEnqueue ''a'', TryEnqueue ''b'', Enqueue ''c'' (Some 1), Enqueue ''d'' (Some 3), TryDequeue, Peek, Pop, TryDequeue, TryDequeue] q = Inr (rs, q') \<and>
     fifo_run 1 [TryEnqueue ''a'', TryEnqueue ''b'', Enqueue ''c'' (Some 1), Enqueue ''d'' (Some 3), TryDequeue, Peek, Pop, TryDequeue, TryDequeue] rs []"
  apply (rule rw_queue_refines [of 2 1])
        apply simp_all
   apply (simp add: inj_def)
  apply code_simp
  done


text \<open>
  C19: after any sequence of calls \<open>size_approx\<close> ends and counts the objects in the queue exactly, and the
  destructor ends the lifetime of exactly these objects, in order, and frees every block exactly once.
\<close>

theorem rw_queue_counted_and_destroyed:
  fixes cs :: "'a rw_call list"
  assumes "M = 2 ^ k" and "1 \<le> k" and "k \<le> 62" and "0 < maxSize" and "maxSize \<le> 2 ^ 62" and "inj addr"
    and "mk_rwq M (\<lambda>i. Some (addr i)) maxSize = Inr q" and "fresh_run M cs q"
  shows "\<exists>rs q' freed. rw_run M cs q = Inr (rs, q') \<and> rw_size_approx q' = Some (length (fifo_final cs rs [])) \<and>
    rw_destroy q' = Some (fifo_final cs rs [], freed, Map.empty) \<and> distinct freed \<and> set freed = dom (q_blocks q')"
proof -
  have M: "2 * M \<le> address_space"
    using power_increasing [of "Suc k" 64 "2 :: nat"] assms(1,3) by (simp add: address_space_def)
  obtain m n where q: "rw_queue m n q ([] :: 'a list)" "maxSize \<le> m * max 1 (n - 1)"
    using mk_rwq_empty [OF assms(1-6), where 'a = 'a] assms(7) by (metis Inr_inject)
  obtain rs q' where r: "rw_run M cs q = Inr (rs, q')" "rw_queue m n q' (fifo_final cs rs [])"
    using rw_run_simulates [OF q(1) assms(8) q(2)] by blast
  have "rw_small q'" using rw_run_small [OF r(1) _ M] mk_rwq_small [OF assms(7)] M by simp
  then have "rw_size_approx q' = Some (length (fifo_final cs rs []))"
    using rw_size_refines [OF r(2)] by (auto simp: rw_small_def address_space_def)
  with r(1) rw_destroy_refines [OF r(2)] show ?thesis by blast
qed

text \<open>One block of two slots, filled, then a second one.\<close>

theorem rw_queue_counted_and_destroyed_witness:
  "\<exists>q rs q' freed. mk_rwq 2 (\<lambda>i. Some (2 * i)) 1 = Inr q \<and>
     rw_run 2 [TryEnqueue ''a'', Enqueue ''b'' (Some 1), Enqueue ''c'' (Some 3), Pop] q = Inr (rs, q') \<and>
     rw_size_approx q' = Some (length (fifo_final [TryEnqueue ''a'', Enqueue ''b'' (Some 1), Enqueue ''c'' (Some 3), Pop] rs [])) \<and>
     rw_destroy q' = Some (fifo_final [TryEnqueue ''a'', Enqueue ''b'' (Some 1), Enqueue ''c'' (Some 3), Pop] rs [], freed, Map.empty) \<and>
     distinct freed \<and> set freed = dom (q_blocks q')"
proof -
  obtain q :: "string rwq" where q: "mk_rwq 2 (\<lambda>i. Some (2 * i)) 1 = Inr q"
    using mk_rwq_empty [of 2 1 1 "\<lambda>i. 2 * i"] by (auto simp: inj_def)
  have "case mk_rwq 2 (\<lambda>i. Some (2 * i)) 1 of Inl e \<Rightarrow> True
    | Inr q \<Rightarrow> fresh_run 2 [TryEnqueue ''a'', Enqueue ''b'' (Some 1), Enqueue ''c'' (Some 3), Pop] q" by code_simp
  then have "fresh_run 2 [TryEnqueue ''a'', Enqueue ''b'' (Some 1), Enqueue ''c'' (Some 3), Pop] q" unfolding q sum.case .
  from rw_queue_counted_and_destroyed [OF _ _ _ _ _ _ q this, of 1] q show ?thesis
    by (auto simp: inj_def)
qed

end
