(* ===== verification/SpscSteps.thy ===== *)
theory SpscSteps
  imports Spsc
begin

text \<open>
  \<open>ReaderWriterQueue\<close> with its two threads interleaved: the producer's \<open>inner_enqueue\<close> and the consumer's
  \<open>try_dequeue\<close> as steps, each with at most one access to a variable that the other thread writes (the
  front, the tail and the objects of a block, \<open>next\<close>, \<open>frontBlock\<close>, \<open>tailBlock\<close>). Memory is sequentially
  consistent. The sequential operations of \<open>Spsc\<close> are the effects these steps have, one after the other.
\<close>

section \<open>The two threads\<close>

text \<open>
  The producer: about to compare \<open>tail\<close> with \<open>front\<close>; about to read \<open>frontBlock\<close>, the block having been full
  with \<open>k\<close> objects in the queue; about to enter the next block; about to allocate; about to link the new block;
  about to construct the object in a block; about to move the tail; about to set \<open>tailBlock\<close>.
\<close>

datatype 'a enq_pc =
    EIdle
  | ECheck allocation_mode 'a
  | EFront allocation_mode 'a nat
  | ENext 'a
  | EAlloc 'a
  | ELink nat 'a
  | EWrite nat 'a bool
  | ETail nat 'a bool
  | EPublish nat 'a bool

text \<open>
  The consumer: about to compare \<open>front\<close> with \<open>tail\<close>; about to read \<open>tailBlock\<close>, having seen the block empty (the
  flag tells whether the queue was); about to read the tail again; about to read \<open>next\<close>; about to look into that
  block; about to enter it; about to take the object; about to move the front.
\<close>

datatype 'a deq_pc =
    DIdle
  | DCheck
  | DTail bool
  | DAgain
  | DNext
  | DLook nat
  | DMove nat
  | DRead
  | DAdvance 'a

text \<open>The objects that are in the queue for good, and those that were taken out, in order, are recorded.\<close>

record 'a spsc =
  k_q :: "'a rwq"
  k_enq :: "'a enq_pc"
  k_deq :: "'a deq_pc"
  k_sent :: "'a list"
  k_got :: "'a list"

definition new_block :: "nat \<Rightarrow> 'a \<Rightarrow> nat \<Rightarrow> 'a block" where
  "new_block N x nx =
     (make_block N)\<lparr>b_data := (b_data (make_block N))[0 := Some x], b_tail := 1, b_localTail := 1, b_next := nx\<rparr>"

text \<open>One step of \<open>inner_enqueue\<close>; \<open>malloc\<close> is the answer of the allocation, where there is one.\<close>

definition enq_step :: "nat \<Rightarrow> nat option \<Rightarrow> 'a spsc \<Rightarrow> 'a spsc outcome" where
  "enq_step M malloc s =
     (let q = k_q s; T = q_tailBlock q in
      case k_enq s of
        EIdle \<Rightarrow> Inr s
      | ECheck mode x \<Rightarrow>
          bind_outcome (blk q T) (\<lambda>b.
            let nextBlockTail = (b_tail b + 1) AND b_sizeMask b in
            if nextBlockTail \<noteq> b_localFront b then Inr (s\<lparr>k_enq := EWrite T x False\<rparr>)
            else
              let q = set_blk T (b\<lparr>b_localFront := b_front b\<rparr>) q in
              if nextBlockTail \<noteq> b_front b then Inr (s\<lparr>k_q := q, k_enq := EWrite T x False\<rparr>)
              else Inr (s\<lparr>k_q := q, k_enq := EFront mode x (length (k_sent s) - length (k_got s))\<rparr>))
      | EFront mode x k \<Rightarrow>
          bind_outcome (blk q T) (\<lambda>b.
            Inr (s\<lparr>k_enq := (if b_next b \<noteq> q_frontBlock q then ENext x else if mode = CanAlloc then EAlloc x else EIdle)\<rparr>))
      | ENext x \<Rightarrow>
          bind_outcome (blk q T) (\<lambda>b. bind_outcome (blk q (b_next b)) (\<lambda>n.
            if b_front n \<noteq> b_tail n then Inl AssertFailed
            else Inr (s\<lparr>k_q := set_blk (b_next b) (n\<lparr>b_localFront := b_front n\<rparr>) q, k_enq := EWrite (b_next b) x True\<rparr>)))
      | EAlloc x \<Rightarrow>
          bind_outcome (blk q T) (\<lambda>b.
            case malloc of
              None \<Rightarrow> Inr (s\<lparr>k_enq := EIdle\<rparr>)
            | Some a \<Rightarrow>
                let N = (if q_largest q \<ge> M then q_largest q else q_largest q * 2) in
                Inr (s\<lparr>k_q := set_blk a (new_block N x (b_next b)) q\<lparr>q_largest := N\<rparr>, k_enq := ELink a x\<rparr>))
      | ELink a x \<Rightarrow>
          bind_outcome (blk q T) (\<lambda>b. Inr (s\<lparr>k_q := set_blk T (b\<lparr>b_next := a\<rparr>) q, k_enq := EPublish a x True\<rparr>))
      | EWrite a x next_block \<Rightarrow>
          bind_outcome (blk q a) (\<lambda>b.
            if b_tail b < length (b_data b)
            then Inr (s\<lparr>k_q := set_blk a (b\<lparr>b_data := (b_data b)[b_tail b := Some x]\<rparr>) q, k_enq := ETail a x next_block\<rparr>)
            else Inl BadDeref)
      | ETail a x next_block \<Rightarrow>
          bind_outcome (blk q a) (\<lambda>b.
            let q = set_blk a (b\<lparr>b_tail := (b_tail b + 1) AND b_sizeMask b\<rparr>) q in
            if next_block then Inr (s\<lparr>k_q := q, k_enq := EPublish a x False\<rparr>)
            else Inr (s\<lparr>k_q := q, k_enq := EIdle, k_sent := k_sent s @ [x]\<rparr>))
      | EPublish a x made \<Rightarrow> Inr (s\<lparr>k_q := q\<lparr>q_tailBlock := a\<rparr>, k_enq := EIdle, k_sent := k_sent s @ [x]\<rparr>))"

text \<open>One step of \<open>try_dequeue\<close>.\<close>

definition deq_step :: "'a spsc \<Rightarrow> 'a spsc outcome" where
  "deq_step s =
     (let q = k_q s; F = q_frontBlock q in
      case k_deq s of
        DIdle \<Rightarrow> Inr s
      | DCheck \<Rightarrow>
          bind_outcome (blk q F) (\<lambda>b.
            if b_front b \<noteq> b_localTail b then Inr (s\<lparr>k_deq := DRead\<rparr>)
            else Inr (s\<lparr>k_q := set_blk F (b\<lparr>b_localTail := b_tail b\<rparr>) q,
                        k_deq := (if b_front b \<noteq> b_tail b then DRead else DTail (length (k_sent s) = length (k_got s)))\<rparr>))
      | DTail e \<Rightarrow> Inr (s\<lparr>k_deq := (if F \<noteq> q_tailBlock q then DAgain else DIdle)\<rparr>)
      | DAgain \<Rightarrow>
          bind_outcome (blk q F) (\<lambda>b.
            Inr (s\<lparr>k_q := set_blk F (b\<lparr>b_localTail := b_tail b\<rparr>) q, k_deq := (if b_front b \<noteq> b_tail b then DRead else DNext)\<rparr>))
      | DNext \<Rightarrow>
          bind_outcome (blk q F) (\<lambda>b. Inr (s\<lparr>k_deq := DLook (b_next b)\<rparr>))
      | DLook a \<Rightarrow>
          bind_outcome (blk q a) (\<lambda>b.
            if b_front b = b_tail b then Inl AssertFailed
            else Inr (s\<lparr>k_q := set_blk a (b\<lparr>b_localTail := b_tail b\<rparr>) q, k_deq := DMove a\<rparr>))
      | DMove a \<Rightarrow> Inr (s\<lparr>k_q := q\<lparr>q_frontBlock := a\<rparr>, k_deq := DRead\<rparr>)
      | DRead \<Rightarrow>
          bind_outcome (blk q F) (\<lambda>b.
            if b_front b < length (b_data b) then
              (case b_data b ! b_front b of
                 None \<Rightarrow> Inl BadDeref
               | Some x \<Rightarrow> Inr (s\<lparr>k_q := set_blk F (b\<lparr>b_data := (b_data b)[b_front b := None]\<rparr>) q, k_deq := DAdvance x\<rparr>))
            else Inl BadDeref)
      | DAdvance x \<Rightarrow>
          bind_outcome (blk q F) (\<lambda>b.
            Inr (s\<lparr>k_q := set_blk F (b\<lparr>b_front := (b_front b + 1) AND b_sizeMask b\<rparr>) q, k_deq := DIdle,
                  k_got := k_got s @ [x]\<rparr>)))"

text \<open>The interleavings: \<open>malloc\<close> never returns the address of a block that is there.\<close>

inductive conc_step :: "nat \<Rightarrow> 'a spsc \<Rightarrow> 'a spsc \<Rightarrow> bool" for M where
  call_enqueue: "k_enq s = EIdle \<Longrightarrow> conc_step M s (s\<lparr>k_enq := ECheck mode x\<rparr>)"
| call_dequeue: "k_deq s = DIdle \<Longrightarrow> conc_step M s (s\<lparr>k_deq := DCheck\<rparr>)"
| enqueue: "fresh_block (k_q s) malloc \<Longrightarrow> enq_step M malloc s = Inr s' \<Longrightarrow> conc_step M s s'"
| dequeue: "deq_step s = Inr s' \<Longrightarrow> conc_step M s s'"

definition conc_start :: "'a rwq \<Rightarrow> 'a spsc" where
  "conc_start q = \<lparr>k_q = q, k_enq = EIdle, k_deq = DIdle, k_sent = [], k_got = []\<rparr>"

section \<open>What is under way\<close>

text \<open>
  The queue as it would be had the operations under way not begun to change it is a queue in the sense of
  \<open>Spsc\<close>; the memory differs from it by the writes of \<open>enq_block\<close>, \<open>deq_block\<close> and a block not yet linked.
\<close>

fun enq_block :: "'a enq_pc \<Rightarrow> nat \<Rightarrow> nat \<Rightarrow> 'a block \<Rightarrow> 'a block" where
  "enq_block (ETail a' x nb) T a b = (if a = a' then b\<lparr>b_data := (b_data b)[b_tail b := Some x]\<rparr> else b)"
| "enq_block (EPublish a' x False) T a b =
     (if a = a' then b\<lparr>b_data := (b_data b)[b_tail b := Some x], b_tail := (b_tail b + 1) AND b_sizeMask b\<rparr> else b)"
| "enq_block (EPublish a' x True) T a b = (if a = T then b\<lparr>b_next := a'\<rparr> else b)"
| "enq_block e T a b = b"

fun enq_extra :: "'a enq_pc \<Rightarrow> 'a rwq \<Rightarrow> nat \<Rightarrow> 'a block option" where
  "enq_extra (ELink a' x) u a =
     (if a = a' then map_option (\<lambda>b. new_block (q_largest u) x (b_next b)) (q_blocks u (q_tailBlock u)) else None)"
| "enq_extra (EPublish a' x True) u a =
     (if a = a' then map_option (\<lambda>b. new_block (q_largest u) x (b_next b)) (q_blocks u (q_tailBlock u)) else None)"
| "enq_extra e u a = None"

fun deq_block :: "'a deq_pc \<Rightarrow> nat \<Rightarrow> nat \<Rightarrow> 'a block \<Rightarrow> 'a block" where
  "deq_block (DAdvance x) F a b = (if a = F then b\<lparr>b_data := (b_data b)[b_front b := None]\<rparr> else b)"
| "deq_block d F a b = b"

definition memory_of :: "'a enq_pc \<Rightarrow> 'a deq_pc \<Rightarrow> 'a rwq \<Rightarrow> 'a rwq" where
  "memory_of e d u = u\<lparr>q_blocks := \<lambda>a. case q_blocks u a of
     Some b \<Rightarrow> Some (deq_block d (q_frontBlock u) a (enq_block e (q_tailBlock u) a b)) | None \<Rightarrow> enq_extra e u a\<rparr>"

text \<open>What each thread knows.\<close>

definition has_room :: "'a rwq \<Rightarrow> nat \<Rightarrow> bool" where
  "has_room u a \<longleftrightarrow> (\<exists>b. q_blocks u a = Some b \<and> (b_tail b + 1) AND b_sizeMask b \<noteq> b_localFront b)"

definition tail_full :: "'a rwq \<Rightarrow> nat \<Rightarrow> 'a list list \<Rightarrow> bool" where
  "tail_full u t xss \<longleftrightarrow> (\<forall>b. 0 < t \<longrightarrow> q_blocks u (q_tailBlock u) = Some b \<longrightarrow> length (xss ! t) = b_sizeMask b)"

fun enq_ok :: "'a enq_pc \<Rightarrow> nat \<Rightarrow> 'a rwq \<Rightarrow> nat list \<Rightarrow> nat \<Rightarrow> 'a list list \<Rightarrow> bool" where
  "enq_ok EIdle cap u ring t xss = True"
| "enq_ok (ECheck mode x) cap u ring t xss = True"
| "enq_ok (EFront mode x k) cap u ring t xss = (tail_full u t xss \<and> (Suc t < length ring \<or> cap \<le> k))"
| "enq_ok (ENext x) cap u ring t xss = (tail_full u t xss \<and> Suc t < length ring)"
| "enq_ok (EAlloc x) cap u ring t xss = tail_full u t xss"
| "enq_ok (ELink a x) cap u ring t xss = (tail_full u t xss \<and> a \<notin> dom (q_blocks u))"
| "enq_ok (EWrite a x nb) cap u ring t xss = (has_room u a \<and>
     (if nb then tail_full u t xss \<and> Suc t < length ring \<and> a = ring ! Suc t else a = ring ! t))"
| "enq_ok (ETail a x nb) cap u ring t xss = (has_room u a \<and>
     (if nb then tail_full u t xss \<and> Suc t < length ring \<and> a = ring ! Suc t else a = ring ! t))"
| "enq_ok (EPublish a x made) cap u ring t xss = (tail_full u t xss \<and>
     (if made then a \<notin> dom (q_blocks u) else has_room u a \<and> Suc t < length ring \<and> a = ring ! Suc t))"

definition sees_object :: "'a rwq \<Rightarrow> nat \<Rightarrow> bool" where
  "sees_object u a \<longleftrightarrow> (\<exists>b. q_blocks u a = Some b \<and> b_front b \<noteq> b_localTail b)"

fun deq_ok :: "'a deq_pc \<Rightarrow> 'a rwq \<Rightarrow> nat list \<Rightarrow> nat \<Rightarrow> 'a list list \<Rightarrow> bool" where
  "deq_ok DIdle u ring t xss = True"
| "deq_ok DCheck u ring t xss = True"
| "deq_ok (DTail e) u ring t xss = (e \<or> 0 < t)"
| "deq_ok DAgain u ring t xss = (0 < t)"
| "deq_ok DNext u ring t xss = (0 < t \<and> xss ! 0 = [])"
| "deq_ok (DLook a) u ring t xss = (0 < t \<and> xss ! 0 = [] \<and> a = ring ! 1)"
| "deq_ok (DMove a) u ring t xss = (0 < t \<and> xss ! 0 = [] \<and> a = ring ! 1 \<and> sees_object u a)"
| "deq_ok DRead u ring t xss = sees_object u (q_frontBlock u)"
| "deq_ok (DAdvance x) u ring t xss = (sees_object u (q_frontBlock u) \<and> (\<exists>ys. xss ! 0 = x # ys))"

definition conc_ok :: "nat \<Rightarrow> nat \<Rightarrow> 'a spsc \<Rightarrow> 'a rwq \<Rightarrow> nat list \<Rightarrow> nat \<Rightarrow> 'a list list \<Rightarrow> bool" where
  "conc_ok m n s u ring t xss \<longleftrightarrow> rw_holds m u ring t xss \<and> n \<le> length ring \<and> k_sent s = k_got s @ concat xss \<and>
     k_q s = memory_of (k_enq s) (k_deq s) u \<and> enq_ok (k_enq s) (m * max 1 (n - 1)) u ring t xss \<and>
     deq_ok (k_deq s) u ring t xss"

section \<open>Inserting a block\<close>

lemma rw_blocks_rotate_by: "rw_blocks m heap ring xss \<Longrightarrow> rw_blocks m heap (rotate k ring) (rotate k xss)"
  by (induction k) (auto dest: rw_blocks_rotate)

lemma rw_blocks_swap:
  assumes "rw_blocks m heap (l @ r) (xl @ xr)" and "length xl = length l"
  shows "rw_blocks m heap (r @ l) (xr @ xl)"
  using rw_blocks_rotate_by [OF assms(1), of "length l"] assms(2) rotate_append [of xl xr] by (simp add: rotate_append)

lemma rw_blocks_insert:
  assumes h: "rw_blocks m heap (l @ r) (xl @ xr)" and len: "length xl = length l" and l: "l \<noteq> []"
    and a: "a \<notin> dom heap" and b: "heap (last l) = Some b"
    and new: "block_holds new ys" "b_next new = b_next b" "m \<le> b_sizeMask new"
  shows "rw_blocks m ((heap(a \<mapsto> new))(last l \<mapsto> b\<lparr>b_next := a\<rparr>)) (l @ a # r) (xl @ ys # xr)"
proof -
  have i: "length l - 1 < length (l @ r)" using l by (cases l) auto
  have at: "(l @ r) ! (length l - 1) = last l" using l by (simp add: nth_append last_conv_nth)
  have nx: "b_next b = (r @ l) ! 0"
  proof -
    have "b_next b = (l @ r) ! (Suc (length l - 1) mod length (l @ r))" using rw_blocks_at [OF h i] b unfolding at by auto
    with l show ?thesis by (cases r) (auto simp: nth_append)
  qed
  have "rw_blocks m heap (r @ l) (xr @ xl)" using rw_blocks_swap [OF h len] .
  moreover have "last (r @ l) = last l" using l by simp
  ultimately have "rw_blocks m ((heap(a \<mapsto> new))(last l \<mapsto> b\<lparr>b_next := a\<rparr>)) ((r @ l) @ [a]) ((xr @ xl) @ [ys])"
    using rw_blocks_extend [of m heap "r @ l" "xr @ xl" a b new ys] l a b new nx by simp
  moreover have "length xr = length r" using h len by (simp add: rw_blocks_def)
  ultimately show ?thesis using rw_blocks_swap [of m _ r "l @ [a]" xr "xl @ [ys]"] by simp
qed

lemma block_at_inj: "rw_holds m u ring t xss \<Longrightarrow> i < length ring \<Longrightarrow> j < length ring \<Longrightarrow> i \<noteq> j \<Longrightarrow> ring ! i \<noteq> ring ! j"
  by (simp add: ring_eq)

lemma nth_insert:
  assumes "t < length xs" and "i \<le> length xs"
  shows "(take (Suc t) xs @ y # drop (Suc t) xs) ! i = (if i \<le> t then xs ! i else if i = Suc t then y else xs ! (i - 1))"
proof -
  consider "i \<le> t" | "i = Suc t" | k where "i = Suc (Suc t) + k"
    by (metis le_add_diff_inverse not_less_eq_eq not_less less_antisym Suc_leI)
  then show ?thesis using assms by cases (auto simp: nth_append min_absorb2)
qed

lemma rw_new_insert:
  assumes h: "rw_holds m u ring t xss" and b: "q_blocks u (ring ! t) = Some b"
    and full: "0 < t \<Longrightarrow> length (xss ! t) = b_sizeMask b" and fresh: "a \<notin> dom (q_blocks u)"
  shows "rw_holds m (set_blk (ring ! t) (b\<lparr>b_next := a\<rparr>) (set_blk a (new_block (q_largest u) x (b_next b)) u)\<lparr>q_tailBlock := a\<rparr>)
      (take (Suc t) ring @ a # drop (Suc t) ring) (Suc t) (take (Suc t) xss @ [x] # drop (Suc t) xss)"
    and "concat (take (Suc t) xss @ [x] # drop (Suc t) xss) = concat xss @ [x]"
proof -
  note len = rw_holds_lengths [OF h]
  let ?new = "new_block (q_largest u) x (b_next b)"
  let ?heap = "(q_blocks u)(a \<mapsto> ?new, ring ! t \<mapsto> b\<lparr>b_next := a\<rparr>)"
  let ?ring = "take (Suc t) ring @ a # drop (Suc t) ring" and ?xss = "take (Suc t) xss @ [x] # drop (Suc t) xss"
  have t: "t < length ring" "take (Suc t) ring \<noteq> []" "last (take (Suc t) ring) = ring ! t"
    using len by (auto simp: take_Suc_conv_app_nth)
  have new: "block_holds ?new [x]" "b_next ?new = b_next b" "m \<le> b_sizeMask ?new"
    using h new_block_holds [of "q_largest u"] by (auto simp: rw_holds_def new_block_def make_block_def)
  have blocks: "rw_blocks m ?heap ?ring ?xss"
    using rw_blocks_insert [of m "q_blocks u" "take (Suc t) ring" "drop (Suc t) ring" "take (Suc t) xss" "drop (Suc t) xss" a b ?new "[x]"]
      rw_holds_blocks [OF h] len t new fresh b by simp
  have rest: "xss ! i = []" if "t < i" "i < length ring" for i using h that by (simp add: rw_holds_def)
  have at: "?ring ! i = (if i \<le> t then ring ! i else if i = Suc t then a else ring ! (i - 1))"
    "?xss ! i = (if i \<le> t then xss ! i else if i = Suc t then [x] else xss ! (i - 1))" if "i \<le> length ring" for i
    using that t len by (simp_all add: nth_insert)
  show "rw_holds m (set_blk (ring ! t) (b\<lparr>b_next := a\<rparr>) (set_blk a ?new u)\<lparr>q_tailBlock := a\<rparr>) ?ring (Suc t) ?xss"
    unfolding rw_holds_def
  proof (intro conjI allI impI)
    show "?ring ! 0 = q_frontBlock (set_blk (ring ! t) (b\<lparr>b_next := a\<rparr>) (set_blk a ?new u)\<lparr>q_tailBlock := a\<rparr>)"
      using at(1) [of 0] h by (simp add: rw_holds_def)
  next
    fix i d assume i: "0 < i \<and> i < Suc t"
      and d: "q_blocks (set_blk (ring ! t) (b\<lparr>b_next := a\<rparr>) (set_blk a ?new u)\<lparr>q_tailBlock := a\<rparr>) (?ring ! i) = Some d"
    then have l: "i < length ring" using t by linarith
    from rw_holds_at [OF h l] fresh have "ring ! i \<noteq> a" by (metis domI)
    with i d l h full at [of i] block_at_inj [OF h l t(1)] show "length (?xss ! i) = b_sizeMask d"
      by (cases "i = t") (auto simp: rw_holds_def)
  next
    fix i assume "Suc t < i \<and> i < length ?ring"
    with at(2) [of i] rest [of "i - 1"] t show "?xss ! i = []" by auto
  qed (use blocks h t len at [of "Suc t"] in \<open>auto simp: rw_holds_def\<close>)
  have d: "concat (drop (Suc t) xss) = []"
    using rest len by (auto simp: concat_eq_Nil_conv in_set_conv_nth)
  have "concat xss = concat (take (Suc t) xss) @ concat (drop (Suc t) xss)"
    by (metis append_take_drop_id concat_append)
  with d show "concat ?xss = concat xss @ [x]" by (simp only: concat_append concat.simps append_Nil2)
qed

section \<open>What the other thread's steps keep\<close>

lemma enq_ok_kept:
  assumes "enq_ok e cap u ring t xss" and b: "q_blocks u A = Some b"
    and b': "b_tail b' = b_tail b" "b_sizeMask b' = b_sizeMask b" "b_localFront b' = b_localFront b"
    and xss: "0 < t \<Longrightarrow> xss' ! t = xss ! t"
  shows "enq_ok e cap (set_blk A b' u) ring t xss'"
proof -
  have room: "has_room (set_blk A b' u) a = has_room u a" for a using b b' by (simp add: has_room_def)
  have full: "tail_full (set_blk A b' u) t xss' = tail_full u t xss" using b b' xss by (auto simp: tail_full_def)
  show ?thesis using assms(1) b by (cases e) (auto simp: room full split: if_splits)
qed

lemma enq_ok_advance:
  assumes ok: "enq_ok e cap u ring t xss" and h: "rw_holds m u ring t xss" and t: "0 < t"
  shows "enq_ok e cap (u\<lparr>q_frontBlock := f\<rparr>) (rotate1 ring) (t - 1) (rotate1 xss)"
proof -
  note len = rw_holds_lengths [OF h]
  have room: "has_room (u\<lparr>q_frontBlock := f\<rparr>) a = has_room u a" for a by (simp add: has_room_def)
  have "rotate1 xss ! (t - 1) = xss ! t" "rotate1 ring ! (t - 1) = ring ! t"
    using len t by (cases t; simp add: nth_rotate1)+
  moreover from this have "tail_full u t xss \<Longrightarrow> tail_full (u\<lparr>q_frontBlock := f\<rparr>) (t - 1) (rotate1 xss)"
    using t by (simp add: tail_full_def)
  moreover have "rotate1 ring ! Suc (t - 1) = ring ! Suc t" if "Suc t < length ring" using that t by (simp add: nth_rotate1)
  ultimately show ?thesis using ok t by (cases e) (auto simp: room split: if_splits)
qed

lemma deq_ok_kept:
  assumes ok: "deq_ok d u ring t xss" and t: "t \<le> t'" and next_block: "0 < t \<Longrightarrow> ring' ! 1 = ring ! 1"
    and empty: "0 < t \<Longrightarrow> xss ! 0 = [] \<Longrightarrow> xss' ! 0 = []"
    and front: "\<And>x ys. xss ! 0 = x # ys \<Longrightarrow> \<exists>zs. xss' ! 0 = x # zs"
    and sees: "\<And>a. sees_object u a \<Longrightarrow> sees_object u' a" and F: "q_frontBlock u' = q_frontBlock u"
  shows "deq_ok d u' ring' t' xss'"
  using ok by (cases d) (use assms in fastforce)+

lemma sees_object_set:
  assumes "q_blocks u A = Some b" and "b_front b' = b_front b" and "b_localTail b' = b_localTail b"
  shows "sees_object u a \<Longrightarrow> sees_object (set_blk A b' u) a"
  using assms by (auto simp: sees_object_def)

section \<open>Memory and queue\<close>

lemma memory_simps [simp]:
  "q_frontBlock (memory_of e d u) = q_frontBlock u" "q_tailBlock (memory_of e d u) = q_tailBlock u"
  "q_largest (memory_of e d u) = q_largest u"
  by (simp_all add: memory_of_def)

lemma memory_at:
  "q_blocks u a = Some b \<Longrightarrow>
    q_blocks (memory_of e d u) a = Some (deq_block d (q_frontBlock u) a (enq_block e (q_tailBlock u) a b))"
  by (simp add: memory_of_def)

lemma blk_memory:
  "q_blocks u a = Some b \<Longrightarrow>
    blk (memory_of e d u) a = Inr (deq_block d (q_frontBlock u) a (enq_block e (q_tailBlock u) a b))"
  by (simp add: blk_def memory_at)

lemma rwq_eqI:
  "q_blocks p = q_blocks q \<Longrightarrow> q_frontBlock p = q_frontBlock q \<Longrightarrow> q_tailBlock p = q_tailBlock q \<Longrightarrow> q_largest p = q_largest q \<Longrightarrow>
    p = (q :: 'a rwq)"
  by simp

lemma memory_set:
  assumes b: "q_blocks u A = Some b"
    and others: "\<And>a c. a \<noteq> A \<Longrightarrow> deq_block d' (q_frontBlock u) a (enq_block e' (q_tailBlock u) a c) =
      deq_block d (q_frontBlock u) a (enq_block e (q_tailBlock u) a c)"
    and extra: "enq_extra e' (set_blk A b' u) = enq_extra e u"
    and c: "c = deq_block d' (q_frontBlock u) A (enq_block e' (q_tailBlock u) A b')"
  shows "memory_of e' d' (set_blk A b' u) = set_blk A c (memory_of e d u)"
proof (rule rwq_eqI)
  show "q_blocks (memory_of e' d' (set_blk A b' u)) = q_blocks (set_blk A c (memory_of e d u))"
  proof
    fix a show "q_blocks (memory_of e' d' (set_blk A b' u)) a = q_blocks (set_blk A c (memory_of e d u)) a"
      by (cases "a = A") (simp_all add: memory_of_def others extra c split: option.split)
  qed
qed simp_all

lemma enq_extra_set: "q_blocks u A = Some b \<Longrightarrow> b_next b' = b_next b \<Longrightarrow> enq_extra e (set_blk A b' u) = enq_extra e u"
  by (rule ext, induction e u _ rule: enq_extra.induct) auto

lemma memory_same:
  assumes "\<And>a c. deq_block d' (q_frontBlock u) a (enq_block e' (q_tailBlock u) a c) =
      deq_block d (q_frontBlock u) a (enq_block e (q_tailBlock u) a c)"
    and "enq_extra e' u = enq_extra e u"
  shows "memory_of e' d' u = memory_of e d u"
  by (rule rwq_eqI) (simp_all add: memory_of_def assms fun_eq_iff split: option.split)

lemma enq_block_fields [simp]:
  "b_front (enq_block e T a b) = b_front b" "b_localTail (enq_block e T a b) = b_localTail b"
  "b_localFront (enq_block e T a b) = b_localFront b" "b_sizeMask (enq_block e T a b) = b_sizeMask b"
  "length (b_data (enq_block e T a b)) = length (b_data b)"
  by (induction e T a b rule: enq_block.induct) auto

lemma deq_block_fields [simp]:
  "b_front (deq_block d F a b) = b_front b" "b_localTail (deq_block d F a b) = b_localTail b"
  "b_tail (deq_block d F a b) = b_tail b" "b_localFront (deq_block d F a b) = b_localFront b"
  "b_sizeMask (deq_block d F a b) = b_sizeMask b" "b_next (deq_block d F a b) = b_next b"
  "length (b_data (deq_block d F a b)) = length (b_data b)"
  by (induction d F a b rule: deq_block.induct) auto

lemma enq_block_updates [simp]:
  "enq_block e T a (b\<lparr>b_localTail := v\<rparr>) = (enq_block e T a b)\<lparr>b_localTail := v\<rparr>"
  "enq_block e T a (b\<lparr>b_localFront := v\<rparr>) = (enq_block e T a b)\<lparr>b_localFront := v\<rparr>"
  "enq_block e T a (b\<lparr>b_front := v\<rparr>) = (enq_block e T a b)\<lparr>b_front := v\<rparr>"
  by (induction e T a b rule: enq_block.induct) auto

lemma deq_block_updates [simp]:
  "deq_block d F a (b\<lparr>b_localTail := v\<rparr>) = (deq_block d F a b)\<lparr>b_localTail := v\<rparr>"
  "deq_block d F a (b\<lparr>b_localFront := v\<rparr>) = (deq_block d F a b)\<lparr>b_localFront := v\<rparr>"
  "deq_block d F a (b\<lparr>b_tail := v\<rparr>) = (deq_block d F a b)\<lparr>b_tail := v\<rparr>"
  "deq_block d F a (b\<lparr>b_next := v\<rparr>) = (deq_block d F a b)\<lparr>b_next := v\<rparr>"
  by (induction d F a b rule: deq_block.induct) auto

text \<open>The producer leaves the tails up to the tail block alone, and the links before it.\<close>

lemma enq_block_behind:
  assumes h: "rw_holds m u ring t xss" and ok: "enq_ok e cap u ring t xss" and i: "i \<le> t"
  shows "b_tail (enq_block e (q_tailBlock u) (ring ! i) b) = b_tail b"
    and "i < t \<Longrightarrow> b_next (enq_block e (q_tailBlock u) (ring ! i) b) = b_next b"
proof -
  have l: "i < length ring" "t < length ring" "ring ! t = q_tailBlock u"
    using rw_holds_lengths [OF h] i h by (auto simp: rw_holds_def)
  have ne: "ring ! i \<noteq> ring ! Suc t" if "Suc t < length ring" using block_at_inj [OF h l(1) that] i by simp
  show "b_tail (enq_block e (q_tailBlock u) (ring ! i) b) = b_tail b"
    using ok ne by (induction e "q_tailBlock u" "ring ! i" b rule: enq_block.induct) auto
  have "i < t \<Longrightarrow> ring ! i \<noteq> q_tailBlock u" using block_at_inj [OF h l(1,2)] l(3) by simp
  then show "i < t \<Longrightarrow> b_next (enq_block e (q_tailBlock u) (ring ! i) b) = b_next b"
    by (induction e "q_tailBlock u" "ring ! i" b rule: enq_block.induct) auto
qed

text \<open>Filling the slot at the tail and clearing the one at the front commute, for they are not the same.\<close>

lemma enq_block_clear:
  "b_front b \<noteq> b_tail b \<Longrightarrow> enq_block e T a (b\<lparr>b_data := (b_data b)[b_front b := None]\<rparr>) =
    (enq_block e T a b)\<lparr>b_data := (b_data (enq_block e T a b))[b_front b := None]\<rparr>"
  by (induction e T a b rule: enq_block.induct) (auto simp: list_update_swap)

lemma enq_block_front:
  "b_front b \<noteq> b_tail b \<Longrightarrow> b_data (enq_block e T a b) ! b_front b = b_data b ! b_front b"
  by (induction e T a b rule: enq_block.induct) auto

lemma deq_block_fill:
  "b_front b \<noteq> b_tail b \<or> (\<forall>x. d \<noteq> DAdvance x) \<Longrightarrow> deq_block d F a (b\<lparr>b_data := (b_data b)[b_tail b := v]\<rparr>) =
    (deq_block d F a b)\<lparr>b_data := (b_data (deq_block d F a b))[b_tail b := v]\<rparr>"
  by (induction d F a b rule: deq_block.induct) (auto simp: list_update_swap)

lemma set_blk_same: "q_blocks u a = Some b \<Longrightarrow> set_blk a b u = u"
  by (rule rwq_eqI) auto

definition conc_inv :: "nat \<Rightarrow> nat \<Rightarrow> 'a spsc \<Rightarrow> bool" where
  "conc_inv m n s \<longleftrightarrow> (\<exists>u ring t xss. conc_ok m n s u ring t xss)"

section \<open>The consumer\<close>

lemma conc_okD:
  assumes "conc_ok m n s u ring t xss"
  shows "rw_holds m u ring t xss" and "n \<le> length ring" and "k_sent s = k_got s @ concat xss"
    and "k_q s = memory_of (k_enq s) (k_deq s) u" and "enq_ok (k_enq s) (m * max 1 (n - 1)) u ring t xss"
    and "deq_ok (k_deq s) u ring t xss"
    and "0 < length ring" and "t < length ring" and "q_frontBlock u = ring ! 0" and "q_tailBlock u = ring ! t"
  using assms rw_holds_lengths [of m u ring t xss] by (auto simp: conc_ok_def rw_holds_def)

text \<open>A block up to the tail block, as the consumer finds it; reading its tail again.\<close>

definition taking :: "'a deq_pc \<Rightarrow> bool" where
  "taking d \<longleftrightarrow> (\<exists>x. d = DAdvance x)"

lemma deq_block_idle: "\<not> taking d \<Longrightarrow> deq_block d F a b = b"
  by (cases d) (auto simp: taking_def)

lemma deq_finds:
  assumes ok: "conc_ok m n s u ring t xss" and d: "\<not> taking (k_deq s)" and i: "i \<le> t"
  obtains b B where "q_blocks u (ring ! i) = Some b" and "block_holds b (xss ! i)" and "b_next b = ring ! (Suc i mod length ring)"
    and "blk (k_q s) (ring ! i) = Inr B" and "B = enq_block (k_enq s) (q_tailBlock u) (ring ! i) b"
    and "b_tail B = b_tail b" and "b_front B = b_front b" and "b_localTail B = b_localTail b" and "i < t \<longrightarrow> b_next B = b_next b"
proof -
  note D = conc_okD [OF ok]
  have l: "i < length ring" using i D(8) by simp
  obtain b where b: "q_blocks u (ring ! i) = Some b" "block_holds b (xss ! i)" "b_next b = ring ! (Suc i mod length ring)"
    using rw_holds_at [OF D(1) l] by metis
  show ?thesis
    by (rule that [OF b blk_memory [OF b(1), of "k_enq s" "k_deq s", folded D(4)]])
      (use d enq_block_behind [OF D(1,5) i] in \<open>simp_all add: deq_block_idle\<close>)
qed

lemma deq_refresh:
  assumes ok: "conc_ok m n s u ring t xss" and d: "\<not> taking (k_deq s)" "\<not> taking d'" and i: "i \<le> t"
    and b: "q_blocks u (ring ! i) = Some b" and B: "B = enq_block (k_enq s) (q_tailBlock u) (ring ! i) b"
    and d': "deq_ok d' (set_blk (ring ! i) (b\<lparr>b_localTail := b_tail b\<rparr>) u) ring t xss"
  shows "conc_inv m n (s\<lparr>k_q := set_blk (ring ! i) (B\<lparr>b_localTail := b_tail b\<rparr>) (k_q s), k_deq := d'\<rparr>)"
proof -
  note D = conc_okD [OF ok]
  have l: "i < length ring" using i D(8) by simp
  let ?b = "b\<lparr>b_localTail := b_tail b\<rparr>"
  have "block_holds b (xss ! i)" using rw_holds_at [OF D(1) l] b by (metis option.inject)
  then have "rw_holds m (set_blk (ring ! i) ?b u) ring t xss"
    by (intro rw_holds_set [OF D(1) l b]) (use block_refresh_tail in auto)
  moreover have "enq_ok (k_enq s) (m * max 1 (n - 1)) (set_blk (ring ! i) ?b u) ring t xss"
    by (rule enq_ok_kept [OF D(5) b]) auto
  moreover have "memory_of (k_enq s) d' (set_blk (ring ! i) ?b u) = set_blk (ring ! i) (B\<lparr>b_localTail := b_tail b\<rparr>) (k_q s)"
    unfolding D(4) by (rule memory_set [OF b]) (use d in \<open>auto simp: enq_extra_set [OF b] deq_block_idle B\<close>)
  ultimately have "conc_ok m n (s\<lparr>k_q := set_blk (ring ! i) (B\<lparr>b_localTail := b_tail b\<rparr>) (k_q s), k_deq := d'\<rparr>)
      (set_blk (ring ! i) ?b u) ring t xss"
    using D(2,3) d' by (simp add: conc_ok_def)
  then show ?thesis unfolding conc_inv_def by blast
qed

text \<open>A step that changes nothing but the place of the consumer.\<close>

lemma deq_moves:
  assumes ok: "conc_ok m n s u ring t xss" and d: "\<not> taking (k_deq s)" "\<not> taking d'" and d': "deq_ok d' u ring t xss"
  shows "conc_inv m n (s\<lparr>k_deq := d'\<rparr>)"
proof -
  note D = conc_okD [OF ok]
  have "memory_of (k_enq s) d' u = k_q s" unfolding D(4) by (rule memory_same) (use d in \<open>simp_all add: deq_block_idle\<close>)
  with D d' have "conc_ok m n (s\<lparr>k_deq := d'\<rparr>) u ring t xss" by (simp add: conc_ok_def)
  then show ?thesis unfolding conc_inv_def by blast
qed

lemma deq_checks:
  assumes ok: "conc_ok m n s u ring t xss" and d: "k_deq s = DCheck"
  shows "\<exists>s'. deq_step s = Inr s' \<and> conc_inv m n s'"
proof -
  note D = conc_okD [OF ok]
  have nt: "\<not> taking (k_deq s)" by (simp add: d taking_def)
  obtain b B where b: "q_blocks u (ring ! 0) = Some b" "block_holds b (xss ! 0)"
    and B: "blk (k_q s) (ring ! 0) = Inr B" "B = enq_block (k_enq s) (q_tailBlock u) (ring ! 0) b"
      "b_tail B = b_tail b" "b_front B = b_front b" "b_localTail B = b_localTail b"
    using deq_finds [OF ok nt, of 0] by blast
  let ?d = "if b_front b \<noteq> b_tail b then DRead else DTail (length (k_sent s) = length (k_got s))"
  let ?s = "s\<lparr>k_q := set_blk (ring ! 0) (B\<lparr>b_localTail := b_tail b\<rparr>) (k_q s), k_deq := ?d\<rparr>"
  show ?thesis
  proof (cases "b_front b = b_localTail b")
    case False
    then have "conc_inv m n (s\<lparr>k_deq := DRead\<rparr>)"
      by (intro deq_moves [OF ok nt]) (use b D(9) in \<open>simp_all add: taking_def sees_object_def\<close>)
    with False show ?thesis using B D(4,9) by (simp add: deq_step_def d)
  next
    case True
    have "conc_inv m n ?s"
      by (rule deq_refresh [OF ok nt _ _ b(1) B(2)])
        (use rw_front_empty [OF D(1)] block_empty [OF b(2)] D(3,9) in \<open>auto simp: taking_def sees_object_def\<close>)
    moreover have "deq_step s = Inr ?s" using B True D(4,9) by (simp add: deq_step_def d Let_def)
    ultimately show ?thesis by blast
  qed
qed

lemma deq_rechecks:
  assumes ok: "conc_ok m n s u ring t xss" and d: "k_deq s = DAgain"
  shows "\<exists>s'. deq_step s = Inr s' \<and> conc_inv m n s'"
proof -
  note D = conc_okD [OF ok]
  have nt: "\<not> taking (k_deq s)" by (simp add: d taking_def)
  obtain b B where b: "q_blocks u (ring ! 0) = Some b" "block_holds b (xss ! 0)"
    and B: "blk (k_q s) (ring ! 0) = Inr B" "B = enq_block (k_enq s) (q_tailBlock u) (ring ! 0) b"
      "b_tail B = b_tail b" "b_front B = b_front b"
    using deq_finds [OF ok nt, of 0] by blast
  let ?d = "if b_front b \<noteq> b_tail b then DRead else DNext"
  let ?s = "s\<lparr>k_q := set_blk (ring ! 0) (B\<lparr>b_localTail := b_tail b\<rparr>) (k_q s), k_deq := ?d\<rparr>"
  have "conc_inv m n ?s"
    by (rule deq_refresh [OF ok nt _ _ b(1) B(2)])
      (use block_empty [OF b(2)] D(6,9) d in \<open>auto simp: taking_def sees_object_def\<close>)
  moreover have "deq_step s = Inr ?s" using B D(4,9) by (simp add: deq_step_def d Let_def)
  ultimately show ?thesis by blast
qed

text \<open>\<open>try_dequeue\<close> answers that the queue is empty only if it was when it read the tail.\<close>

lemma deq_reads_tail:
  assumes ok: "conc_ok m n s u ring t xss" and d: "k_deq s = DTail e"
  shows "\<exists>s'. deq_step s = Inr s' \<and> conc_inv m n s' \<and> (k_deq s' = DIdle \<longrightarrow> e)"
proof -
  note D = conc_okD [OF ok]
  let ?d = "if ring ! 0 \<noteq> ring ! t then DAgain else DIdle"
  have ne: "ring ! 0 \<noteq> ring ! t \<longleftrightarrow> 0 < t" using ring_eq [OF D(1,7,8)] by auto
  have "conc_inv m n (s\<lparr>k_deq := ?d\<rparr>)"
    by (rule deq_moves [OF ok]) (use ne d in \<open>auto simp: taking_def\<close>)
  moreover have "deq_step s = Inr (s\<lparr>k_deq := ?d\<rparr>)" using D(4,9,10) by (simp add: deq_step_def d)
  moreover have "\<not> 0 < t \<Longrightarrow> e" using D(6) d by simp
  ultimately show ?thesis using ne by (intro exI [of _ "s\<lparr>k_deq := ?d\<rparr>"]) auto
qed

lemma deq_follows:
  assumes ok: "conc_ok m n s u ring t xss" and d: "k_deq s = DNext"
  shows "\<exists>s'. deq_step s = Inr s' \<and> conc_inv m n s'"
proof -
  note D = conc_okD [OF ok]
  have nt: "\<not> taking (k_deq s)" by (simp add: d taking_def)
  have t: "0 < t" "xss ! 0 = []" using D(6) d by simp_all
  obtain b B where "q_blocks u (ring ! 0) = Some b" "b_next b = ring ! (Suc 0 mod length ring)"
      "blk (k_q s) (ring ! 0) = Inr B" "0 < t \<longrightarrow> b_next B = b_next b"
    using deq_finds [OF ok nt, of 0] by blast
  then have B: "blk (k_q s) (ring ! 0) = Inr B" "b_next B = ring ! 1" using t D(8) by simp_all
  have "conc_inv m n (s\<lparr>k_deq := DLook (ring ! 1)\<rparr>)"
    by (rule deq_moves [OF ok nt]) (use t in \<open>simp_all add: taking_def\<close>)
  moreover have "deq_step s = Inr (s\<lparr>k_deq := DLook (ring ! 1)\<rparr>)"
    using B(1) D(9) unfolding D(4) by (simp add: deq_step_def d D(4) B(2))
  ultimately show ?thesis by blast
qed

lemma deq_looks:
  assumes ok: "conc_ok m n s u ring t xss" and d: "k_deq s = DLook a"
  shows "\<exists>s'. deq_step s = Inr s' \<and> conc_inv m n s'"
proof -
  note D = conc_okD [OF ok]
  have nt: "\<not> taking (k_deq s)" by (simp add: d taking_def)
  have t: "0 < t" "xss ! 0 = []" "a = ring ! 1" using D(6) d by simp_all
  then have i: "1 \<le> t" by simp
  obtain b B where b: "q_blocks u (ring ! 1) = Some b" "block_holds b (xss ! 1)"
    and B: "blk (k_q s) (ring ! 1) = Inr B" "B = enq_block (k_enq s) (q_tailBlock u) (ring ! 1) b"
      "b_tail B = b_tail b" "b_front B = b_front b"
    using deq_finds [OF ok nt i] by blast
  have ne: "b_front b \<noteq> b_tail b" using block_empty [OF b(2)] rw_next_nonempty [OF D(1) t(1)] by simp
  let ?s = "s\<lparr>k_q := set_blk (ring ! 1) (B\<lparr>b_localTail := b_tail b\<rparr>) (k_q s), k_deq := DMove (ring ! 1)\<rparr>"
  have "conc_inv m n ?s"
    by (rule deq_refresh [OF ok nt _ i b(1) B(2)]) (use t ne in \<open>auto simp: taking_def sees_object_def\<close>)
  moreover have "deq_step s = Inr ?s" using B ne t by (simp add: deq_step_def d Let_def)
  ultimately show ?thesis by blast
qed

lemma enq_extra_front: "enq_extra e (u\<lparr>q_frontBlock := f\<rparr>) = enq_extra e u"
  by (rule ext, induction e u _ rule: enq_extra.induct) auto

lemma deq_enters:
  assumes ok: "conc_ok m n s u ring t xss" and d: "k_deq s = DMove a"
  shows "\<exists>s'. deq_step s = Inr s' \<and> conc_inv m n s'"
proof -
  note D = conc_okD [OF ok]
  have t: "0 < t" "xss ! 0 = []" "a = ring ! 1" "sees_object u a" using D(6) d by auto
  let ?u = "u\<lparr>q_frontBlock := ring ! 1\<rparr>" and ?s = "s\<lparr>k_q := (k_q s)\<lparr>q_frontBlock := ring ! 1\<rparr>, k_deq := DRead\<rparr>"
  have "memory_of (k_enq s) DRead ?u = (k_q s)\<lparr>q_frontBlock := ring ! 1\<rparr>"
    unfolding D(4) d by (rule rwq_eqI) (auto simp: memory_of_def enq_extra_front fun_eq_iff split: option.split)
  then have "conc_ok m n ?s ?u (rotate1 ring) (t - 1) (rotate1 xss)"
    using D(2,3) t rw_holds_advance [OF D(1) t(2,1)] enq_ok_advance [OF D(5,1) t(1), of "ring ! 1"]
    by (simp add: conc_ok_def sees_object_def)
  moreover have "deq_step s = Inr ?s" using t by (simp add: deq_step_def d Let_def)
  ultimately show ?thesis unfolding conc_inv_def by blast
qed

text \<open>The block a consumer that saw an object stands in front of.\<close>

lemma deq_front_object:
  assumes ok: "conc_ok m n s u ring t xss" and sees: "sees_object u (ring ! 0)"
  obtains b x ys yss where "q_blocks u (ring ! 0) = Some b" and "xss = (x # ys) # yss" and "block_holds b (x # ys)"
    and "b_front b \<noteq> b_localTail b" and "b_front b \<noteq> b_tail b" and "b_data b ! b_front b = Some x" and "b_front b < length (b_data b)"
proof -
  note D = conc_okD [OF ok]
  obtain b where b: "q_blocks u (ring ! 0) = Some b" "b_front b \<noteq> b_localTail b" using sees by (auto simp: sees_object_def)
  then have holds: "block_holds b (xss ! 0)" using rw_holds_at [OF D(1,7)] by (metis option.inject)
  obtain ws yss where xss: "xss = ws # yss" using rw_holds_lengths [OF D(1)] by (cases xss) auto
  with block_seen [OF holds b(2)] obtain x ys where ws: "ws = x # ys" by (cases ws) auto
  with holds xss have "block_holds b (x # ys)" by simp
  then show ?thesis
    using that [of b x ys yss] b xss ws block_empty block_front block_holds_index by fastforce
qed

lemma deq_takes:
  assumes ok: "conc_ok m n s u ring t xss" and d: "k_deq s = DRead"
  shows "\<exists>s'. deq_step s = Inr s' \<and> conc_inv m n s'"
proof -
  note D = conc_okD [OF ok]
  have nt: "\<not> taking (k_deq s)" by (simp add: d taking_def)
  have sees: "sees_object u (ring ! 0)" using D(6,9) d by simp
  obtain b x ys yss where b: "q_blocks u (ring ! 0) = Some b" "xss = (x # ys) # yss" "b_front b \<noteq> b_tail b"
      "b_data b ! b_front b = Some x" "b_front b < length (b_data b)"
    by (rule deq_front_object [OF ok sees]) (rule that; assumption)
  let ?B = "enq_block (k_enq s) (q_tailBlock u) (ring ! 0) b"
  let ?C = "?B\<lparr>b_data := (b_data ?B)[b_front b := None]\<rparr>"
  let ?s = "s\<lparr>k_q := set_blk (ring ! 0) ?C (k_q s), k_deq := DAdvance x\<rparr>"
  have B: "blk (k_q s) (ring ! 0) = Inr ?B" using blk_memory [OF b(1)] by (simp add: D(4) d)
  have "memory_of (k_enq s) (DAdvance x) (set_blk (ring ! 0) b u) = set_blk (ring ! 0) ?C (k_q s)"
    unfolding D(4) d by (rule memory_set [OF b(1)]) (auto simp: D(9) enq_extra_set [OF b(1)])
  then have "conc_ok m n ?s u ring t xss"
    using D sees b(2) by (simp add: conc_ok_def set_blk_same [OF b(1)])
  moreover have "deq_step s = Inr ?s"
    using B b(4,5) D(9) enq_block_front [OF b(3)] by (simp add: deq_step_def d D(4) Let_def)
  ultimately show ?thesis unfolding conc_inv_def by blast
qed

lemma deq_commits:
  assumes ok: "conc_ok m n s u ring t xss" and d: "k_deq s = DAdvance x"
  shows "\<exists>s'. deq_step s = Inr s' \<and> conc_inv m n s'"
proof -
  note D = conc_okD [OF ok]
  have sees: "sees_object u (ring ! 0)" and x: "\<exists>zs. xss ! 0 = x # zs" using D(6,9) d by simp_all
  obtain b x' ys yss where b: "q_blocks u (ring ! 0) = Some b" "xss = (x' # ys) # yss" "b_front b \<noteq> b_tail b"
      "b_data b ! b_front b = Some x'" "b_front b < length (b_data b)" "b_front b \<noteq> b_localTail b"
    by (rule deq_front_object [OF ok sees]) (rule that; assumption)
  with x have [simp]: "x' = x" by simp
  let ?b = "b\<lparr>b_data := (b_data b)[b_front b := None], b_front := (b_front b + 1) AND b_sizeMask b\<rparr>"
  let ?u = "set_blk (ring ! 0) ?b u"
  let ?B = "enq_block (k_enq s) (q_tailBlock u) (ring ! 0) b"
  let ?C = "?B\<lparr>b_data := (b_data ?B)[b_front b := None], b_front := (b_front b + 1) AND b_sizeMask b\<rparr>"
  let ?s = "s\<lparr>k_q := set_blk (ring ! 0) ?C (k_q s), k_deq := DIdle, k_got := k_got s @ [x]\<rparr>"
  have B: "blk (k_q s) (ring ! 0) = Inr (?B\<lparr>b_data := (b_data ?B)[b_front b := None]\<rparr>)"
    using blk_memory [OF b(1)] by (simp add: D(4,9) d)
  have "take_front (ring ! 0) u = Inr (x, ?u)" using b by (simp add: take_front_def blk_def)
  then have "rw_holds m ?u ring t (ys # yss)" using rw_holds_take [OF D(1) [unfolded b(2)] b(1,6)] by auto
  moreover have "memory_of (k_enq s) DIdle ?u = set_blk (ring ! 0) ?C (k_q s)"
    unfolding D(4) d by (rule memory_set [OF b(1)]) (use enq_block_clear [OF b(3)] in \<open>auto simp: D(9) enq_extra_set [OF b(1)]\<close>)
  moreover have "enq_ok (k_enq s) (m * max 1 (n - 1)) ?u ring t (ys # yss)"
    by (rule enq_ok_kept [OF D(5) b(1)]) (simp_all add: b(2) nth_Cons')
  ultimately have "conc_ok m n ?s ?u ring t (ys # yss)" using D(2,3) by (simp add: conc_ok_def b(2))
  moreover have "deq_step s = Inr ?s" using B D(9) by (simp add: deq_step_def d D(4) Let_def)
  ultimately show ?thesis unfolding conc_inv_def by blast
qed

lemma deq_step_ok:
  assumes "conc_inv m n s"
  shows "\<exists>s'. deq_step s = Inr s' \<and> conc_inv m n s' \<and> (\<forall>e. k_deq s = DTail e \<and> k_deq s' = DIdle \<longrightarrow> e)"
proof -
  obtain u ring t xss where ok: "conc_ok m n s u ring t xss" using assms unfolding conc_inv_def by blast
  show ?thesis
  proof (cases "k_deq s")
    case DIdle
    with assms show ?thesis by (simp add: deq_step_def)
  next
    case (DTail e)
    with deq_reads_tail [OF ok] show ?thesis by auto
  qed (use deq_checks [OF ok] deq_rechecks [OF ok] deq_follows [OF ok] deq_looks [OF ok] deq_enters [OF ok]
      deq_takes [OF ok] deq_commits [OF ok] in auto)
qed

section \<open>The producer\<close>

text \<open>Before the producer wrote an object, memory has nothing of it.\<close>

fun quiet :: "'a enq_pc \<Rightarrow> bool" where
  "quiet (ELink a x) = False"
| "quiet (ETail a x nb) = False"
| "quiet (EPublish a x made) = False"
| "quiet e = True"

lemma enq_quiet: "quiet e \<Longrightarrow> enq_block e T a b = b" "quiet e \<Longrightarrow> enq_extra e u = Map.empty"
  by (cases e; simp) (cases e; simp add: fun_eq_iff)

lemma deq_block_elsewhere: "a \<noteq> F \<Longrightarrow> deq_block d F a b = b"
  by (cases d) auto

lemma enq_finds:
  assumes ok: "conc_ok m n s u ring t xss" and e: "quiet (k_enq s)" and i: "i < length ring"
  obtains b where "q_blocks u (ring ! i) = Some b" and "block_holds b (xss ! i)" and "b_next b = ring ! (Suc i mod length ring)"
    and "m \<le> b_sizeMask b" and "blk (k_q s) (ring ! i) = Inr (deq_block (k_deq s) (ring ! 0) (ring ! i) b)"
proof -
  note D = conc_okD [OF ok]
  obtain b where b: "q_blocks u (ring ! i) = Some b" "b_next b = ring ! (Suc i mod length ring)" "block_holds b (xss ! i)"
      "m \<le> b_sizeMask b"
    using rw_holds_at [OF D(1) i] by metis
  show ?thesis
    by (rule that [OF b(1,3,2,4)]) (use blk_memory [OF b(1), of "k_enq s" "k_deq s"] in \<open>simp add: D(4,9) enq_quiet [OF e]\<close>)
qed

lemma enq_moves:
  assumes ok: "conc_ok m n s u ring t xss" and e: "quiet (k_enq s)" "quiet e'" and e': "enq_ok e' (m * max 1 (n - 1)) u ring t xss"
  shows "conc_inv m n (s\<lparr>k_enq := e'\<rparr>)"
proof -
  note D = conc_okD [OF ok]
  have "memory_of e' (k_deq s) u = k_q s" unfolding D(4) by (rule memory_same) (simp_all add: enq_quiet e)
  with D e' have "conc_ok m n (s\<lparr>k_enq := e'\<rparr>) u ring t xss" by (simp add: conc_ok_def)
  then show ?thesis unfolding conc_inv_def by blast
qed

lemma enq_refresh:
  assumes ok: "conc_ok m n s u ring t xss" and e: "quiet (k_enq s)" "quiet e'" and i: "i < length ring"
    and b: "q_blocks u (ring ! i) = Some b"
    and e': "enq_ok e' (m * max 1 (n - 1)) (set_blk (ring ! i) (b\<lparr>b_localFront := b_front b\<rparr>) u) ring t xss"
  shows "conc_inv m n (s\<lparr>k_q := set_blk (ring ! i) ((deq_block (k_deq s) (ring ! 0) (ring ! i) b)\<lparr>b_localFront := b_front b\<rparr>) (k_q s),
    k_enq := e'\<rparr>)"
proof -
  note D = conc_okD [OF ok]
  let ?u = "set_blk (ring ! i) (b\<lparr>b_localFront := b_front b\<rparr>) u"
    and ?q = "set_blk (ring ! i) ((deq_block (k_deq s) (ring ! 0) (ring ! i) b)\<lparr>b_localFront := b_front b\<rparr>) (k_q s)"
  have "block_holds b (xss ! i)" using rw_holds_at [OF D(1) i] b by (metis option.inject)
  then have "rw_holds m ?u ring t xss" by (intro rw_holds_set [OF D(1) i b]) (use block_refresh_front in auto)
  moreover have "memory_of e' (k_deq s) ?u = ?q"
    unfolding D(4) by (rule memory_set [OF b]) (simp_all add: enq_quiet e D(9))
  moreover have "deq_ok (k_deq s) ?u ring t xss"
    by (rule deq_ok_kept [OF D(6)]) (use sees_object_set [OF b] in auto)
  ultimately have "conc_ok m n (s\<lparr>k_q := ?q, k_enq := e'\<rparr>) ?u ring t xss" using D(2,3) e' by (simp add: conc_ok_def)
  then show ?thesis unfolding conc_inv_def by blast
qed

lemma enq_checks:
  assumes ok: "conc_ok m n s u ring t xss" and e: "k_enq s = ECheck mode x"
  shows "\<exists>s'. enq_step M malloc s = Inr s' \<and> conc_inv m n s'"
proof -
  note D = conc_okD [OF ok]
  have q: "quiet (k_enq s)" by (simp add: e)
  obtain b where b: "q_blocks u (ring ! t) = Some b" "block_holds b (xss ! t)" "m \<le> b_sizeMask b"
    and B: "blk (k_q s) (ring ! t) = Inr (deq_block (k_deq s) (ring ! 0) (ring ! t) b)"
    by (rule enq_finds [OF ok q D(8)]) (rule that; assumption)
  let ?k = "length (k_sent s) - length (k_got s)"
  let ?b = "b\<lparr>b_localFront := b_front b\<rparr>" and ?nt = "(b_tail b + 1) AND b_sizeMask b"
  let ?e = "if ?nt \<noteq> b_front b then EWrite (ring ! t) x False else EFront mode x ?k"
  let ?s = "s\<lparr>k_q := set_blk (ring ! t) ((deq_block (k_deq s) (ring ! 0) (ring ! t) b)\<lparr>b_localFront := b_front b\<rparr>) (k_q s), k_enq := ?e\<rparr>"
  show ?thesis
  proof (cases "?nt = b_localFront b")
    case False
    then have "conc_inv m n (s\<lparr>k_enq := EWrite (ring ! t) x False\<rparr>)"
      by (intro enq_moves [OF ok q]) (use b in \<open>simp_all add: has_room_def\<close>)
    with False show ?thesis using B D(4,10) by (simp add: enq_step_def e Let_def)
  next
    case True
    have full: "length (xss ! t) = b_sizeMask b" if "?nt = b_front b" using block_full [OF b(2) that] .
    have cap: "Suc t < length ring \<or> m * max 1 (n - 1) \<le> ?k" if "?nt = b_front b"
    proof (cases "Suc t < length ring")
      case False
      then have t: "Suc t = length ring" using D(8) by simp
      have "m * max 1 (n - 1) \<le> m * max 1 (length ring - 1)" using D(2) by (intro mult_le_mono2) linarith
      also have "\<dots> \<le> ?k" using rw_full_length [OF D(1) t] full [OF that] b(3) D(3) by simp
      finally show ?thesis by blast
    qed simp
    have "conc_inv m n ?s"
      by (rule enq_refresh [OF ok q _ D(8) b(1)])
        (use full cap b D(10) in \<open>auto simp: has_room_def tail_full_def\<close>)
    moreover have "enq_step M malloc s = Inr ?s" using B True D(4,10) by (simp add: enq_step_def e Let_def)
    ultimately show ?thesis by blast
  qed
qed

text \<open>\<open>inner_enqueue\<close> is refused without an allocation only if every block was full when it read the front.\<close>

lemma enq_reads_front:
  assumes ok: "conc_ok m n s u ring t xss" and e: "k_enq s = EFront mode x k"
  shows "\<exists>s'. enq_step M malloc s = Inr s' \<and> conc_inv m n s' \<and>
    (k_enq s' = EIdle \<longrightarrow> mode = CannotAlloc \<and> m * max 1 (n - 1) \<le> k)"
proof -
  note D = conc_okD [OF ok]
  have q: "quiet (k_enq s)" by (simp add: e)
  obtain b where b: "b_next b = ring ! (Suc t mod length ring)" "q_blocks u (ring ! t) = Some b"
    and B: "blk (k_q s) (ring ! t) = Inr (deq_block (k_deq s) (ring ! 0) (ring ! t) b)"
    by (rule enq_finds [OF ok q D(8)]) (rule that; assumption)
  have nx: "b_next b \<noteq> ring ! 0 \<longleftrightarrow> Suc t < length ring"
  proof (cases "Suc t < length ring")
    case True
    then show ?thesis using b(1) block_at_inj [OF D(1) True D(7)] by simp
  next
    case False
    then have "Suc t = length ring" using D(8) by simp
    then show ?thesis using b(1) by simp
  qed
  let ?e = "if b_next b \<noteq> ring ! 0 then ENext x else if mode = CanAlloc then EAlloc x else EIdle"
  have "conc_inv m n (s\<lparr>k_enq := ?e\<rparr>)"
    by (rule enq_moves [OF ok q]) (use D(5) e nx in auto)
  moreover have "enq_step M malloc s = Inr (s\<lparr>k_enq := ?e\<rparr>)" using B D(4,9,10) by (simp add: enq_step_def e Let_def)
  moreover have "k_enq (s\<lparr>k_enq := ?e\<rparr>) = EIdle \<longrightarrow> mode = CannotAlloc \<and> m * max 1 (n - 1) \<le> k"
    using D(5) e nx by (cases mode) auto
  ultimately show ?thesis by blast
qed

lemma enq_enters:
  assumes ok: "conc_ok m n s u ring t xss" and e: "k_enq s = ENext x"
  shows "\<exists>s'. enq_step M malloc s = Inr s' \<and> conc_inv m n s'"
proof -
  note D = conc_okD [OF ok]
  have q: "quiet (k_enq s)" by (simp add: e)
  have t: "Suc t < length ring" and full: "tail_full u t xss" using D(5) e by simp_all
  obtain b where b: "b_next b = ring ! Suc t" "q_blocks u (ring ! t) = Some b"
    and B: "blk (k_q s) (ring ! t) = Inr (deq_block (k_deq s) (ring ! 0) (ring ! t) b)"
    using enq_finds [OF ok q D(8)] t by (metis mod_less)
  obtain c where c: "q_blocks u (ring ! Suc t) = Some c" "block_holds c (xss ! Suc t)"
    and C: "blk (k_q s) (ring ! Suc t) = Inr (deq_block (k_deq s) (ring ! 0) (ring ! Suc t) c)"
    by (rule enq_finds [OF ok q t]) (rule that; assumption)
  have empty: "xss ! Suc t = []" using D(1) t by (simp add: rw_holds_def)
  then have ft: "b_front c = b_tail c" using block_empty [OF c(2)] by simp
  have "(b_tail c + 1) AND b_sizeMask c \<noteq> b_front c"
    using block_full [OF c(2)] c(2) empty by (auto simp: block_holds_def)
  moreover have "ring ! Suc t \<noteq> ring ! t" using block_at_inj [OF D(1) t D(8)] by simp
  ultimately have "conc_inv m n (s\<lparr>k_q := set_blk (ring ! Suc t)
      ((deq_block (k_deq s) (ring ! 0) (ring ! Suc t) c)\<lparr>b_localFront := b_front c\<rparr>) (k_q s), k_enq := EWrite (ring ! Suc t) x True\<rparr>)"
    by (intro enq_refresh [OF ok q _ t c(1)]) (use full t D(10) in \<open>simp_all add: has_room_def tail_full_def\<close>)
  then show ?thesis using B C b(1) ft D(4,10) by (simp add: enq_step_def e Let_def)
qed

lemma memory_new:
  "a \<notin> dom (q_blocks u) \<Longrightarrow> q_blocks u (q_tailBlock u) = Some b \<Longrightarrow> quiet e \<Longrightarrow>
    memory_of (ELink a x) d (u\<lparr>q_largest := N\<rparr>) = set_blk a (new_block N x (b_next b)) (memory_of e d u)\<lparr>q_largest := N\<rparr>"
  by (rule rwq_eqI) (auto simp: memory_of_def enq_quiet fun_eq_iff split: option.split)

lemma enq_allocates:
  assumes ok: "conc_ok m n s u ring t xss" and e: "k_enq s = EAlloc x" and fresh: "fresh_block (k_q s) malloc"
  shows "\<exists>s'. enq_step M malloc s = Inr s' \<and> conc_inv m n s'"
proof -
  note D = conc_okD [OF ok]
  have q: "quiet (k_enq s)" by (simp add: e)
  obtain b where b: "q_blocks u (ring ! t) = Some b"
    and B: "blk (k_q s) (ring ! t) = Inr (deq_block (k_deq s) (ring ! 0) (ring ! t) b)"
    by (rule enq_finds [OF ok q D(8)]) (rule that; assumption)
  show ?thesis
  proof (cases malloc)
    case None
    have "conc_inv m n (s\<lparr>k_enq := EIdle\<rparr>)" by (rule enq_moves [OF ok q]) simp_all
    with None show ?thesis using B D(4,10) by (simp add: enq_step_def e Let_def)
  next
    case (Some a)
    have "q_blocks (k_q s) a = None" using fresh Some by (auto simp: fresh_block_def)
    then have a: "a \<notin> dom (q_blocks u)" unfolding D(4) by (auto simp: memory_of_def split: option.splits)
    define N where "N = (if M \<le> q_largest u then q_largest u else q_largest u * 2)"
    let ?u = "u\<lparr>q_largest := N\<rparr>"
      and ?s = "s\<lparr>k_q := set_blk a (new_block N x (b_next b)) (k_q s)\<lparr>q_largest := N\<rparr>, k_enq := ELink a x\<rparr>"
    have "pow2 N" "m < N" "2 \<le> N" using D(1) by (auto simp: N_def rw_holds_def pow2_def intro: exI [of _ "Suc _"])
    then have "rw_holds m ?u ring t xss" using D(1) by (simp add: rw_holds_def)
    moreover have "memory_of (ELink a x) (k_deq s) ?u = set_blk a (new_block N x (b_next b)) (k_q s)\<lparr>q_largest := N\<rparr>"
      using memory_new [OF a _ q] b D(10) by (simp add: D(4))
    moreover have "deq_ok (k_deq s) ?u ring t xss" by (rule deq_ok_kept [OF D(6)]) (auto simp: sees_object_def)
    ultimately have "conc_ok m n ?s ?u ring t xss" using D(2,3,5) e a by (simp add: conc_ok_def tail_full_def)
    moreover have "enq_step M malloc s = Inr ?s" using B Some D(4,10) by (simp add: enq_step_def e Let_def N_def)
    ultimately show ?thesis unfolding conc_inv_def by blast
  qed
qed

lemma enq_links:
  assumes ok: "conc_ok m n s u ring t xss" and e: "k_enq s = ELink a x"
  shows "\<exists>s'. enq_step M malloc s = Inr s' \<and> conc_inv m n s'"
proof -
  note D = conc_okD [OF ok]
  obtain b where b: "q_blocks u (ring ! t) = Some b" using rw_holds_at [OF D(1,8)] by metis
  let ?B = "deq_block (k_deq s) (ring ! 0) (ring ! t) b"
  let ?s = "s\<lparr>k_q := set_blk (ring ! t) (?B\<lparr>b_next := a\<rparr>) (k_q s), k_enq := EPublish a x True\<rparr>"
  have B: "blk (k_q s) (ring ! t) = Inr ?B" using blk_memory [OF b] by (simp add: D(4,9) e)
  have "memory_of (EPublish a x True) (k_deq s) (set_blk (ring ! t) b u) = set_blk (ring ! t) (?B\<lparr>b_next := a\<rparr>) (k_q s)"
    unfolding D(4) e by (rule memory_set [OF b]) (auto simp: D(9,10) fun_eq_iff b)
  then have "conc_ok m n ?s u ring t xss" using D e by (simp add: conc_ok_def set_blk_same [OF b])
  moreover have "enq_step M malloc s = Inr ?s" using B D(4,10) by (simp add: enq_step_def e Let_def)
  ultimately show ?thesis unfolding conc_inv_def by blast
qed

text \<open>The block an object goes into, that has room for it at \<open>tail\<close>.\<close>

lemma enq_place:
  assumes ok: "conc_ok m n s u ring t xss" and room: "has_room u (ring ! i)" and i: "i < length ring"
  obtains b where "q_blocks u (ring ! i) = Some b" and "(b_tail b + 1) AND b_sizeMask b \<noteq> b_localFront b"
    and "b_tail b < length (b_data b)"
    and "\<And>v. deq_block (k_deq s) (ring ! 0) (ring ! i) (b\<lparr>b_data := (b_data b)[b_tail b := v]\<rparr>) =
      (deq_block (k_deq s) (ring ! 0) (ring ! i) b)\<lparr>b_data := (b_data (deq_block (k_deq s) (ring ! 0) (ring ! i) b))[b_tail b := v]\<rparr>"
proof -
  note D = conc_okD [OF ok]
  obtain b where b: "q_blocks u (ring ! i) = Some b" "(b_tail b + 1) AND b_sizeMask b \<noteq> b_localFront b"
    using room by (auto simp: has_room_def)
  then have holds: "block_holds b (xss ! i)" using rw_holds_at [OF D(1) i] by (metis option.inject)
  have fill: "deq_block (k_deq s) (ring ! 0) (ring ! i) (b\<lparr>b_data := (b_data b)[b_tail b := v]\<rparr>) =
      (deq_block (k_deq s) (ring ! 0) (ring ! i) b)\<lparr>b_data := (b_data (deq_block (k_deq s) (ring ! 0) (ring ! i) b))[b_tail b := v]\<rparr>"
    for v
  proof (cases "taking (k_deq s) \<and> i = 0")
    case True
    then have "xss ! i \<noteq> []" using D(6) by (auto simp: taking_def)
    then show ?thesis using block_empty [OF holds] by (intro deq_block_fill) simp
  next
    case False
    then show ?thesis
      using block_at_inj [OF D(1) i D(7)] by (cases "i = 0") (simp_all add: deq_block_idle deq_block_elsewhere)
  qed
  from that [OF b _ fill] block_holds_index [OF holds] show ?thesis by blast
qed

lemma enq_writes:
  assumes ok: "conc_ok m n s u ring t xss" and e: "k_enq s = EWrite a x nb"
  shows "\<exists>s'. enq_step M malloc s = Inr s' \<and> conc_inv m n s'"
proof -
  note D = conc_okD [OF ok]
  define i where "i = (if nb then Suc t else t)"
  have i: "i < length ring" "a = ring ! i" "has_room u (ring ! i)" using D(5,8) e by (auto simp: i_def split: if_splits)
  obtain b where b: "q_blocks u (ring ! i) = Some b" "b_tail b < length (b_data b)"
    and fill: "\<And>v. deq_block (k_deq s) (ring ! 0) (ring ! i) (b\<lparr>b_data := (b_data b)[b_tail b := v]\<rparr>) =
      (deq_block (k_deq s) (ring ! 0) (ring ! i) b)\<lparr>b_data := (b_data (deq_block (k_deq s) (ring ! 0) (ring ! i) b))[b_tail b := v]\<rparr>"
    by (rule enq_place [OF ok i(3,1)]) (rule that; assumption)
  let ?B = "deq_block (k_deq s) (ring ! 0) (ring ! i) b"
  let ?C = "?B\<lparr>b_data := (b_data ?B)[b_tail b := Some x]\<rparr>"
  let ?s = "s\<lparr>k_q := set_blk (ring ! i) ?C (k_q s), k_enq := ETail (ring ! i) x nb\<rparr>"
  have B: "blk (k_q s) (ring ! i) = Inr ?B" using blk_memory [OF b(1)] by (simp add: D(4,9) e)
  have "memory_of (ETail (ring ! i) x nb) (k_deq s) (set_blk (ring ! i) b u) = set_blk (ring ! i) ?C (k_q s)"
    unfolding D(4) e by (rule memory_set [OF b(1)]) (use fill in \<open>auto simp: D(9) fun_eq_iff\<close>)
  then have "conc_ok m n ?s u ring t xss" using D e i by (simp add: conc_ok_def set_blk_same [OF b(1)])
  moreover have "enq_step M malloc s = Inr ?s" using B b(2) i by (simp add: enq_step_def e Let_def)
  ultimately show ?thesis unfolding conc_inv_def by blast
qed

text \<open>The moment an object is in the queue: when the tail of the tail block passes it, or when its block becomes the tail block.\<close>

lemma enq_commits:
  assumes ok: "conc_ok m n s u ring t xss" and i: "i < length ring" "i = t \<or> i = Suc t \<and> tail_full u t xss"
    and b: "q_blocks u (ring ! i) = Some b" and room: "(b_tail b + 1) AND b_sizeMask b \<noteq> b_localFront b"
    and q': "q' = memory_of EIdle (k_deq s) (set_blk (ring ! i)
      (b\<lparr>b_data := (b_data b)[b_tail b := Some x], b_tail := (b_tail b + 1) AND b_sizeMask b\<rparr>) u\<lparr>q_tailBlock := ring ! i\<rparr>)"
  shows "conc_inv m n (s\<lparr>k_q := q', k_enq := EIdle, k_sent := k_sent s @ [x]\<rparr>)"
proof -
  note D = conc_okD [OF ok]
  let ?b = "b\<lparr>b_data := (b_data b)[b_tail b := Some x], b_tail := (b_tail b + 1) AND b_sizeMask b\<rparr>"
  let ?u = "set_blk (ring ! i) ?b u\<lparr>q_tailBlock := ring ! i\<rparr>" and ?xss = "xss[i := xss ! i @ [x]]"
  have holds: "block_holds b (xss ! i)" using rw_holds_at [OF D(1) i(1)] b by (metis option.inject)
  have put: "put_tail (ring ! i) x u = Inr (set_blk (ring ! i) ?b u)"
    using b block_holds_index [OF holds] by (simp add: put_tail_def blk_def)
  have full: "length (xss ! t) = b_sizeMask c" if "0 < t" "t < i" "q_blocks u (ring ! t) = Some c" for c
    using i(2) that D(10) by (auto simp: tail_full_def)
  have it: "i = t \<or> i = Suc t" using i(2) by blast
  obtain p where "put_tail (ring ! i) x u = Inr p" "rw_holds m (p\<lparr>q_tailBlock := ring ! i\<rparr>) ring i ?xss"
      and cat: "concat ?xss = concat xss @ [x]"
    using rw_put [OF D(1) i(1) it full b room, of x] by blast
  then have "rw_holds m ?u ring i ?xss" unfolding put by simp
  note this cat
  moreover have "deq_ok (k_deq s) ?u ring i ?xss"
  proof (rule deq_ok_kept [OF D(6)])
    have l: "length xss = length ring" using rw_holds_lengths [OF D(1)] by simp
    show "0 < t \<Longrightarrow> xss ! 0 = [] \<Longrightarrow> ?xss ! 0 = []" using it by (auto simp: nth_list_update)
    show "\<And>y ys. xss ! 0 = y # ys \<Longrightarrow> \<exists>zs. ?xss ! 0 = y # zs" using l i(1) by (auto simp: nth_list_update)
    show "\<And>a. sees_object u a \<Longrightarrow> sees_object ?u a" using b by (auto simp: sees_object_def)
  qed (use it in auto)
  ultimately have "conc_ok m n (s\<lparr>k_q := q', k_enq := EIdle, k_sent := k_sent s @ [x]\<rparr>) ?u ring i ?xss"
    using D(2,3) q' by (simp add: conc_ok_def)
  then show ?thesis unfolding conc_inv_def by blast
qed

lemma enq_moves_tail:
  assumes ok: "conc_ok m n s u ring t xss" and e: "k_enq s = ETail a x nb"
  shows "\<exists>s'. enq_step M malloc s = Inr s' \<and> conc_inv m n s'"
proof -
  note D = conc_okD [OF ok]
  define i where "i = (if nb then Suc t else t)"
  have i: "i < length ring" "a = ring ! i" "has_room u (ring ! i)" using D(5,8) e by (auto simp: i_def split: if_splits)
  obtain b where b: "q_blocks u (ring ! i) = Some b" "(b_tail b + 1) AND b_sizeMask b \<noteq> b_localFront b"
    by (rule enq_place [OF ok i(3,1)]) (rule that; assumption)
  let ?b = "b\<lparr>b_data := (b_data b)[b_tail b := Some x], b_tail := (b_tail b + 1) AND b_sizeMask b\<rparr>"
  let ?B = "deq_block (k_deq s) (ring ! 0) (ring ! i) (b\<lparr>b_data := (b_data b)[b_tail b := Some x]\<rparr>)"
  let ?q = "set_blk (ring ! i) (?B\<lparr>b_tail := (b_tail b + 1) AND b_sizeMask b\<rparr>) (k_q s)"
  have C: "deq_block (k_deq s) (ring ! 0) (ring ! i) ?b = ?B\<lparr>b_tail := (b_tail b + 1) AND b_sizeMask b\<rparr>"
    using deq_block_updates(3) [of "k_deq s" "ring ! 0" "ring ! i" _ "b\<lparr>b_data := (b_data b)[b_tail b := Some x]\<rparr>"] by simp
  have B: "blk (k_q s) (ring ! i) = Inr ?B" using blk_memory [OF b(1)] by (simp add: D(4,9) e i)
  show ?thesis
  proof (cases nb)
    case True
    let ?s = "s\<lparr>k_q := ?q, k_enq := EPublish (ring ! i) x False\<rparr>"
    have "memory_of (EPublish (ring ! i) x False) (k_deq s) (set_blk (ring ! i) b u) = ?q"
      unfolding D(4) e by (rule memory_set [OF b(1)]) (auto simp: C D(9) i fun_eq_iff)
    then have "conc_ok m n ?s u ring t xss"
      using D e i True by (simp add: conc_ok_def set_blk_same [OF b(1)])
    moreover have "enq_step M malloc s = Inr ?s" using B True i by (simp add: enq_step_def e Let_def)
    ultimately show ?thesis unfolding conc_inv_def by blast
  next
    case False
    let ?s = "s\<lparr>k_q := ?q, k_enq := EIdle, k_sent := k_sent s @ [x]\<rparr>"
    have "memory_of EIdle (k_deq s) (set_blk (ring ! i) ?b u) = ?q"
      unfolding D(4) e by (rule memory_set [OF b(1)]) (auto simp: C D(9) i fun_eq_iff)
    moreover have "set_blk (ring ! i) ?b u\<lparr>q_tailBlock := ring ! i\<rparr> = set_blk (ring ! i) ?b u"
      using False D(10) by (simp add: i_def set_blk_def)
    ultimately have "conc_inv m n ?s"
      using enq_commits [OF ok i(1) _ b, of ?q x] False by (simp add: i_def)
    moreover have "enq_step M malloc s = Inr ?s" using B False i by (simp add: enq_step_def e Let_def)
    ultimately show ?thesis by blast
  qed
qed

lemma enq_publishes:
  assumes ok: "conc_ok m n s u ring t xss" and e: "k_enq s = EPublish a x False"
  shows "\<exists>s'. enq_step M malloc s = Inr s' \<and> conc_inv m n s'"
proof -
  note D = conc_okD [OF ok]
  have i: "Suc t < length ring" "a = ring ! Suc t" "has_room u (ring ! Suc t)" "tail_full u t xss" using D(5) e by auto
  obtain b where b: "q_blocks u (ring ! Suc t) = Some b" "(b_tail b + 1) AND b_sizeMask b \<noteq> b_localFront b"
    by (rule enq_place [OF ok i(3,1)]) (rule that; assumption)
  let ?b = "b\<lparr>b_data := (b_data b)[b_tail b := Some x], b_tail := (b_tail b + 1) AND b_sizeMask b\<rparr>"
  have "(k_q s)\<lparr>q_tailBlock := ring ! Suc t\<rparr> =
      memory_of EIdle (k_deq s) (set_blk (ring ! Suc t) ?b u\<lparr>q_tailBlock := ring ! Suc t\<rparr>)"
    unfolding D(4) e i(2) by (rule rwq_eqI) (auto simp: memory_of_def fun_eq_iff b split: option.split)
  from enq_commits [OF ok i(1) _ b this] i(4)
  have "conc_inv m n (s\<lparr>k_q := (k_q s)\<lparr>q_tailBlock := ring ! Suc t\<rparr>, k_enq := EIdle, k_sent := k_sent s @ [x]\<rparr>)" by simp
  then show ?thesis using i by (simp add: enq_step_def e Let_def)
qed

lemma enq_publishes_new:
  assumes ok: "conc_ok m n s u ring t xss" and e: "k_enq s = EPublish a x True"
  shows "\<exists>s'. enq_step M malloc s = Inr s' \<and> conc_inv m n s'"
proof -
  note D = conc_okD [OF ok]
  have a: "a \<notin> dom (q_blocks u)" "tail_full u t xss" using D(5) e by simp_all
  obtain b where b: "q_blocks u (ring ! t) = Some b" using rw_holds_at [OF D(1,8)] by metis
  have full: "0 < t \<Longrightarrow> length (xss ! t) = b_sizeMask b" using a(2) b D(10) by (simp add: tail_full_def)
  let ?u = "set_blk (ring ! t) (b\<lparr>b_next := a\<rparr>) (set_blk a (new_block (q_largest u) x (b_next b)) u)\<lparr>q_tailBlock := a\<rparr>"
  let ?ring = "take (Suc t) ring @ a # drop (Suc t) ring" and ?xss = "take (Suc t) xss @ [x] # drop (Suc t) xss"
  let ?s = "s\<lparr>k_q := (k_q s)\<lparr>q_tailBlock := a\<rparr>, k_enq := EIdle, k_sent := k_sent s @ [x]\<rparr>"
  note new = rw_new_insert [OF D(1) b full a(1), of x]
  obtain c where "q_blocks u (ring ! 0) = Some c" using rw_holds_at [OF D(1,7)] by metis
  then have ne: "a \<noteq> ring ! t" "a \<noteq> ring ! 0" using a(1) b by auto
  have at: "?ring ! i = ring ! i" "?xss ! i = xss ! i" if "i \<le> t" for i
    using nth_insert [OF D(8), of i a] nth_insert [of t xss i "[x]"] that D(8) rw_holds_lengths [OF D(1)] by simp_all
  have "memory_of EIdle (k_deq s) ?u = (k_q s)\<lparr>q_tailBlock := a\<rparr>"
    unfolding D(4) e using ne b a(1) D(9,10)
    by (intro rwq_eqI) (auto simp: memory_of_def fun_eq_iff deq_block_elsewhere split: option.split)
  moreover have "deq_ok (k_deq s) ?u ?ring (Suc t) ?xss"
  proof (rule deq_ok_kept [OF D(6)])
    show "\<And>c. sees_object u c \<Longrightarrow> sees_object ?u c" using a(1) b by (auto simp: sees_object_def)
  qed (use at in auto)
  moreover have "n \<le> length ?ring" using D(2,8) by simp
  ultimately have "conc_ok m n ?s ?u ?ring (Suc t) ?xss" using new D(3) by (simp add: conc_ok_def)
  moreover have "enq_step M malloc s = Inr ?s" by (simp add: enq_step_def e Let_def)
  ultimately show ?thesis unfolding conc_inv_def by blast
qed

lemma enq_step_ok:
  assumes "conc_inv m n s" and "fresh_block (k_q s) malloc"
  shows "\<exists>s'. enq_step M malloc s = Inr s' \<and> conc_inv m n s' \<and>
    (\<forall>mode x k. k_enq s = EFront mode x k \<and> k_enq s' = EIdle \<longrightarrow> mode = CannotAlloc \<and> m * max 1 (n - 1) \<le> k)"
proof -
  obtain u ring t xss where ok: "conc_ok m n s u ring t xss" using assms(1) unfolding conc_inv_def by blast
  show ?thesis
  proof (cases "k_enq s")
    case EIdle
    with assms(1) show ?thesis by (simp add: enq_step_def)
  next
    case (EFront mode x k)
    with enq_reads_front [OF ok, of mode x k] show ?thesis by auto
  next
    case (EPublish a x made)
    with enq_publishes [OF ok] enq_publishes_new [OF ok] show ?thesis by (cases made) auto
  qed (use enq_checks [OF ok] enq_enters [OF ok] enq_allocates [OF ok _ assms(2)] enq_links [OF ok] enq_writes [OF ok]
      enq_moves_tail [OF ok] in fastforce)+
qed

end
