(* ===== verification/SpscRuns.thy ===== *)
theory SpscRuns
  imports SpscSteps
begin

text \<open>
  What the two threads of \<open>ReaderWriterQueue\<close> observe, however they are interleaved: schedules of their steps,
  the states they reach, and the properties of the queue between a producer and a consumer.
\<close>

section \<open>Schedules\<close>

text \<open>A schedule: the calls of the two threads and their steps, with the answer of \<open>malloc\<close> for the producer's.\<close>

datatype 'a action =
    CallEnqueue allocation_mode 'a
  | CallDequeue
  | EnqStep "nat option"
  | DeqStep

fun conc_act :: "nat \<Rightarrow> 'a action \<Rightarrow> 'a spsc \<Rightarrow> 'a spsc outcome option" where
  "conc_act M (CallEnqueue mode x) s = (if k_enq s = EIdle then Some (Inr (s\<lparr>k_enq := ECheck mode x\<rparr>)) else None)"
| "conc_act M CallDequeue s = (if k_deq s = DIdle then Some (Inr (s\<lparr>k_deq := DCheck\<rparr>)) else None)"
| "conc_act M (EnqStep malloc) s =
     (if k_enq s \<noteq> EIdle \<and> (case malloc of None \<Rightarrow> True | Some a \<Rightarrow> q_blocks (k_q s) a = None)
      then Some (enq_step M malloc s) else None)"
| "conc_act M DeqStep s = (if k_deq s \<noteq> DIdle then Some (deq_step s) else None)"

text \<open>\<open>None\<close> is a schedule that is not one: a step of an idle thread, a call of a busy one, a block allocated twice.\<close>

fun conc_run :: "nat \<Rightarrow> 'a action list \<Rightarrow> 'a spsc \<Rightarrow> 'a spsc outcome option" where
  "conc_run M [] s = Some (Inr s)"
| "conc_run M (act # acts) s =
     (case conc_act M act s of None \<Rightarrow> None | Some (Inl e) \<Rightarrow> Some (Inl e) | Some (Inr s') \<Rightarrow> conc_run M acts s')"

lemma conc_act_step: "conc_act M act s = Some (Inr s') \<Longrightarrow> conc_step M s s'"
proof (cases act)
  case (EnqStep malloc)
  moreover assume "conc_act M act s = Some (Inr s')"
  ultimately show ?thesis
    by (intro enqueue [of s malloc]) (auto simp: fresh_block_def domIff split: if_splits option.splits)
qed (auto split: if_splits intro: conc_step.intros)

lemma conc_run_steps: "conc_run M acts s = Some (Inr s') \<Longrightarrow> (conc_step M)\<^sup>*\<^sup>* s s'"
  by (induction acts arbitrary: s)
    (auto split: option.splits sum.splits dest!: conc_act_step intro: converse_rtranclp_into_rtranclp)

section \<open>The states reached\<close>

lemma conc_inv_calls:
  "conc_inv m n s \<Longrightarrow> k_enq s = EIdle \<Longrightarrow> conc_inv m n (s\<lparr>k_enq := ECheck mode x\<rparr>)"
  "conc_inv m n s \<Longrightarrow> k_deq s = DIdle \<Longrightarrow> conc_inv m n (s\<lparr>k_deq := DCheck\<rparr>)"
  unfolding conc_inv_def [of m n s] by (auto intro: enq_moves deq_moves simp: taking_def)

lemma conc_step_inv: "conc_step M s s' \<Longrightarrow> conc_inv m n s \<Longrightarrow> conc_inv m n s'"
proof (induction rule: conc_step.induct)
  case (enqueue s malloc s')
  with enq_step_ok [of m n s malloc M] show ?case by auto
next
  case (dequeue s s')
  with deq_step_ok [of m n s] show ?case by auto
qed (simp_all add: conc_inv_calls)

lemma conc_start_inv: "rw_queue m n q [] \<Longrightarrow> conc_inv m n (conc_start q)"
proof -
  assume "rw_queue m n q []"
  then obtain ring t xss where "rw_holds m q ring t xss" "n \<le> length ring" "concat xss = []"
    unfolding rw_queue_def by auto
  moreover have "memory_of EIdle DIdle q = q"
    by (rule rwq_eqI) (simp_all add: memory_of_def fun_eq_iff split: option.split)
  ultimately have "conc_ok m n (conc_start q) q ring t xss" by (simp add: conc_ok_def conc_start_def)
  then show ?thesis unfolding conc_inv_def by blast
qed

lemma conc_reached:
  assumes M: "M = 2 ^ k" "1 \<le> k" "k \<le> 62" and sz: "0 < maxSize" "maxSize \<le> 2 ^ 62" and addr: "inj addr"
    and q: "mk_rwq M (\<lambda>i. Some (addr i)) maxSize = Inr q" and run: "(conc_step M)\<^sup>*\<^sup>* (conc_start q) s"
  obtains m n where "conc_inv m n s" and "maxSize \<le> m * max 1 (n - 1)"
proof -
  obtain m n where "rw_queue m n q []" and cap: "maxSize \<le> m * max 1 (n - 1)"
    using mk_rwq_empty [OF M sz addr] q by (metis Inr_inject)
  then have "conc_inv m n (conc_start q)" by (simp add: conc_start_inv)
  with run have "conc_inv m n s" by (induction rule: rtranclp_induct) (auto dest: conc_step_inv)
  then show ?thesis using cap by (rule that)
qed

text \<open>With both threads outside the queue, it is a queue as the sequential operations see it.\<close>

lemma conc_inv_contents:
  assumes "conc_inv m n s"
  shows "\<exists>rest. k_sent s = k_got s @ rest \<and> (k_enq s = EIdle \<and> k_deq s = DIdle \<longrightarrow> rw_queue m n (k_q s) rest)"
proof -
  obtain u ring t xss where ok: "conc_ok m n s u ring t xss" using assms unfolding conc_inv_def by blast
  note D = conc_okD [OF ok]
  have "rw_queue m n u (concat xss)" using D(1,2) unfolding rw_queue_def by blast
  moreover have "k_enq s = EIdle \<and> k_deq s = DIdle \<Longrightarrow> k_q s = u"
    unfolding D(4) by (rule rwq_eqI) (simp_all add: memory_of_def fun_eq_iff split: option.split)
  ultimately show ?thesis using D(3) by auto
qed

section \<open>A call that returns without an object\<close>

lemma deq_gives_up:
  "deq_step s = Inr s' \<Longrightarrow> k_deq s \<noteq> DIdle \<Longrightarrow> k_deq s' = DIdle \<Longrightarrow> k_got s' = k_got s \<Longrightarrow> \<exists>e. k_deq s = DTail e"
  by (cases "k_deq s") (auto simp: deq_step_def Let_def bind_outcome_eq_Inr split: if_splits option.splits)

lemma enq_gives_up:
  "enq_step M malloc s = Inr s' \<Longrightarrow> k_enq s \<noteq> EIdle \<Longrightarrow> k_enq s' = EIdle \<Longrightarrow> k_sent s' = k_sent s \<Longrightarrow>
    (\<exists>mode x k. k_enq s = EFront mode x k) \<or> (\<exists>x. k_enq s = EAlloc x \<and> malloc = None)"
  by (cases "k_enq s"; cases malloc) (auto simp: enq_step_def Let_def bind_outcome_eq_Inr split: if_splits option.splits)

section \<open>Steps that a call has left\<close>

fun enq_left :: "'a enq_pc \<Rightarrow> nat" where
  "enq_left EIdle = 0"
| "enq_left (ECheck mode x) = 6"
| "enq_left (EFront mode x k) = 5"
| "enq_left (ENext x) = 4"
| "enq_left (EAlloc x) = 3"
| "enq_left (ELink a x) = 2"
| "enq_left (EWrite a x nb) = 3"
| "enq_left (ETail a x nb) = 2"
| "enq_left (EPublish a x made) = 1"

fun deq_left :: "'a deq_pc \<Rightarrow> nat" where
  "deq_left DIdle = 0"
| "deq_left DCheck = 8"
| "deq_left (DTail e) = 7"
| "deq_left DAgain = 6"
| "deq_left DNext = 5"
| "deq_left (DLook a) = 4"
| "deq_left (DMove a) = 3"
| "deq_left DRead = 2"
| "deq_left (DAdvance x) = 1"

lemma enq_step_left:
  "enq_step M malloc s = Inr s' \<Longrightarrow> k_enq s \<noteq> EIdle \<Longrightarrow> enq_left (k_enq s') < enq_left (k_enq s) \<and> k_deq s' = k_deq s"
  by (cases "k_enq s") (auto simp: enq_step_def Let_def bind_outcome_eq_Inr split: if_splits option.splits)

lemma deq_step_left:
  "deq_step s = Inr s' \<Longrightarrow> k_deq s \<noteq> DIdle \<Longrightarrow> deq_left (k_deq s') < deq_left (k_deq s) \<and> k_enq s' = k_enq s"
  by (cases "k_deq s") (auto simp: deq_step_def Let_def bind_outcome_eq_Inr split: if_splits option.splits)

fun enq_calls :: "'a action list \<Rightarrow> nat" where
  "enq_calls [] = 0"
| "enq_calls (CallEnqueue mode x # acts) = Suc (enq_calls acts)"
| "enq_calls (act # acts) = enq_calls acts"

fun deq_calls :: "'a action list \<Rightarrow> nat" where
  "deq_calls [] = 0"
| "deq_calls (CallDequeue # acts) = Suc (deq_calls acts)"
| "deq_calls (act # acts) = deq_calls acts"

fun enq_steps :: "'a action list \<Rightarrow> nat" where
  "enq_steps [] = 0"
| "enq_steps (EnqStep malloc # acts) = Suc (enq_steps acts)"
| "enq_steps (act # acts) = enq_steps acts"

fun deq_steps :: "'a action list \<Rightarrow> nat" where
  "deq_steps [] = 0"
| "deq_steps (DeqStep # acts) = Suc (deq_steps acts)"
| "deq_steps (act # acts) = deq_steps acts"

lemma conc_run_bounded:
  "conc_run M acts s = Some (Inr s') \<Longrightarrow>
    enq_steps acts + enq_left (k_enq s') \<le> 6 * enq_calls acts + enq_left (k_enq s) \<and>
    deq_steps acts + deq_left (k_deq s') \<le> 8 * deq_calls acts + deq_left (k_deq s)"
proof (induction acts arbitrary: s)
  case (Cons act acts)
  then obtain s1 where s1: "conc_act M act s = Some (Inr s1)" "conc_run M acts s1 = Some (Inr s')"
    by (auto split: option.splits sum.splits)
  show ?case
  proof (cases act)
    case (EnqStep malloc)
    with s1(1) enq_step_left [of M malloc s s1] Cons.IH [OF s1(2)] show ?thesis by (auto split: if_splits)
  next
    case DeqStep
    with s1(1) deq_step_left [of s s1] Cons.IH [OF s1(2)] show ?thesis by (auto split: if_splits)
  qed (use s1(1) Cons.IH [OF s1(2)] in \<open>auto split: if_splits\<close>)
qed simp

section \<open>The properties\<close>

text \<open>
  C7: a producer and a consumer may interleave their steps as they like: no step fails an assertion or touches
  raw storage, the objects come out in the order they went in, and what is left when both are outside is what
  the sequential operations find, \<open>try_dequeue\<close> the next of it and the destructor all of it.
\<close>

theorem interleaved_queue_is_fifo:
  fixes s :: "'a spsc"
  assumes "M = 2 ^ k" and "1 \<le> k" and "k \<le> 62" and "0 < maxSize" and "maxSize \<le> 2 ^ 62" and "inj addr"
    and "mk_rwq M (\<lambda>i. Some (addr i)) maxSize = Inr q" and "(conc_step M)\<^sup>*\<^sup>* (conc_start q) s"
    and "fresh_block (k_q s) malloc"
  shows "(\<exists>s'. enq_step M malloc s = Inr s') \<and> (\<exists>s'. deq_step s = Inr s') \<and>
    (\<exists>rest. k_sent s = k_got s @ rest \<and>
       (k_enq s = EIdle \<and> k_deq s = DIdle \<longrightarrow>
          (\<exists>q'. rw_try_dequeue (k_q s) = Inr (if rest = [] then None else Some (hd rest), q')) \<and>
          (\<exists>freed. rw_destroy (k_q s) = Some (rest, freed, Map.empty) \<and> distinct freed \<and> set freed = dom (q_blocks (k_q s)))))"
proof -
  obtain m n where inv: "conc_inv m n s" by (rule conc_reached [OF assms(1-8)])
  obtain rest where "k_sent s = k_got s @ rest" "k_enq s = EIdle \<and> k_deq s = DIdle \<longrightarrow> rw_queue m n (k_q s) rest"
    using conc_inv_contents [OF inv] by blast
  with rw_try_dequeue_refines [of m n "k_q s" rest] rw_destroy_refines [of m n "k_q s" rest]
  show ?thesis using enq_step_ok [OF inv assms(9)] deq_step_ok [OF inv] by blast
qed

text \<open>
  C9: a \<open>try_dequeue\<close> that returns without an object saw the queue empty when it read the tail, whatever the
  producer did since; an enqueue that is refused either found \<open>maxSize\<close> objects or more in the queue when it read
  the front, and was not allowed to allocate, or the allocation failed.
\<close>

theorem interleaved_refusals_justified:
  fixes s :: "'a spsc"
  assumes "M = 2 ^ k" and "1 \<le> k" and "k \<le> 62" and "0 < maxSize" and "maxSize \<le> 2 ^ 62" and "inj addr"
    and "mk_rwq M (\<lambda>i. Some (addr i)) maxSize = Inr q" and "(conc_step M)\<^sup>*\<^sup>* (conc_start q) s"
    and "fresh_block (k_q s) malloc"
  shows "(k_deq s \<noteq> DIdle \<and> deq_step s = Inr s' \<and> k_deq s' = DIdle \<and> k_got s' = k_got s \<longrightarrow> k_deq s = DTail True) \<and>
    (k_enq s \<noteq> EIdle \<and> enq_step M malloc s = Inr s' \<and> k_enq s' = EIdle \<and> k_sent s' = k_sent s \<longrightarrow>
      (\<exists>x j. k_enq s = EFront CannotAlloc x j \<and> maxSize \<le> j) \<or> (\<exists>x. k_enq s = EAlloc x \<and> malloc = None))"
proof -
  obtain m n where inv: "conc_inv m n s" and cap: "maxSize \<le> m * max 1 (n - 1)" by (rule conc_reached [OF assms(1-8)])
  have "k_deq s = DTail True" if "k_deq s \<noteq> DIdle" "deq_step s = Inr s'" "k_deq s' = DIdle" "k_got s' = k_got s"
    using deq_gives_up [OF that(2,1,3,4)] deq_step_ok [OF inv] that by auto
  moreover have "(\<exists>x j. k_enq s = EFront CannotAlloc x j \<and> maxSize \<le> j) \<or> (\<exists>x. k_enq s = EAlloc x \<and> malloc = None)"
    if "k_enq s \<noteq> EIdle" "enq_step M malloc s = Inr s'" "k_enq s' = EIdle" "k_sent s' = k_sent s"
    using enq_gives_up [OF that(2,1,3,4)] enq_step_ok [OF inv assms(9), of M] that cap by fastforce
  ultimately show ?thesis by blast
qed


text \<open>
  A schedule on blocks of two slots: the first object fills the front block; while the consumer takes it the
  producer makes a second block and publishes it.
\<close>

definition sample_acts :: "string action list" where
  "sample_acts =
     [CallEnqueue CannotAlloc ''a'', EnqStep None, EnqStep None, EnqStep None,
      CallEnqueue CanAlloc ''b'', EnqStep None, CallDequeue, DeqStep, EnqStep None, DeqStep, EnqStep (Some 1), DeqStep,
      EnqStep None, EnqStep None]"

text \<open>The consumer saw the empty queue; since then the producer filled it and is about to be refused.\<close>

definition refused_acts :: "string action list" where
  "refused_acts =
     [CallDequeue, DeqStep, CallEnqueue CannotAlloc ''a'', EnqStep None, EnqStep None, EnqStep None,
      CallEnqueue CannotAlloc ''b'', EnqStep None]"

definition sample_reaches :: "string action list \<Rightarrow> (string spsc \<Rightarrow> bool) \<Rightarrow> bool" where
  "sample_reaches acts P \<longleftrightarrow> (case mk_rwq 2 (\<lambda>i. Some (2 * i)) 1 of Inl e \<Rightarrow> False
   | Inr q \<Rightarrow> (case conc_run 2 acts (conc_start q) of Some (Inr s) \<Rightarrow> P s | _ \<Rightarrow> False))"

lemma sample_reached:
  assumes "sample_reaches acts P"
  obtains q s where "mk_rwq 2 (\<lambda>i. Some (2 * i)) 1 = Inr q" and "conc_run 2 acts (conc_start q) = Some (Inr s)" and "P s"
proof -
  obtain q :: "string rwq" where q: "mk_rwq 2 (\<lambda>i. Some (2 * i)) 1 = Inr q"
    using assms by (cases "mk_rwq 2 (\<lambda>i. Some (2 * i)) 1 :: string rwq outcome") (auto simp: sample_reaches_def)
  with assms obtain s where "conc_run 2 acts (conc_start q) = Some (Inr s)" "P s"
    by (cases "conc_run 2 acts (conc_start q)"; cases "the (conc_run 2 acts (conc_start q))") (auto simp: sample_reaches_def)
  with q show ?thesis by (rule that)
qed

theorem interleaved_queue_is_fifo_witness:
  "\<exists>q s freed. mk_rwq 2 (\<lambda>i. Some (2 * i)) 1 = Inr q \<and> conc_run 2 sample_acts (conc_start q) = Some (Inr s) \<and>
    k_sent s = [''a'', ''b''] \<and> k_got s = [''a''] \<and> (\<exists>q'. rw_try_dequeue (k_q s) = Inr (Some ''b'', q')) \<and>
    rw_destroy (k_q s) = Some ([''b''], freed, Map.empty)"
proof -
  have "sample_reaches sample_acts (\<lambda>s. k_sent s = [''a'', ''b''] \<and> k_got s = [''a''] \<and> k_enq s = EIdle \<and> k_deq s = DIdle)"
    by code_simp
  then obtain q s where q: "mk_rwq 2 (\<lambda>i. Some (2 * i)) 1 = Inr q" and r: "conc_run 2 sample_acts (conc_start q) = Some (Inr s)"
    and s: "k_sent s = [''a'', ''b''] \<and> k_got s = [''a''] \<and> k_enq s = EIdle \<and> k_deq s = DIdle"
    by (rule sample_reached) (rule that)
  from interleaved_queue_is_fifo [OF _ _ _ _ _ _ q conc_run_steps [OF r], of 1 None] s
  obtain freed where "rw_destroy (k_q s) = Some ([''b''], freed, Map.empty)" "\<exists>q'. rw_try_dequeue (k_q s) = Inr (Some ''b'', q')"
    by (auto simp: inj_def fresh_block_def)
  with q r s show ?thesis by blast
qed

theorem interleaved_refusals_justified_witness:
  "\<exists>q s j. mk_rwq 2 (\<lambda>i. Some (2 * i)) 1 = Inr q \<and> conc_run 2 refused_acts (conc_start q) = Some (Inr s) \<and>
    k_deq s = DTail True \<and> k_enq s = EFront CannotAlloc ''b'' j \<and> 1 \<le> j"
proof -
  have "sample_reaches refused_acts (\<lambda>s. k_deq s \<noteq> DIdle \<and> k_enq s = EFront CannotAlloc ''b'' 1 \<and>
      (case deq_step s of Inl e \<Rightarrow> False | Inr s' \<Rightarrow> k_deq s' = DIdle \<and> k_got s' = k_got s) \<and>
      (case enq_step 2 None s of Inl e \<Rightarrow> False | Inr s' \<Rightarrow> k_enq s' = EIdle \<and> k_sent s' = k_sent s))"
    by code_simp
  then obtain q s where q: "mk_rwq 2 (\<lambda>i. Some (2 * i)) 1 = Inr q" and r: "conc_run 2 refused_acts (conc_start q) = Some (Inr s)"
    and s: "k_deq s \<noteq> DIdle \<and> k_enq s = EFront CannotAlloc ''b'' 1 \<and>
      (case deq_step s of Inl e \<Rightarrow> False | Inr s' \<Rightarrow> k_deq s' = DIdle \<and> k_got s' = k_got s) \<and>
      (case enq_step 2 None s of Inl e \<Rightarrow> False | Inr s' \<Rightarrow> k_enq s' = EIdle \<and> k_sent s' = k_sent s)"
    by (rule sample_reached) (rule that)
  have pcs: "k_deq s \<noteq> DIdle" "k_enq s = EFront CannotAlloc ''b'' 1" using s by blast+
  obtain d where d: "deq_step s = Inr d" "k_deq d = DIdle" "k_got d = k_got s" using s by (cases "deq_step s") auto
  obtain e where e: "enq_step 2 None s = Inr e" "k_enq e = EIdle" "k_sent e = k_sent s" using s by (cases "enq_step 2 None s") auto
  have "inj (\<lambda>i :: nat. 2 * i)" "fresh_block (k_q s) None" by (simp_all add: inj_def fresh_block_def)
  note sound = interleaved_refusals_justified [of 2 1 1, OF _ _ _ _ _ this(1) q conc_run_steps [OF r] this(2)]
  have "k_deq s = DTail True" using sound [of d] d pcs(1) by simp
  moreover have "\<exists>x j. k_enq s = EFront CannotAlloc x j \<and> 1 \<le> j" using sound [of e] e pcs(2) by simp
  ultimately show ?thesis using q r pcs(2) by auto
qed


end
