(* ===== verification/Semaphore.thy ===== *)
theory Semaphore
  imports SpscQueue
begin

text \<open>
  The semaphores of \<open>include/queue/moodycamel/atomicops.h\<close> (one waiting thread, one signalling thread) and the
  blocking queue \<open>BlockingReaderWriterQueue\<close> of \<open>readerwriterqueue.h\<close> built on them. Every access to the
  shared counter and every call of the kernel's semaphore is a step; memory is sequentially consistent. A
  \<open>sem_wait\<close> that a signal interrupts is called again and is no step. The counter does not reach \<open>2 ^ 63\<close>.
\<close>

section \<open>The semaphore\<close>

record sema =
  s_count :: int
  s_kernel :: nat

definition new_sema :: "int \<Rightarrow> sema outcome" where
  "new_sema initialCount = (if 0 \<le> initialCount then Inr \<lparr>s_count = initialCount, s_kernel = 0\<rparr> else Inl AssertFailed)"

text \<open>The kernel's semaphore: \<open>None\<close> is a thread that sleeps.\<close>

definition kernel_wait :: "sema \<Rightarrow> sema option" where
  "kernel_wait s = (if 0 < s_kernel s then Some (s\<lparr>s_kernel := s_kernel s - 1\<rparr>) else None)"

definition kernel_post :: "sema \<Rightarrow> sema" where
  "kernel_post s = s\<lparr>s_kernel := s_kernel s + 1\<rparr>"

text \<open>
  Where a waiting thread is: about to read the counter in \<open>tryWait\<close>, about to decrement it having seen it
  positive, in the spinning loop with some turns left, in the kernel, or done.
\<close>

datatype wait_pc = WTry | WTake | WSpin nat | WSleep | WDone bool

definition SPIN :: nat where
  "SPIN = 10000"

fun wait_step :: "bool \<Rightarrow> wait_pc \<Rightarrow> sema \<Rightarrow> (wait_pc \<times> sema) option" where
  "wait_step blocking WTry s =
     Some (if 0 < s_count s then WTake else if blocking then WSpin SPIN else WDone False, s)"
| "wait_step blocking WTake s = Some (WDone True, s\<lparr>s_count := s_count s - 1\<rparr>)"
| "wait_step blocking (WSpin (Suc n)) s = Some (if 0 < s_count s then WTake else WSpin n, s)"
| "wait_step blocking (WSpin 0) s =
     Some (if s_count s \<le> 0 then WSleep else WDone True, s\<lparr>s_count := s_count s - 1\<rparr>)"
| "wait_step blocking WSleep s = map_option (\<lambda>s'. (WDone True, s')) (kernel_wait s)"
| "wait_step blocking (WDone b) s = None"

datatype signal_pc = SAdd int | SPost nat | SDone

fun signal_step :: "signal_pc \<Rightarrow> sema \<Rightarrow> (signal_pc \<times> sema) outcome" where
  "signal_step (SAdd c) s =
     (if c < 0 then Inl AssertFailed
      else if s_count s < -1 then Inl AssertFailed
      else Inr (if s_count s < 0 then SPost 1 else SDone, s\<lparr>s_count := s_count s + c\<rparr>))"
| "signal_step (SPost (Suc n)) s = Inr (if n = 0 then SDone else SPost n, kernel_post s)"
| "signal_step (SPost 0) s = Inr (SDone, s)"
| "signal_step SDone s = Inr (SDone, s)"

definition availableApprox :: "sema \<Rightarrow> int" where
  "availableApprox s = (if 0 < s_count s then s_count s else 0)"

text \<open>A wait is over after finitely many steps of its own, or sleeps.\<close>

fun wait_left :: "wait_pc \<Rightarrow> nat" where
  "wait_left WTry = SPIN + 4"
| "wait_left WTake = 1"
| "wait_left (WSpin n) = n + 3"
| "wait_left WSleep = 1"
| "wait_left (WDone b) = 0"

lemma wait_step_decreases: "wait_step blocking w s = Some (w', s') \<Longrightarrow> wait_left w' < wait_left w"
  by (cases "(blocking, w, s)" rule: wait_step.cases) (auto split: if_splits)

section \<open>The blocking queue\<close>

datatype take_call = TryTake | WaitTake | PopTake

datatype consumer_pc = CIdle | CWait take_call wait_pc

record ('q, 'a) blocking =
  bq_inner :: 'q
  bq_sema :: sema
  bq_producer :: signal_pc
  bq_consumer :: consumer_pc
  bq_sent :: "'a list"
  bq_got :: "'a option list"
  bq_fault :: "fault option"

text \<open>
  The calls of the producer: an enqueue of the queue inside and, when it was accepted, a signal. The calls of the
  consumer: a wait and, when it was granted, a dequeue, that is asserted to succeed. \<open>bq_sent\<close> are the objects
  that were accepted, \<open>bq_got\<close> those that were taken out (\<open>None\<close>: thrown away by \<open>pop\<close>); \<open>bq_fault\<close> is set
  by a failed assertion. \<open>insert\<close> stands for the enqueues of the queue inside, \<open>m\<close> for what it may allocate.
\<close>

inductive bq_step :: "('q \<Rightarrow> 'm \<Rightarrow> bool) \<Rightarrow> ('m \<Rightarrow> 'a \<Rightarrow> 'q \<Rightarrow> (bool \<times> 'q) outcome) \<Rightarrow>
    ('q \<Rightarrow> ('a option \<times> 'q) outcome) \<Rightarrow> ('q \<Rightarrow> (bool \<times> 'q) outcome) \<Rightarrow>
    ('q \<Rightarrow> ('p option \<times> 'q) outcome) \<Rightarrow> ('q, 'a) blocking \<Rightarrow> ('q, 'a) blocking \<Rightarrow> bool"
  for fresh insert dequeue pop peek where
  enqueue_accepted:
    "bq_producer b = SDone \<Longrightarrow> fresh (bq_inner b) m \<Longrightarrow> insert m x (bq_inner b) = Inr (True, q) \<Longrightarrow>
     bq_step fresh insert dequeue pop peek b (b\<lparr>bq_inner := q, bq_sent := bq_sent b @ [x], bq_producer := SAdd 1\<rparr>)"
| enqueue_refused:
    "bq_producer b = SDone \<Longrightarrow> fresh (bq_inner b) m \<Longrightarrow> insert m x (bq_inner b) = Inr (False, q) \<Longrightarrow>
     bq_step fresh insert dequeue pop peek b (b\<lparr>bq_inner := q\<rparr>)"
| enqueue_fault:
    "bq_producer b = SDone \<Longrightarrow> fresh (bq_inner b) m \<Longrightarrow> insert m x (bq_inner b) = Inl e \<Longrightarrow>
     bq_step fresh insert dequeue pop peek b (b\<lparr>bq_fault := Some e\<rparr>)"
| signal:
    "bq_producer b \<noteq> SDone \<Longrightarrow> signal_step (bq_producer b) (bq_sema b) = Inr (p, s) \<Longrightarrow>
     bq_step fresh insert dequeue pop peek b (b\<lparr>bq_producer := p, bq_sema := s\<rparr>)"
| signal_fault:
    "bq_producer b \<noteq> SDone \<Longrightarrow> signal_step (bq_producer b) (bq_sema b) = Inl e \<Longrightarrow>
     bq_step fresh insert dequeue pop peek b (b\<lparr>bq_fault := Some e\<rparr>)"
| peek:
    "bq_consumer b = CIdle \<Longrightarrow> peek (bq_inner b) = Inr (r, q) \<Longrightarrow> bq_step fresh insert dequeue pop peek b (b\<lparr>bq_inner := q\<rparr>)"
| peek_fault:
    "bq_consumer b = CIdle \<Longrightarrow> peek (bq_inner b) = Inl e \<Longrightarrow>
     bq_step fresh insert dequeue pop peek b (b\<lparr>bq_fault := Some e\<rparr>)"
| take_call:
    "bq_consumer b = CIdle \<Longrightarrow> bq_step fresh insert dequeue pop peek b (b\<lparr>bq_consumer := CWait c WTry\<rparr>)"
| take_wait:
    "bq_consumer b = CWait c w \<Longrightarrow> wait_step (c = WaitTake) w (bq_sema b) = Some (w', s) \<Longrightarrow>
     bq_step fresh insert dequeue pop peek b (b\<lparr>bq_consumer := CWait c w', bq_sema := s\<rparr>)"
| take_refused:
    "bq_consumer b = CWait c (WDone False) \<Longrightarrow> bq_step fresh insert dequeue pop peek b (b\<lparr>bq_consumer := CIdle\<rparr>)"
| take_object:
    "bq_consumer b = CWait c (WDone True) \<Longrightarrow> c \<noteq> PopTake \<Longrightarrow> dequeue (bq_inner b) = Inr (Some x, q) \<Longrightarrow>
     bq_step fresh insert dequeue pop peek b (b\<lparr>bq_inner := q, bq_got := bq_got b @ [Some x], bq_consumer := CIdle\<rparr>)"
| take_nothing:
    "bq_consumer b = CWait c (WDone True) \<Longrightarrow> c \<noteq> PopTake \<Longrightarrow> dequeue (bq_inner b) = Inr (None, q) \<Longrightarrow>
     bq_step fresh insert dequeue pop peek b (b\<lparr>bq_fault := Some AssertFailed\<rparr>)"
| take_fault:
    "bq_consumer b = CWait c (WDone True) \<Longrightarrow> c \<noteq> PopTake \<Longrightarrow> dequeue (bq_inner b) = Inl e \<Longrightarrow>
     bq_step fresh insert dequeue pop peek b (b\<lparr>bq_fault := Some e\<rparr>)"
| pop_object:
    "bq_consumer b = CWait PopTake (WDone True) \<Longrightarrow> pop (bq_inner b) = Inr (True, q) \<Longrightarrow>
     bq_step fresh insert dequeue pop peek b (b\<lparr>bq_inner := q, bq_got := bq_got b @ [None], bq_consumer := CIdle\<rparr>)"
| pop_nothing:
    "bq_consumer b = CWait PopTake (WDone True) \<Longrightarrow> pop (bq_inner b) = Inr (False, q) \<Longrightarrow>
     bq_step fresh insert dequeue pop peek b (b\<lparr>bq_fault := Some AssertFailed\<rparr>)"
| pop_fault:
    "bq_consumer b = CWait PopTake (WDone True) \<Longrightarrow> pop (bq_inner b) = Inl e \<Longrightarrow>
     bq_step fresh insert dequeue pop peek b (b\<lparr>bq_fault := Some e\<rparr>)"

definition bq_start :: "'q \<Rightarrow> ('q, 'a) blocking" where
  "bq_start q = \<lparr>bq_inner = q, bq_sema = \<lparr>s_count = 0, s_kernel = 0\<rparr>, bq_producer = SDone, bq_consumer = CIdle,
     bq_sent = [], bq_got = [], bq_fault = None\<rparr>"

definition bq_size_approx :: "('q, 'a) blocking \<Rightarrow> int" where
  "bq_size_approx b = availableApprox (bq_sema b)"

section \<open>Units\<close>

text \<open>
  The invariant of the semaphore, with \<open>n\<close> units: a unit is an object the consumer may take. It is in the
  counter, with a producer that has not signalled it yet, or with a consumer that was granted it or sleeps for
  it. A sleeping consumer is matched by a negative counter, a post that is due, or the kernel's count.
\<close>

fun unit_signalled :: "signal_pc \<Rightarrow> int" where
  "unit_signalled (SAdd c) = c"
| "unit_signalled p = 0"

fun unit_granted :: "consumer_pc \<Rightarrow> int" where
  "unit_granted (CWait c (WDone True)) = 1"
| "unit_granted (CWait c WSleep) = 1"
| "unit_granted c = 0"

fun asleep :: "consumer_pc \<Rightarrow> bool" where
  "asleep (CWait c WSleep) = True"
| "asleep c = False"

definition sema_ok :: "sema \<Rightarrow> signal_pc \<Rightarrow> consumer_pc \<Rightarrow> int \<Rightarrow> bool" where
  "sema_ok s p c n \<longleftrightarrow> n = s_count s + unit_signalled p + unit_granted c \<and>
     int (s_kernel s) + of_bool (p = SPost 1) + of_bool (s_count s < 0) = of_bool (asleep c) \<and>
     p \<in> {SAdd 1, SPost 1, SDone} \<and> -1 \<le> s_count s \<and> (\<forall>k. c = CWait k WTake \<longrightarrow> 0 < s_count s)"

lemma sema_ok_signal:
  assumes "sema_ok s p c n" and "p \<noteq> SDone"
  shows "\<exists>p' s'. signal_step p s = Inr (p', s') \<and> sema_ok s' p' c n"
proof -
  consider "p = SAdd 1" | "p = SPost 1" using assms by (auto simp: sema_ok_def)
  then show ?thesis
  proof cases
    case 1
    with assms show ?thesis by (auto simp: sema_ok_def)
  next
    case 2
    with assms have "signal_step p s = Inr (SDone, kernel_post s)" by simp
    with 2 assms show ?thesis by (auto simp: sema_ok_def kernel_post_def)
  qed
qed

lemma sema_ok_wait:
  "sema_ok s p (CWait k w) n \<Longrightarrow> wait_step b w s = Some (w', s') \<Longrightarrow> sema_ok s' p (CWait k w') n"
  by (cases "(b, w, s)" rule: wait_step.cases)
    (auto simp: sema_ok_def kernel_wait_def of_bool_def split: if_splits)

lemma sema_ok_enqueue: "sema_ok s SDone c n \<Longrightarrow> sema_ok s (SAdd 1) c (n + 1)"
  by (simp add: sema_ok_def)

lemma sema_ok_take: "sema_ok s p (CWait k (WDone True)) n \<Longrightarrow> 0 < n \<and> sema_ok s p CIdle (n - 1)"
  by (auto simp: sema_ok_def of_bool_def split: if_splits)

lemma sema_ok_idle: "sema_ok s p (CWait k (WDone False)) n \<Longrightarrow> sema_ok s p CIdle n"
  by (simp add: sema_ok_def)

lemma sema_ok_call: "sema_ok s p CIdle n \<Longrightarrow> sema_ok s p (CWait k WTry) n"
  by (simp add: sema_ok_def)

section \<open>The interface of the queue inside\<close>

text \<open>
  What the blocking queue needs of the queue inside: an enqueue appends or changes nothing, a dequeue takes the
  head and says so, and so does \<open>pop\<close>; looking changes no contents.
\<close>

locale inner_queue =
  fixes holds :: "'q \<Rightarrow> 'a list \<Rightarrow> bool"
    and fresh :: "'q \<Rightarrow> 'm \<Rightarrow> bool"
    and insert :: "'m \<Rightarrow> 'a \<Rightarrow> 'q \<Rightarrow> (bool \<times> 'q) outcome"
    and dequeue :: "'q \<Rightarrow> ('a option \<times> 'q) outcome"
    and pop :: "'q \<Rightarrow> (bool \<times> 'q) outcome"
    and peek :: "'q \<Rightarrow> ('p option \<times> 'q) outcome"
  assumes insert_appends: "holds q xs \<Longrightarrow> fresh q m \<Longrightarrow>
      \<exists>ok q'. insert m x q = Inr (ok, q') \<and> holds q' (if ok then xs @ [x] else xs)"
    and dequeue_head: "holds q xs \<Longrightarrow> \<exists>q'. dequeue q = Inr (if xs = [] then None else Some (hd xs), q') \<and> holds q' (tl xs)"
    and pop_head: "holds q xs \<Longrightarrow> \<exists>q'. pop q = Inr (xs \<noteq> [], q') \<and> holds q' (tl xs)"
    and peek_keeps: "holds q xs \<Longrightarrow> \<exists>r q'. peek q = Inr (r, q') \<and> holds q' xs"
begin

definition bq_ok :: "('q, 'a) blocking \<Rightarrow> 'a list \<Rightarrow> 'a list \<Rightarrow> bool" where
  "bq_ok b gone xs \<longleftrightarrow> bq_fault b = None \<and> holds (bq_inner b) xs \<and> bq_sent b = gone @ xs \<and>
     list_all2 (\<lambda>x g. g = None \<or> g = Some x) gone (bq_got b) \<and>
     sema_ok (bq_sema b) (bq_producer b) (bq_consumer b) (int (length xs))"

lemma bq_start_ok: "holds q [] \<Longrightarrow> bq_ok (bq_start q) [] []"
  by (simp add: bq_ok_def bq_start_def sema_ok_def)

lemma bq_step_ok:
  assumes "bq_step fresh insert dequeue pop peek b b'" and "bq_ok b gone xs"
  shows "\<exists>gone' xs'. bq_ok b' gone' xs'"
  using assms
proof cases
  case (enqueue_accepted m x q)
  from insert_appends [of "bq_inner b" xs m x] assms(2) enqueue_accepted have "holds q (xs @ [x])" by (auto simp: bq_ok_def)
  with assms(2) enqueue_accepted sema_ok_enqueue [of "bq_sema b" "bq_consumer b" "int (length xs)"]
  have "bq_ok b' gone (xs @ [x])" by (simp add: bq_ok_def add.commute)
  then show ?thesis by blast
next
  case (enqueue_refused m x q)
  from insert_appends [of "bq_inner b" xs m x] assms(2) enqueue_refused have "holds q xs" by (auto simp: bq_ok_def)
  with assms(2) enqueue_refused have "bq_ok b' gone xs" by (simp add: bq_ok_def)
  then show ?thesis by blast
next
  case (enqueue_fault m x e)
  from insert_appends [of "bq_inner b" xs m x] assms(2) enqueue_fault show ?thesis by (auto simp: bq_ok_def)
next
  case (signal p s)
  with assms(2) sema_ok_signal [of "bq_sema b" "bq_producer b"] have "bq_ok b' gone xs" by (fastforce simp: bq_ok_def)
  then show ?thesis by blast
next
  case (signal_fault e)
  with assms(2) sema_ok_signal [of "bq_sema b" "bq_producer b"] show ?thesis by (fastforce simp: bq_ok_def)
next
  case (peek r q)
  with assms(2) peek_keeps [of "bq_inner b" xs] have "bq_ok b' gone xs" by (auto simp: bq_ok_def)
  then show ?thesis by blast
next
  case (peek_fault e)
  with assms(2) peek_keeps [of "bq_inner b" xs] show ?thesis by (auto simp: bq_ok_def)
next
  case (take_call c)
  with assms(2) sema_ok_call have "bq_ok b' gone xs" by (simp add: bq_ok_def)
  then show ?thesis by blast
next
  case (take_wait c w w' s)
  with assms(2) sema_ok_wait [OF _ take_wait(3)] have "bq_ok b' gone xs" by (simp add: bq_ok_def)
  then show ?thesis by blast
next
  case (take_refused c)
  with assms(2) have "sema_ok (bq_sema b) (bq_producer b) CIdle (int (length xs))" by (auto simp: bq_ok_def intro: sema_ok_idle)
  with assms(2) take_refused have "bq_ok b' gone xs" by (simp add: bq_ok_def)
  then show ?thesis by blast
next
  case (take_object c x q)
  then obtain ys where ys: "xs = x # ys" "holds q ys" using dequeue_head [of "bq_inner b" xs] assms(2)
    by (cases xs) (auto simp: bq_ok_def)
  have "sema_ok (bq_sema b) (bq_producer b) CIdle (int (length ys))"
    using assms(2) take_object(2) ys sema_ok_take by (fastforce simp: bq_ok_def)
  with assms(2) take_object ys have "bq_ok b' (gone @ [x]) ys" by (simp add: bq_ok_def list_all2_appendI)
  then show ?thesis by blast
next
  case (pop_object q)
  then obtain x ys where ys: "xs = x # ys" "holds q ys" using pop_head [of "bq_inner b" xs] assms(2)
    by (cases xs) (auto simp: bq_ok_def)
  have "sema_ok (bq_sema b) (bq_producer b) CIdle (int (length ys))"
    using assms(2) pop_object(2) ys sema_ok_take by (fastforce simp: bq_ok_def)
  with assms(2) pop_object ys have "bq_ok b' (gone @ [x]) ys" by (simp add: bq_ok_def list_all2_appendI)
  then show ?thesis by blast
next
  case (take_nothing c q)
  with assms(2) have "xs \<noteq> []" using sema_ok_take by (fastforce simp: bq_ok_def)
  with take_nothing assms(2) dequeue_head [of "bq_inner b" xs] show ?thesis by (auto simp: bq_ok_def)
next
  case (take_fault c e)
  with assms(2) dequeue_head [of "bq_inner b" xs] show ?thesis by (auto simp: bq_ok_def)
next
  case (pop_nothing q)
  with assms(2) have "xs \<noteq> []" using sema_ok_take by (fastforce simp: bq_ok_def)
  with pop_nothing assms(2) pop_head [of "bq_inner b" xs] show ?thesis by (auto simp: bq_ok_def)
next
  case (pop_fault e)
  with assms(2) pop_head [of "bq_inner b" xs] show ?thesis by (auto simp: bq_ok_def)
qed

lemma bq_run_ok:
  assumes "(bq_step fresh insert dequeue pop peek)\<^sup>*\<^sup>* (bq_start q) b" and "holds q []"
  shows "\<exists>gone xs. bq_ok b gone xs"
  using assms(1)
proof (induction rule: rtranclp_induct)
  case base
  then show ?case using bq_start_ok [OF assms(2)] by blast
next
  case (step b b')
  then show ?case using bq_step_ok by blast
qed

text \<open>Nobody is stuck but a consumer that waits for an object that is not there.\<close>

lemma bq_consumer_runs:
  assumes "bq_ok b gone xs" and "bq_consumer b \<noteq> CIdle" and "\<not> (asleep (bq_consumer b) \<and> s_kernel (bq_sema b) = 0)"
  shows "\<exists>b'. bq_step fresh insert dequeue pop peek b b' \<and> bq_consumer b' \<noteq> bq_consumer b"
proof -
  obtain c w where c: "bq_consumer b = CWait c w" using assms(2) by (cases "bq_consumer b") auto
  have h: "holds (bq_inner b) xs" using assms(1) by (simp add: bq_ok_def)
  have waits: ?thesis if "wait_step (c = WaitTake) w (bq_sema b) = Some (w', s)" "w' \<noteq> w" for w' s
    using take_wait [OF c that(1)] that(2) c by force
  show ?thesis
  proof (cases w)
    case (WDone granted)
    show ?thesis
    proof (cases granted)
      case True
      with WDone c assms(1) have ne: "xs \<noteq> []" using sema_ok_take by (fastforce simp: bq_ok_def)
      from dequeue_head [OF h] pop_head [OF h] ne obtain q q' where
        "dequeue (bq_inner b) = Inr (Some (hd xs), q)" "pop (bq_inner b) = Inr (True, q')" by auto
      with c WDone True show ?thesis
        by (cases "c = PopTake") (force dest: take_object [rotated 2] pop_object [rotated])+
    qed (use c WDone take_refused in force)
  next
    case WSleep
    with assms(3) c have "0 < s_kernel (bq_sema b)" by simp
    with WSleep have "wait_step (c = WaitTake) w (bq_sema b) =
        Some (WDone True, bq_sema b\<lparr>s_kernel := s_kernel (bq_sema b) - 1\<rparr>)" by (simp add: kernel_wait_def)
    from waits [OF this] WSleep show ?thesis by simp
  next
    case (WSpin n)
    then show ?thesis using waits by (cases n) (force split: if_splits)+
  next
    case WTry
    then show ?thesis using waits by (force split: if_splits)
  next
    case WTake
    then show ?thesis using waits by force
  qed
qed

lemma bq_producer_runs:
  assumes "bq_ok b gone xs" and "bq_producer b \<noteq> SDone"
  shows "\<exists>b'. bq_step fresh insert dequeue pop peek b b' \<and> bq_producer b' \<noteq> bq_producer b"
proof -
  from assms have p: "bq_producer b = SAdd 1 \<or> bq_producer b = SPost 1" by (auto simp: bq_ok_def sema_ok_def)
  from assms sema_ok_signal obtain p' s' where st: "signal_step (bq_producer b) (bq_sema b) = Inr (p', s')"
    unfolding bq_ok_def by blast
  with p have "p' \<noteq> bq_producer b" by (auto split: if_splits)
  with signal [OF assms(2) st] show ?thesis by force
qed

lemma bq_sleeper_waits_rightly:
  assumes "bq_ok b gone xs" and "asleep (bq_consumer b)" and "s_kernel (bq_sema b) = 0" and "bq_producer b = SDone"
  shows "xs = []"
proof -
  obtain c where "bq_consumer b = CWait c WSleep" using assms(2) by (cases "bq_consumer b" rule: asleep.cases) auto
  with assms have "int (length xs) = s_count (bq_sema b) + 1" "s_count (bq_sema b) < 0" "-1 \<le> s_count (bq_sema b)"
    by (auto simp: bq_ok_def sema_ok_def of_bool_def split: if_splits)
  then have "length xs = 0" by linarith
  then show ?thesis by simp
qed

lemma bq_size_approx_bounds:
  assumes "bq_ok b gone xs"
  shows "0 \<le> bq_size_approx b \<and> bq_size_approx b \<le> int (length xs) \<and>
    (bq_producer b = SDone \<and> bq_consumer b = CIdle \<longrightarrow> bq_size_approx b = int (length xs))"
proof -
  have "0 \<le> unit_signalled (bq_producer b)" using assms by (auto simp: bq_ok_def sema_ok_def)
  moreover have "0 \<le> unit_granted (bq_consumer b)" by (cases "bq_consumer b" rule: unit_granted.cases) simp_all
  ultimately show ?thesis using assms by (auto simp: bq_ok_def sema_ok_def bq_size_approx_def availableApprox_def)
qed

end

section \<open>BlockingReaderWriterQueue\<close>

text \<open>The enqueues: \<open>try_enqueue\<close>, and \<open>enqueue\<close> with the answer of its allocation.\<close>

definition rw_insert :: "nat \<Rightarrow> nat option option \<Rightarrow> 'a \<Rightarrow> 'a rwq \<Rightarrow> (bool \<times> 'a rwq) outcome" where
  "rw_insert M m x q = (case m of None \<Rightarrow> rw_try_enqueue M x q | Some malloc \<Rightarrow> rw_enqueue M malloc x q)"

definition rw_fresh :: "'a rwq \<Rightarrow> nat option option \<Rightarrow> bool" where
  "rw_fresh q m = (case m of None \<Rightarrow> True | Some malloc \<Rightarrow> fresh_block q malloc)"

lemma fresh_block_None: "fresh_block q None"
  by (simp add: fresh_block_def)

lemma rw_insert_appends:
  assumes q: "rw_queue m n q xs" and fresh: "rw_fresh q a"
  shows "\<exists>ok q'. rw_insert M a x q = Inr (ok, q') \<and> rw_queue m n q' (if ok then xs @ [x] else xs)"
proof (cases a)
  case None
  from inner_enqueue_refines [OF q fresh_block_None, of M CannotAlloc x] show ?thesis
    unfolding rw_insert_def rw_try_enqueue_def None option.case by blast
next
  case (Some malloc)
  with fresh have "fresh_block q malloc" by (simp add: rw_fresh_def)
  from inner_enqueue_refines [OF q this, of M CanAlloc x] show ?thesis
    unfolding rw_insert_def rw_enqueue_def Some option.case by blast
qed

lemma rw_pop_head: "rw_queue m n q xs \<Longrightarrow> \<exists>q'. rw_pop q = Inr (xs \<noteq> [], q') \<and> rw_queue m n q' (tl xs)"
  using rw_try_dequeue_refines [of m n q xs] by (auto simp: rw_pop_dequeue)

lemma rw_peek_keeps: "rw_queue m n q xs \<Longrightarrow> \<exists>r q'. rw_peek q = Inr (r, q') \<and> rw_queue m n q' xs"
  using rw_peek_refines [of m n q xs] by blast

interpretation spsc: inner_queue "rw_queue m n" rw_fresh "rw_insert M" rw_try_dequeue rw_pop rw_peek for m n M :: nat
  by unfold_locales (rule rw_insert_appends rw_try_dequeue_refines rw_pop_head rw_peek_keeps; assumption)+

abbreviation spsc_step :: "nat \<Rightarrow> ('a rwq, 'a) blocking \<Rightarrow> ('a rwq, 'a) blocking \<Rightarrow> bool" where
  "spsc_step M \<equiv> bq_step rw_fresh (rw_insert M) rw_try_dequeue rw_pop rw_peek"

lemma spsc_reachable:
  assumes "M = 2 ^ k" and "1 \<le> k" and "k \<le> 62" and "0 < maxSize" and "maxSize \<le> 2 ^ 62" and "inj addr"
    and "mk_rwq M (\<lambda>i. Some (addr i)) maxSize = Inr q" and "(spsc_step M)\<^sup>*\<^sup>* (bq_start q) b"
  shows "\<exists>m n gone xs. spsc.bq_ok m n b gone xs"
proof -
  obtain m n where "rw_queue m n q []" using mk_rwq_empty [OF assms(1-6)] assms(7) by (metis Inr_inject)
  from spsc.bq_run_ok [OF assms(8) this] show ?thesis by blast
qed

text \<open>
  C17: whatever the interleaving of the producer with the consumer, no assertion of \<open>BlockingReaderWriterQueue\<close>
  fails: a wait that was granted finds an object. The objects accepted are those taken, in order, and those in
  the queue; \<open>size_approx\<close> never overestimates them and is exact when both threads are between calls.
\<close>

theorem blocking_queue_delivers:
  fixes b :: "('a rwq, 'a) blocking"
  assumes "M = 2 ^ k" and "1 \<le> k" and "k \<le> 62" and "0 < maxSize" and "maxSize \<le> 2 ^ 62" and "inj addr"
    and "mk_rwq M (\<lambda>i. Some (addr i)) maxSize = Inr q" and "(spsc_step M)\<^sup>*\<^sup>* (bq_start q) b"
  shows "bq_fault b = None \<and> (\<exists>m n gone xs. rw_queue m n (bq_inner b) xs \<and> bq_sent b = gone @ xs \<and>
    list_all2 (\<lambda>x g. g = None \<or> g = Some x) gone (bq_got b) \<and> bq_size_approx b \<le> int (length xs) \<and>
    (bq_producer b = SDone \<and> bq_consumer b = CIdle \<longrightarrow> bq_size_approx b = int (length xs)))"
proof -
  from spsc_reachable [OF assms] obtain m n gone xs where ok: "spsc.bq_ok m n b gone xs" by blast
  then have "bq_fault b = None \<and> rw_queue m n (bq_inner b) xs \<and> bq_sent b = gone @ xs \<and>
    list_all2 (\<lambda>x g. g = None \<or> g = Some x) gone (bq_got b)" by (simp add: spsc.bq_ok_def)
  with spsc.bq_size_approx_bounds [OF ok] show ?thesis by blast
qed

text \<open>
  C18: no wake-up is lost. A producer in a call always has a step to take; so has a consumer in a call, unless it
  sleeps in the kernel, and when the producer is between calls it sleeps only on an empty queue: everything
  that was ever accepted has been taken.
\<close>

theorem blocking_queue_wakes:
  fixes b :: "('a rwq, 'a) blocking"
  assumes "M = 2 ^ k" and "1 \<le> k" and "k \<le> 62" and "0 < maxSize" and "maxSize \<le> 2 ^ 62" and "inj addr"
    and "mk_rwq M (\<lambda>i. Some (addr i)) maxSize = Inr q" and "(spsc_step M)\<^sup>*\<^sup>* (bq_start q) b"
  shows "(bq_producer b \<noteq> SDone \<longrightarrow> (\<exists>b'. spsc_step M b b' \<and> bq_producer b' \<noteq> bq_producer b)) \<and>
    (bq_consumer b \<noteq> CIdle \<longrightarrow> (\<exists>b'. spsc_step M b b' \<and> bq_consumer b' \<noteq> bq_consumer b) \<or>
      asleep (bq_consumer b) \<and> (bq_producer b = SDone \<longrightarrow> length (bq_got b) = length (bq_sent b)))"
proof -
  from spsc_reachable [OF assms] obtain m n gone xs where ok: "spsc.bq_ok m n b gone xs" by blast
  then have sent: "bq_sent b = gone @ xs" "length gone = length (bq_got b)"
    by (auto simp: spsc.bq_ok_def dest: list_all2_lengthD)
  show ?thesis
    using spsc.bq_producer_runs [OF ok] spsc.bq_consumer_runs [OF ok] spsc.bq_sleeper_waits_rightly [OF ok] sent by fastforce
qed

text \<open>A run in which the consumer gets the one object that was sent, by \<open>tryWait\<close>.\<close>

lemma spsc_sample_run:
  "\<exists>q b. mk_rwq 2 (\<lambda>i. Some (2 * i)) 1 = Inr q \<and> (spsc_step 2)\<^sup>*\<^sup>* (bq_start q) b \<and> bq_sent b = [''a''] \<and>
     bq_got b = [Some ''a''] \<and> bq_producer b = SDone \<and> bq_consumer b = CIdle"
proof -
  obtain q :: "string rwq" and m n where q: "mk_rwq 2 (\<lambda>i. Some (2 * i)) 1 = Inr q" "rw_queue m n q []" "1 \<le> m * max 1 (n - 1)"
    using mk_rwq_empty [of 2 1 1 "\<lambda>i. 2 * i"] by (auto simp: inj_def)
  from inner_enqueue_refines [OF q(2) fresh_block_None, of 2 CannotAlloc "''a''"] q(3)
  obtain q1 where q1: "rw_insert 2 None ''a'' q = Inr (True, q1)" "rw_queue m n q1 [''a'']"
    by (fastforce simp: rw_insert_def rw_try_enqueue_def)
  from rw_try_dequeue_refines [OF q1(2)] obtain q2 where q2: "rw_try_dequeue q1 = Inr (Some ''a'', q2)" by auto
  let ?s = "\<lambda>c. \<lparr>s_count = c, s_kernel = 0\<rparr>"
  let ?b = "\<lambda>q c p w sent got. \<lparr>bq_inner = q, bq_sema = ?s c, bq_producer = p, bq_consumer = w, bq_sent = sent, bq_got = got, bq_fault = None\<rparr>"
  have "spsc_step 2 (bq_start q) (?b q1 0 (SAdd 1) CIdle [''a''] [])"
    using enqueue_accepted [of "bq_start q" rw_fresh None "rw_insert 2" "''a''" q1] q1 by (simp add: bq_start_def rw_fresh_def)
  moreover have "spsc_step 2 (?b q1 0 (SAdd 1) CIdle [''a''] []) (?b q1 1 SDone CIdle [''a''] [])"
    using signal [of "?b q1 0 (SAdd 1) CIdle [''a''] []" SDone "?s 1"] by simp
  moreover have "spsc_step 2 (?b q1 1 SDone CIdle [''a''] []) (?b q1 1 SDone (CWait TryTake WTry) [''a''] [])"
    using take_call [of "?b q1 1 SDone CIdle [''a''] []" _ _ _ _ _ TryTake] by simp
  moreover have "spsc_step 2 (?b q1 1 SDone (CWait TryTake WTry) [''a''] []) (?b q1 1 SDone (CWait TryTake WTake) [''a''] [])"
    using take_wait [of "?b q1 1 SDone (CWait TryTake WTry) [''a''] []" TryTake WTry WTake "?s 1"] by simp
  moreover have "spsc_step 2 (?b q1 1 SDone (CWait TryTake WTake) [''a''] []) (?b q1 0 SDone (CWait TryTake (WDone True)) [''a''] [])"
    using take_wait [of "?b q1 1 SDone (CWait TryTake WTake) [''a''] []" TryTake WTake "WDone True" "?s 0"] by simp
  moreover have "spsc_step 2 (?b q1 0 SDone (CWait TryTake (WDone True)) [''a''] []) (?b q2 0 SDone CIdle [''a''] [Some ''a''])"
    using take_object [of "?b q1 0 SDone (CWait TryTake (WDone True)) [''a''] []" TryTake rw_try_dequeue "''a''" q2] q2 by simp
  ultimately have "(spsc_step 2)\<^sup>*\<^sup>* (bq_start q) (?b q2 0 SDone CIdle [''a''] [Some ''a''])"
    by (meson converse_rtranclp_into_rtranclp rtranclp.rtrancl_refl)
  with q(1) show ?thesis by (intro exI conjI) auto
qed

theorem blocking_queue_delivers_witness:
  "\<exists>(q :: string rwq) b. mk_rwq 2 (\<lambda>i. Some (2 * i)) 1 = Inr q \<and> (spsc_step 2)\<^sup>*\<^sup>* (bq_start q) b \<and> bq_got b = [Some ''a''] \<and>
     bq_fault b = None \<and> bq_size_approx b = 0"
proof -
  from spsc_sample_run obtain q b where qb: "mk_rwq 2 (\<lambda>i. Some (2 * i)) 1 = Inr q" "(spsc_step 2)\<^sup>*\<^sup>* (bq_start q) b"
    "bq_sent b = [''a'']" "bq_got b = [Some ''a'']" "bq_producer b = SDone" "bq_consumer b = CIdle" by blast
  have "inj (\<lambda>i :: nat. 2 * i)" by (simp add: inj_def)
  from blocking_queue_delivers [OF _ _ _ _ _ this qb(1,2), of 1] qb(3-6) show ?thesis
    using qb(1,2) by (fastforce simp: list_all2_Cons2)
qed

theorem blocking_queue_wakes_witness:
  "\<exists>(q :: string rwq) b b'. mk_rwq 2 (\<lambda>i. Some (2 * i)) 1 = Inr q \<and> (spsc_step 2)\<^sup>*\<^sup>* (bq_start q) b \<and>
     bq_consumer b = CWait WaitTake WTry \<and> spsc_step 2 b b' \<and> bq_consumer b' \<noteq> bq_consumer b"
proof -
  from spsc_sample_run obtain q :: "string rwq" where q: "mk_rwq 2 (\<lambda>i. Some (2 * i)) 1 = Inr q" by blast
  let ?b = "bq_start q\<lparr>bq_consumer := CWait WaitTake WTry\<rparr>"
  have "spsc_step 2 (bq_start q) ?b" using take_call [of "bq_start q" _ _ _ _ _ WaitTake] by (simp add: bq_start_def)
  then have run: "(spsc_step 2)\<^sup>*\<^sup>* (bq_start q) ?b" by blast
  have "inj (\<lambda>i :: nat. 2 * i)" by (simp add: inj_def)
  from blocking_queue_wakes [OF _ _ _ _ _ this q run, of 1] obtain b' where "spsc_step 2 ?b b'" "bq_consumer b' \<noteq> bq_consumer ?b"
    by auto
  with q run show ?thesis by (intro exI conjI) auto
qed

end
