(* ===== verification/MpmcQueue.thy ===== *)
theory MpmcQueue
  imports Semaphore "HOL-Library.Multiset"
begin

text \<open>
  \<open>BlockingConcurrentQueue\<close> and its semaphore (\<open>include/queue/moodycamel/blockingconcurrentqueue.h\<close>): any
  number of threads enqueue and dequeue, one object or many at a time. Each access to the shared counter and
  each call of the kernel's semaphore is a step of one thread; memory is sequentially consistent.

  The \<open>ConcurrentQueue\<close> inside is what its header documents: a bag to which an enqueue adds all its objects or
  nothing, and of which a dequeue takes some objects, perhaps none although there are some.
\<close>

section \<open>The semaphore\<close>

text \<open>
  Where a thread is that acquires up to \<open>lim\<close> (the \<open>max\<close> of the code) units: about to read the counter in \<open>tryWaitMany\<close>, with the
  units it already has; about to exchange the value it read; in the spinning loop with some turns left; about to
  exchange there; asleep in the kernel; done with so many units. \<open>tryWait\<close> and \<open>wait\<close> are the cases of one unit.
\<close>

datatype acquire_pc =
    ARead nat nat
  | ACas nat nat int
  | ASpin nat nat
  | ASpinCas nat nat int
  | ASleep nat
  | ADone nat

text \<open>What is left in the counter when up to \<open>max\<close> units are taken of \<open>oldCount\<close>.\<close>

definition newCount :: "int \<Rightarrow> nat \<Rightarrow> int" where
  "newCount oldCount lim = (if oldCount > int lim then oldCount - int lim else 0)"

text \<open>\<open>tryWaitMany\<close> met a counter that is not positive; then \<open>waitMany\<close> goes on to spin.\<close>

definition acquire_failed :: "bool \<Rightarrow> nat \<Rightarrow> nat \<Rightarrow> acquire_pc" where
  "acquire_failed blocking acc lim = (if blocking \<and> acc = 0 \<and> 0 < lim then ASpin lim SPIN else ADone acc)"

text \<open>The end of \<open>waitManyWithPartialSpinning\<close>: one unit is there, the others are not waited for.\<close>

definition acquire_more :: "nat \<Rightarrow> acquire_pc" where
  "acquire_more lim = (if 1 < lim then ARead 1 (lim - 1) else ADone 1)"

text \<open>A \<open>compare_exchange_weak\<close> may fail without a reason (\<open>spurious\<close>). \<open>None\<close> is a thread that sleeps.\<close>

fun acquire_step :: "bool \<Rightarrow> bool \<Rightarrow> acquire_pc \<Rightarrow> sema \<Rightarrow> (acquire_pc \<times> sema) option" where
  "acquire_step blocking spurious (ARead acc lim) s =
     Some (if 0 < s_count s then ACas acc lim (s_count s) else acquire_failed blocking acc lim, s)"
| "acquire_step blocking spurious (ACas acc lim old) s =
     (if s_count s = old \<and> \<not> spurious then
        Some (ADone (acc + nat (old - newCount old lim)), s\<lparr>s_count := newCount old lim\<rparr>)
      else Some (if 0 < s_count s then ACas acc lim (s_count s) else acquire_failed blocking acc lim, s))"
| "acquire_step blocking spurious (ASpin lim (Suc n)) s =
     Some (if 0 < s_count s then ASpinCas lim n (s_count s) else ASpin lim n, s)"
| "acquire_step blocking spurious (ASpinCas lim n old) s =
     (if s_count s = old then Some (ADone (nat (old - newCount old lim)), s\<lparr>s_count := newCount old lim\<rparr>)
      else Some (ASpin lim n, s))"
| "acquire_step blocking spurious (ASpin lim 0) s =
     Some (if s_count s \<le> 0 then ASleep lim else acquire_more lim, s\<lparr>s_count := s_count s - 1\<rparr>)"
| "acquire_step blocking spurious (ASleep lim) s = map_option (\<lambda>s'. (acquire_more lim, s')) (kernel_wait s)"
| "acquire_step blocking spurious (ADone n) s = None"

text \<open>The count that \<open>signal\<close> hands to the kernel.\<close>

definition toRelease :: "int \<Rightarrow> nat \<Rightarrow> int" where
  "toRelease oldCount n = (if - oldCount < int n then - oldCount else int n)"

section \<open>The queue\<close>

datatype thread_pc =
    TIdle
  | TAdd nat
  | TPost nat
  | TAcquire bool nat acquire_pc
  | TTake nat

record 'a bcq =
  c_bag :: "'a multiset"
  c_sema :: sema
  c_pc :: "nat \<Rightarrow> thread_pc"
  c_sent :: "'a multiset"
  c_got :: "'a multiset"

definition bcq_start :: "'a bcq" where
  "bcq_start = \<lparr>c_bag = {#}, c_sema = \<lparr>s_count = 0, s_kernel = 0\<rparr>, c_pc = \<lambda>t. TIdle, c_sent = {#}, c_got = {#}\<rparr>"

text \<open>
  An enqueue that the queue inside accepted: the objects are there, the signal is to come. \<open>signal\<close>: the counter
  is raised, and the kernel told of the sleepers. A turn of a dequeue's loop with \<open>n\<close> objects to go.
\<close>

definition put_objects :: "nat \<Rightarrow> 'a list \<Rightarrow> 'a bcq \<Rightarrow> 'a bcq" where
  "put_objects t xs b =
     b\<lparr>c_bag := c_bag b + mset xs, c_sent := c_sent b + mset xs, c_pc := (c_pc b)(t := TAdd (length xs))\<rparr>"

definition signal_units :: "nat \<Rightarrow> nat \<Rightarrow> 'a bcq \<Rightarrow> 'a bcq" where
  "signal_units t n b =
     (let release = toRelease (s_count (c_sema b)) n in
      b\<lparr>c_sema := (c_sema b)\<lparr>s_count := s_count (c_sema b) + int n\<rparr>,
        c_pc := (c_pc b)(t := if 0 < release then TPost (nat release) else TIdle)\<rparr>)"

definition post_unit :: "nat \<Rightarrow> nat \<Rightarrow> 'a bcq \<Rightarrow> 'a bcq" where
  "post_unit t n b =
     (if 0 < n then b\<lparr>c_sema := kernel_post (c_sema b), c_pc := (c_pc b)(t := TPost (n - 1))\<rparr>
      else b\<lparr>c_pc := (c_pc b)(t := TIdle)\<rparr>)"

definition take_objects :: "nat \<Rightarrow> nat \<Rightarrow> 'a multiset \<Rightarrow> 'a bcq \<Rightarrow> 'a bcq" where
  "take_objects t n ys b =
     b\<lparr>c_bag := c_bag b - ys, c_got := c_got b + ys, c_pc := (c_pc b)(t := TTake (n - size ys))\<rparr>"

lemmas bcq_effects = put_objects_def signal_units_def post_unit_def take_objects_def Let_def

text \<open>
  The steps of \<open>N\<close> threads. An enqueue that is refused by the queue inside changes nothing and is no step; one
  that is accepted is followed by the signal. A dequeue acquires units and then takes as many objects, trying
  again as long as it got fewer. \<open>try_dequeue\<close> and \<open>wait_dequeue\<close> have \<open>max = 1\<close>.
\<close>

inductive bcq_step :: "nat \<Rightarrow> 'a bcq \<Rightarrow> 'a bcq \<Rightarrow> bool" for N where
  put: "t < N \<Longrightarrow> c_pc b t = TIdle \<Longrightarrow> bcq_step N b (put_objects t xs b)"
| signal_add: "t < N \<Longrightarrow> c_pc b t = TAdd n \<Longrightarrow> bcq_step N b (signal_units t n b)"
| signal_post: "t < N \<Longrightarrow> c_pc b t = TPost n \<Longrightarrow> bcq_step N b (post_unit t n b)"
| call: "t < N \<Longrightarrow> c_pc b t = TIdle \<Longrightarrow>
    bcq_step N b (b\<lparr>c_pc := (c_pc b)(t := TAcquire blocking lim (ARead 0 lim))\<rparr>)"
| acquire: "t < N \<Longrightarrow> c_pc b t = TAcquire blocking lim w \<Longrightarrow> acquire_step blocking spurious w (c_sema b) = Some (w', s) \<Longrightarrow>
    bcq_step N b (b\<lparr>c_sema := s, c_pc := (c_pc b)(t := TAcquire blocking lim w')\<rparr>)"
| acquired: "t < N \<Longrightarrow> c_pc b t = TAcquire blocking lim (ADone n) \<Longrightarrow>
    bcq_step N b (b\<lparr>c_pc := (c_pc b)(t := TTake n)\<rparr>)"
| take_some: "t < N \<Longrightarrow> c_pc b t = TTake n \<Longrightarrow> 0 < n \<Longrightarrow> ys \<subseteq># c_bag b \<Longrightarrow> size ys \<le> n \<Longrightarrow>
    bcq_step N b (take_objects t n ys b)"
| take_done: "t < N \<Longrightarrow> c_pc b t = TTake 0 \<Longrightarrow> bcq_step N b (b\<lparr>c_pc := (c_pc b)(t := TIdle)\<rparr>)"

definition bcq_size_approx :: "'a bcq \<Rightarrow> int" where
  "bcq_size_approx b = availableApprox (c_sema b)"

section \<open>Units\<close>

text \<open>
  A unit is a right to take one object. It is in the counter, with a thread that has enqueued and not signalled,
  with a thread that acquired it, or owed to a thread that sleeps. A sleeper is matched by the negative part of
  the counter, by a post that is due, or by the kernel's count.
\<close>

fun acquired_units :: "acquire_pc \<Rightarrow> nat" where
  "acquired_units (ARead acc lim) = acc"
| "acquired_units (ACas acc lim old) = acc"
| "acquired_units (ASleep lim) = 1"
| "acquired_units (ADone n) = n"
| "acquired_units w = 0"

fun thread_units :: "thread_pc \<Rightarrow> nat" where
  "thread_units (TAdd n) = n"
| "thread_units (TAcquire blocking lim w) = acquired_units w"
| "thread_units (TTake n) = n"
| "thread_units p = 0"

fun thread_posts :: "thread_pc \<Rightarrow> nat" where
  "thread_posts (TPost n) = n"
| "thread_posts p = 0"

fun thread_sleeps :: "thread_pc \<Rightarrow> nat" where
  "thread_sleeps (TAcquire blocking lim (ASleep m)) = 1"
| "thread_sleeps p = 0"

text \<open>What holds of a thread on its own; it bounds the number of units by \<open>max\<close>.\<close>

fun acquire_ok :: "bool \<Rightarrow> nat \<Rightarrow> acquire_pc \<Rightarrow> bool" where
  "acquire_ok blocking lim (ARead acc m) = (acc = 0 \<and> m = lim \<or> acc = 1 \<and> 1 < lim \<and> m = lim - 1)"
| "acquire_ok blocking lim (ACas acc m old) = (0 < old \<and> (acc = 0 \<and> m = lim \<or> acc = 1 \<and> 1 < lim \<and> m = lim - 1))"
| "acquire_ok blocking lim (ASpin m n) = (m = lim \<and> 0 < lim)"
| "acquire_ok blocking lim (ASpinCas m n old) = (m = lim \<and> 0 < lim \<and> 0 < old)"
| "acquire_ok blocking lim (ASleep m) = (m = lim \<and> 0 < lim)"
| "acquire_ok blocking lim (ADone n) = (n \<le> lim \<and> (blocking \<and> 0 < lim \<longrightarrow> 0 < n))"

fun thread_ok :: "thread_pc \<Rightarrow> bool" where
  "thread_ok (TAcquire blocking lim w) = acquire_ok blocking lim w"
| "thread_ok p = True"

definition total :: "(thread_pc \<Rightarrow> nat) \<Rightarrow> nat \<Rightarrow> (nat \<Rightarrow> thread_pc) \<Rightarrow> int" where
  "total f N pc = (\<Sum>t<N. int (f (pc t)))"

lemma total_upd: "t < N \<Longrightarrow> total f N (pc(t := p)) = total f N pc - int (f (pc t)) + int (f p)"
proof -
  assume t: "t < N"
  then have "(\<Sum>i<N. int (f ((pc(t := p)) i))) = int (f p) + (\<Sum>i \<in> {..<N} - {t}. int (f ((pc(t := p)) i)))"
    by (subst sum.remove [of _ t]) auto
  also have "(\<Sum>i \<in> {..<N} - {t}. int (f ((pc(t := p)) i))) = (\<Sum>i \<in> {..<N} - {t}. int (f (pc i)))"
    by (rule sum.cong) auto
  also have "\<dots> = (\<Sum>i<N. int (f (pc i))) - int (f (pc t))" using t by (subst sum.remove [of "{..<N}" t]) auto
  finally show ?thesis by (simp add: total_def)
qed

lemma total_nonneg: "0 \<le> total f N pc"
  by (simp add: total_def sum_nonneg)

lemma total_ge: "t < N \<Longrightarrow> int (f (pc t)) \<le> total f N pc"
  unfolding total_def by (rule member_le_sum) auto

lemma total_mono: "(\<And>p. f p \<le> g p) \<Longrightarrow> total f N pc \<le> total g N pc"
  unfolding total_def by (rule sum_mono) simp

definition bcq_ok :: "nat \<Rightarrow> 'a bcq \<Rightarrow> bool" where
  "bcq_ok N b \<longleftrightarrow> c_sent b = c_got b + c_bag b \<and>
     int (size (c_bag b)) = s_count (c_sema b) + total thread_units N (c_pc b) \<and>
     int (s_kernel (c_sema b)) + total thread_posts N (c_pc b) + max 0 (- s_count (c_sema b)) = total thread_sleeps N (c_pc b) \<and>
     (\<forall>t < N. thread_ok (c_pc b t))"

lemma bcq_start_ok: "bcq_ok N bcq_start"
  by (simp add: bcq_ok_def bcq_start_def total_def)

text \<open>What one step of an acquisition does to the counter, the kernel's count and the thread.\<close>

lemma newCount_bounds: "0 < old \<Longrightarrow> 0 \<le> newCount old m \<and> newCount old m \<le> old \<and> old - newCount old m \<le> int m"
  by (simp add: newCount_def)

lemma newCount_less: "0 < old \<Longrightarrow> 0 < m \<Longrightarrow> newCount old m < old"
  by (simp add: newCount_def)

lemma acquire_step_units:
  assumes "acquire_step blocking spurious w s = Some (w', s')" and "acquire_ok blocking m w"
  shows "acquire_ok blocking m w' \<and>
    s_count s' + int (acquired_units w') = s_count s + int (acquired_units w) \<and>
    int (s_kernel s') + max 0 (- s_count s') + int (thread_sleeps (TAcquire blocking m w)) =
      int (s_kernel s) + max 0 (- s_count s) + int (thread_sleeps (TAcquire blocking m w'))"
  using assms newCount_bounds [of "s_count s" m] newCount_bounds [of "s_count s" "m - 1"] newCount_less [of "s_count s" m]
  by (cases "(blocking, spurious, w, s)" rule: acquire_step.cases)
    (auto simp: acquire_failed_def acquire_more_def kernel_wait_def split: if_splits)

section \<open>The invariant\<close>

lemma bcq_step_ok:
  assumes "bcq_step N b b'" and "bcq_ok N b"
  shows "bcq_ok N b'"
  using assms
proof cases
  case (put t xs)
  with assms(2) show ?thesis by (auto simp: bcq_ok_def total_upd bcq_effects)
next
  case (signal_add t n)
  with assms(2) show ?thesis by (auto simp: bcq_ok_def total_upd bcq_effects toRelease_def)
next
  case (signal_post t n)
  with assms(2) show ?thesis by (auto simp: bcq_ok_def total_upd bcq_effects kernel_post_def)
next
  case (call t blocking lim)
  with assms(2) show ?thesis by (auto simp: bcq_ok_def total_upd bcq_effects)
next
  case (acquire t blocking lim w spurious w' s)
  with assms(2) have "acquire_ok blocking lim w" by (auto simp: bcq_ok_def)
  from acquire_step_units [OF acquire(4) this] acquire assms(2) show ?thesis
    by (auto simp: bcq_ok_def total_upd simp del: thread_sleeps.simps)
next
  case (acquired t blocking lim n)
  with assms(2) show ?thesis by (auto simp: bcq_ok_def total_upd bcq_effects)
next
  case (take_some t n ys)
  then have "size (c_bag b - ys) = size (c_bag b) - size ys" "size ys \<le> size (c_bag b)"
    by (simp_all add: size_Diff_submset size_mset_mono)
  with assms(2) take_some show ?thesis by (auto simp: bcq_ok_def total_upd bcq_effects)
next
  case (take_done t)
  with assms(2) show ?thesis by (auto simp: bcq_ok_def total_upd bcq_effects)
qed

lemma bcq_run_ok: "(bcq_step N)\<^sup>*\<^sup>* bcq_start b \<Longrightarrow> bcq_ok N b"
  by (induction rule: rtranclp_induct) (use bcq_start_ok bcq_step_ok in blast)+

text \<open>Objects for every unit that was granted.\<close>

lemma units_cover_sleepers: "thread_sleeps p \<le> thread_units p"
  by (cases p rule: thread_sleeps.cases) auto

fun thread_takes :: "thread_pc \<Rightarrow> nat" where
  "thread_takes (TTake n) = n"
| "thread_takes p = 0"

lemma bcq_objects_there:
  assumes "bcq_ok N b"
  shows "total thread_takes N (c_pc b) \<le> int (size (c_bag b))"
proof -
  have "thread_takes p + thread_sleeps p \<le> thread_units p" for p
    by (cases p rule: thread_sleeps.cases) auto
  then have "total (\<lambda>p. thread_takes p + thread_sleeps p) N (c_pc b) \<le> total thread_units N (c_pc b)" by (rule total_mono)
  then have "total thread_takes N (c_pc b) + total thread_sleeps N (c_pc b) \<le> total thread_units N (c_pc b)"
    by (simp add: total_def sum.distrib)
  moreover have "- s_count (c_sema b) \<le> total thread_sleeps N (c_pc b)"
    using assms total_nonneg [of thread_posts N "c_pc b"] by (auto simp: bcq_ok_def)
  ultimately show ?thesis using assms by (auto simp: bcq_ok_def)
qed

lemma bcq_stuck_empty:
  assumes "bcq_ok N b" and "\<forall>t < N. c_pc b t = TIdle \<or> (\<exists>blocking lim m. c_pc b t = TAcquire blocking lim (ASleep m))"
    and "s_kernel (c_sema b) = 0" and "t < N" and "c_pc b t = TAcquire blocking lim (ASleep m)"
  shows "c_bag b = {#}"
proof -
  have "total thread_posts N (c_pc b) = 0" "total thread_units N (c_pc b) = total thread_sleeps N (c_pc b)"
    unfolding total_def using assms(2) by (auto intro!: sum.neutral sum.cong)
  moreover have "1 \<le> total thread_sleeps N (c_pc b)" using total_ge [OF assms(4), of thread_sleeps "c_pc b"] assms(5) by simp
  ultimately have "int (size (c_bag b)) = 0" using assms(1,3) by (auto simp: bcq_ok_def max_def split: if_splits)
  then show ?thesis by simp
qed

text \<open>A thread in a call has a step to take, unless it sleeps and the kernel has nothing for it.\<close>

lemma bcq_thread_runs:
  assumes ok: "bcq_ok N b" and t: "t < N" and busy: "c_pc b t \<noteq> TIdle"
    and awake: "\<not> (0 < thread_sleeps (c_pc b t) \<and> s_kernel (c_sema b) = 0)"
  shows "\<exists>b'. bcq_step N b b' \<and> c_pc b' t \<noteq> c_pc b t"
proof (cases "c_pc b t")
  case (TAdd n)
  with signal_add [OF t this] show ?thesis by (force simp: bcq_effects split: if_splits)
next
  case (TPost n)
  with signal_post [OF t this] show ?thesis by (cases n) (force simp: bcq_effects)+
next
  case (TAcquire blocking lim w)
  have go: ?thesis if "acquire_step blocking False w (c_sema b) = Some (w', s)" "w' \<noteq> w" for w' s
    using acquire [OF t TAcquire that(1)] that(2) TAcquire by force
  show ?thesis
  proof (cases "\<exists>n. w = ADone n")
    case True
    with acquired [OF t] TAcquire show ?thesis by force
  next
    case False
    then have "acquire_step blocking False w (c_sema b) \<noteq> None"
      using awake TAcquire by (cases "(blocking, False, w, c_sema b)" rule: acquire_step.cases) (auto simp: kernel_wait_def)
    then obtain w' s where st: "acquire_step blocking False w (c_sema b) = Some (w', s)" by auto
    then have "w' \<noteq> w" using False
      by (cases "(blocking, False, w, c_sema b)" rule: acquire_step.cases)
        (auto simp: acquire_failed_def acquire_more_def kernel_wait_def split: if_splits)
    with go st show ?thesis by blast
  qed
next
  case (TTake n)
  show ?thesis
  proof (cases n)
    case 0
    with take_done [OF t] TTake show ?thesis by force
  next
    case (Suc k)
    have "int n \<le> total thread_takes N (c_pc b)" using total_ge [OF t, of thread_takes "c_pc b"] TTake by simp
    with bcq_objects_there [OF ok] Suc have "c_bag b \<noteq> {#}" by auto
    then obtain x where "{#x#} \<subseteq># c_bag b" by (auto simp: multiset_nonemptyE)
    from take_some [OF t TTake _ this] Suc TTake show ?thesis by (force simp: bcq_effects)
  qed
qed (use busy in simp)

lemma bcq_size_approx_bounds:
  assumes "bcq_ok N b"
  shows "bcq_size_approx b \<le> int (size (c_bag b)) \<and>
    ((\<forall>t < N. c_pc b t = TIdle) \<longrightarrow> bcq_size_approx b = int (size (c_bag b)))"
proof -
  have "(\<forall>t < N. c_pc b t = TIdle) \<Longrightarrow> total thread_units N (c_pc b) = 0" by (simp add: total_def)
  then show ?thesis
    using assms total_nonneg [of thread_units N "c_pc b"] by (auto simp: bcq_ok_def bcq_size_approx_def availableApprox_def)
qed

section \<open>What the queue promises\<close>


text \<open>
  C16: no wake-up is lost. A thread in a call has a step to take unless it sleeps and the kernel's count is zero;
  and when all threads are idle or sleep like that, and one sleeps, the queue is empty.
\<close>

theorem concurrent_queue_wakes:
  assumes "(bcq_step N)\<^sup>*\<^sup>* bcq_start b" and "t < N" and "c_pc b t \<noteq> TIdle"
  shows "(\<exists>b'. bcq_step N b b' \<and> c_pc b' t \<noteq> c_pc b t) \<or>
    s_kernel (c_sema b) = 0 \<and> (\<exists>blocking lim m. c_pc b t = TAcquire blocking lim (ASleep m)) \<and>
    ((\<forall>u < N. c_pc b u = TIdle \<or> (\<exists>blocking lim m. c_pc b u = TAcquire blocking lim (ASleep m))) \<longrightarrow> c_bag b = {#})"
proof (cases "0 < thread_sleeps (c_pc b t) \<and> s_kernel (c_sema b) = 0")
  case True
  then obtain blocking lim m where pc: "c_pc b t = TAcquire blocking lim (ASleep m)"
    by (cases "c_pc b t" rule: thread_sleeps.cases) auto
  with True bcq_stuck_empty [OF bcq_run_ok [OF assms(1)] _ _ assms(2) pc] show ?thesis by blast
next
  case False
  with bcq_thread_runs [OF bcq_run_ok [OF assms(1)] assms(2,3)] show ?thesis by blast
qed

text \<open>
  A dequeue is granted at most \<open>max\<close> objects, and one that waits (\<open>wait_dequeue\<close>, \<open>wait_dequeue_bulk\<close>
  with \<open>max > 0\<close>) at least one, though it acquires in up to two rounds around its sleep.
\<close>

theorem waits_are_granted_in_bounds:
  assumes "(bcq_step N)\<^sup>*\<^sup>* bcq_start b" and "t < N" and "c_pc b t = TAcquire blocking lim (ADone n)"
  shows "n \<le> lim \<and> (blocking \<and> 0 < lim \<longrightarrow> 1 \<le> n)"
proof -
  have "thread_ok (c_pc b t)" using bcq_run_ok [OF assms(1)] assms(2) by (simp add: bcq_ok_def)
  then show ?thesis by (simp add: assms(3) Suc_le_eq)
qed

text \<open>A run of two threads: the first enqueues two objects, the second waits for up to three and gets two.\<close>

definition sample_queue :: "string multiset \<Rightarrow> int \<Rightarrow> thread_pc \<Rightarrow> thread_pc \<Rightarrow> string bcq" where
  "sample_queue bag c p p' = \<lparr>c_bag = bag, c_sema = \<lparr>s_count = c, s_kernel = 0\<rparr>, c_pc = (\<lambda>t. TIdle)(0 := p, 1 := p'),
     c_sent = {#''a'', ''b''#}, c_got = {#''a'', ''b''#} - bag\<rparr>"

lemma sample_run:
  "(bcq_step 2)\<^sup>*\<^sup>* bcq_start (sample_queue {#''a'', ''b''#} 0 TIdle (TAcquire True 3 (ADone 2)))"
  "(bcq_step 2)\<^sup>*\<^sup>* bcq_start (sample_queue {#} 0 TIdle TIdle)"
proof -
  let ?ab = "{#''a'', ''b''#}"
  have idle: "(\<lambda>t :: nat. TIdle)(0 := p, Suc 0 := TIdle) = (\<lambda>t. TIdle)(0 := p)" for p by auto
  have a: "bcq_step 2 bcq_start (sample_queue ?ab 0 (TAdd 2) TIdle)"
    using put [of 0 2 bcq_start "[''a'', ''b'']"] by (simp add: bcq_start_def sample_queue_def bcq_effects idle numeral_2_eq_2)
  have b: "bcq_step 2 (sample_queue ?ab 0 (TAdd 2) TIdle) (sample_queue ?ab 2 TIdle TIdle)"
    using signal_add [of 0 2 "sample_queue ?ab 0 (TAdd 2) TIdle" 2]
    by (simp add: sample_queue_def bcq_effects toRelease_def fun_upd_twist)
  have c: "bcq_step 2 (sample_queue ?ab 2 TIdle TIdle) (sample_queue ?ab 2 TIdle (TAcquire True 3 (ARead 0 3)))"
    using call [of 1 2 "sample_queue ?ab 2 TIdle TIdle" True 3] by (simp add: sample_queue_def)
  have d: "bcq_step 2 (sample_queue ?ab 2 TIdle (TAcquire True 3 (ARead 0 3))) (sample_queue ?ab 2 TIdle (TAcquire True 3 (ACas 0 3 2)))"
    using acquire [of 1 2 "sample_queue ?ab 2 TIdle (TAcquire True 3 (ARead 0 3))" True 3 "ARead 0 3" False]
    by (simp add: sample_queue_def)
  have e: "bcq_step 2 (sample_queue ?ab 2 TIdle (TAcquire True 3 (ACas 0 3 2))) (sample_queue ?ab 0 TIdle (TAcquire True 3 (ADone 2)))"
    using acquire [of 1 2 "sample_queue ?ab 2 TIdle (TAcquire True 3 (ACas 0 3 2))" True 3 "ACas 0 3 2" False]
    by (simp add: sample_queue_def newCount_def numeral_2_eq_2)
  have f: "bcq_step 2 (sample_queue ?ab 0 TIdle (TAcquire True 3 (ADone 2))) (sample_queue ?ab 0 TIdle (TTake 2))"
    using acquired [of 1 2 "sample_queue ?ab 0 TIdle (TAcquire True 3 (ADone 2))"] by (simp add: sample_queue_def)
  have g: "bcq_step 2 (sample_queue ?ab 0 TIdle (TTake 2)) (sample_queue {#} 0 TIdle (TTake 0))"
    using take_some [of 1 2 "sample_queue ?ab 0 TIdle (TTake 2)" 2 ?ab] by (simp add: sample_queue_def bcq_effects)
  have h: "bcq_step 2 (sample_queue {#} 0 TIdle (TTake 0)) (sample_queue {#} 0 TIdle TIdle)"
    using take_done [of 1 2 "sample_queue {#} 0 TIdle (TTake 0)"] by (simp add: sample_queue_def)
  from a b c d e show r: "(bcq_step 2)\<^sup>*\<^sup>* bcq_start (sample_queue ?ab 0 TIdle (TAcquire True 3 (ADone 2)))"
    by (meson rtranclp.rtrancl_into_rtrancl rtranclp.rtrancl_refl)
  from r f g h show "(bcq_step 2)\<^sup>*\<^sup>* bcq_start (sample_queue {#} 0 TIdle TIdle)"
    by (meson rtranclp.rtrancl_into_rtrancl)
qed


theorem concurrent_queue_wakes_witness:
  "\<exists>b'. bcq_step 2 (sample_queue {#''a'', ''b''#} 0 TIdle (TAcquire True 3 (ADone 2))) b' \<and> c_pc b' 1 \<noteq> TAcquire True 3 (ADone 2)"
  using concurrent_queue_wakes [OF sample_run(1), of 1] by (auto simp: sample_queue_def)

theorem waits_are_granted_in_bounds_witness:
  "c_pc (sample_queue {#''a'', ''b''#} 0 TIdle (TAcquire True 3 (ADone 2))) 1 = TAcquire True 3 (ADone 2) \<and> (2 :: nat) \<le> 3 \<and> (1 :: nat) \<le> 2"
  using waits_are_granted_in_bounds [OF sample_run(1), of 1 True 3 2] by (simp add: sample_queue_def)

end
