(* ===== verification/FreeList.thy ===== *)
theory FreeList
  imports Prelude
begin

text \<open>
  The lock-free free list of \<open>concurrentqueue.h\<close> (\<open>FreeList\<close>, \<open>FreeListNode\<close>): the stack of spare blocks that the
  producers of a \<open>ConcurrentQueue\<close> share. Any number of threads below \<open>2 ^ 31 - 2\<close> run \<open>add\<close> and \<open>try_get\<close>; every
  access to an atomic variable is a step. Nodes are naturals; memory is sequentially consistent.
\<close>

unbundle bit_operations_syntax

section \<open>The list and its threads\<close>

text \<open>
  Program points. \<open>add_knowing_refcount_is_zero\<close> is called by \<open>add\<close> (\<open>None\<close>) or by \<open>try_get\<close>, which goes on with
  the head it read last (\<open>Some head\<close>). In \<open>try_get\<close>: about to read the head; at the loop test; about to increment
  the reference count; about to read the next node; about to take the node off; about to check and to drop the two
  references; about to give back the reference.
\<close>

datatype fl_pc =
    FIdle
  | FAdd nat
  | FLoad nat "nat option option"
  | FSetNext nat "nat option" "nat option option"
  | FSetRefs nat "nat option" "nat option option"
  | FCas nat "nat option" "nat option option"
  | FUndo nat "nat option" "nat option option"
  | GLoad
  | GLoop "nat option"
  | GRef nat "32 word"
  | GNext nat
  | GCas nat "nat option"
  | GTake nat
  | GDrop nat
  | GRelease nat "nat option"

text \<open>\<open>f_owned\<close> are the nodes in the hands of the callers.\<close>

record flist =
  f_head :: "nat option"
  f_next :: "nat \<Rightarrow> nat option"
  f_refs :: "nat \<Rightarrow> 32 word"
  f_pc :: "nat \<Rightarrow> fl_pc"
  f_owned :: "nat set"

definition REFS_MASK :: "32 word" where
  "REFS_MASK = 0x7FFFFFFF"

definition SHOULD_BE_ON_FREELIST :: "32 word" where
  "SHOULD_BE_ON_FREELIST = 0x80000000"

fun after_add :: "nat option option \<Rightarrow> fl_pc" where
  "after_add None = FIdle"
| "after_add (Some head) = GLoop head"

definition goto_pc :: "nat \<Rightarrow> fl_pc \<Rightarrow> flist \<Rightarrow> flist" where
  "goto_pc t p s = s\<lparr>f_pc := (f_pc s)(t := p)\<rparr>"

definition set_refs :: "nat \<Rightarrow> 32 word \<Rightarrow> flist \<Rightarrow> flist" where
  "set_refs n r s = s\<lparr>f_refs := (f_refs s)(n := r)\<rparr>"

text \<open>One step of a thread in \<open>add\<close> or \<open>try_get\<close>.\<close>

definition fl_step :: "nat \<Rightarrow> flist \<Rightarrow> flist outcome" where
  "fl_step t s = (case f_pc s t of
     FIdle \<Rightarrow> Inr s
   | FAdd n \<Rightarrow>
       Inr (goto_pc t (if f_refs s n = 0 then FLoad n None else FIdle) (set_refs n (f_refs s n + SHOULD_BE_ON_FREELIST) s))
   | FLoad n c \<Rightarrow> Inr (goto_pc t (FSetNext n (f_head s) c) s)
   | FSetNext n h c \<Rightarrow> Inr (goto_pc t (FSetRefs n h c) (s\<lparr>f_next := (f_next s)(n := h)\<rparr>))
   | FSetRefs n h c \<Rightarrow> Inr (goto_pc t (FCas n h c) (set_refs n 1 s))
   | FCas n h c \<Rightarrow>
       if f_head s = h then Inr (goto_pc t (after_add c) (s\<lparr>f_head := Some n\<rparr>))
       else Inr (goto_pc t (FUndo n (f_head s) c) s)
   | FUndo n h c \<Rightarrow>
       Inr (goto_pc t (if f_refs s n = 1 then FSetNext n h c else after_add c)
         (set_refs n (f_refs s n + (SHOULD_BE_ON_FREELIST - 1)) s))
   | GLoad \<Rightarrow> Inr (goto_pc t (GLoop (f_head s)) s)
   | GLoop None \<Rightarrow> Inr (goto_pc t FIdle s)
   | GLoop (Some h) \<Rightarrow> Inr (goto_pc t (if f_refs s h AND REFS_MASK = 0 then GLoad else GRef h (f_refs s h)) s)
   | GRef h r \<Rightarrow>
       if f_refs s h = r then Inr (goto_pc t (GNext h) (set_refs h (r + 1) s)) else Inr (goto_pc t GLoad s)
   | GNext h \<Rightarrow> Inr (goto_pc t (GCas h (f_next s h)) s)
   | GCas h nx \<Rightarrow>
       if f_head s = Some h then Inr (goto_pc t (GTake h) (s\<lparr>f_head := nx\<rparr>))
       else Inr (goto_pc t (GRelease h (f_head s)) s)
   | GTake h \<Rightarrow>
       if f_refs s h AND SHOULD_BE_ON_FREELIST = 0 then Inr (goto_pc t (GDrop h) s) else Inl AssertFailed
   | GDrop h \<Rightarrow> Inr (goto_pc t FIdle (set_refs h (f_refs s h - 2) (s\<lparr>f_owned := insert h (f_owned s)\<rparr>)))
   | GRelease h head \<Rightarrow>
       Inr (goto_pc t (if f_refs s h = SHOULD_BE_ON_FREELIST + 1 then FLoad h (Some head) else GLoop head)
         (set_refs h (f_refs s h - 1) s)))"

text \<open>A thread outside the list calls \<open>add\<close> with a node its callers have, or \<open>try_get\<close>.\<close>

inductive freelist_step :: "nat \<Rightarrow> flist \<Rightarrow> flist \<Rightarrow> bool" for N where
  add: "t < N \<Longrightarrow> f_pc s t = FIdle \<Longrightarrow> n \<in> f_owned s \<Longrightarrow>
    freelist_step N s (goto_pc t (FAdd n) (s\<lparr>f_owned := f_owned s - {n}\<rparr>))"
| try_get: "t < N \<Longrightarrow> f_pc s t = FIdle \<Longrightarrow> freelist_step N s (goto_pc t GLoad s)"
| run: "t < N \<Longrightarrow> fl_step t s = Inr s' \<Longrightarrow> freelist_step N s s'"

definition freelist_start :: flist where
  "freelist_start = \<lparr>f_head = None, f_next = (\<lambda>n. None), f_refs = (\<lambda>n. 0), f_pc = (\<lambda>t. FIdle), f_owned = UNIV\<rparr>"

section \<open>Where a node is\<close>

text \<open>
  With the callers, on the list, flagged for the last thread that holds a reference, or in the hands of one thread
  that is adding it or has just taken it off.
\<close>

datatype place = Owned | Listed | Flagged | With nat

text \<open>The node a thread works on alone, and the node it holds a reference to.\<close>

fun works :: "fl_pc \<Rightarrow> nat option" where
  "works (FAdd n) = Some n"
| "works (FLoad n c) = Some n"
| "works (FSetNext n h c) = Some n"
| "works (FSetRefs n h c) = Some n"
| "works (FCas n h c) = Some n"
| "works (FUndo n h c) = Some n"
| "works (GTake n) = Some n"
| "works (GDrop n) = Some n"
| "works p = None"

fun holds_ref :: "fl_pc \<Rightarrow> nat option" where
  "holds_ref (GNext n) = Some n"
| "holds_ref (GCas n nx) = Some n"
| "holds_ref (GTake n) = Some n"
| "holds_ref (GDrop n) = Some n"
| "holds_ref (GRelease n h) = Some n"
| "holds_ref p = None"

text \<open>The flag, and the reference that counts for the list itself, while a thread works on the node.\<close>

fun flag_up :: "fl_pc \<Rightarrow> bool" where
  "flag_up (FLoad n c) = True"
| "flag_up (FSetNext n h c) = True"
| "flag_up (FSetRefs n h c) = True"
| "flag_up p = False"

fun list_ref :: "fl_pc \<Rightarrow> bool" where
  "list_ref (FCas n h c) = True"
| "list_ref (FUndo n h c) = True"
| "list_ref (GTake n) = True"
| "list_ref (GDrop n) = True"
| "list_ref p = False"

fun place_flag :: "place \<Rightarrow> (nat \<Rightarrow> fl_pc) \<Rightarrow> bool" where
  "place_flag Owned pc = False"
| "place_flag Listed pc = False"
| "place_flag Flagged pc = True"
| "place_flag (With t) pc = flag_up (pc t)"

fun place_refs :: "place \<Rightarrow> (nat \<Rightarrow> fl_pc) \<Rightarrow> nat" where
  "place_refs Owned pc = 0"
| "place_refs Listed pc = 1"
| "place_refs Flagged pc = 0"
| "place_refs (With t) pc = (if list_ref (pc t) then 1 else 0)"

definition held :: "nat \<Rightarrow> (nat \<Rightarrow> fl_pc) \<Rightarrow> nat \<Rightarrow> nat" where
  "held N pc n = card {t. t < N \<and> holds_ref (pc t) = Some n}"

definition refs_word :: "nat \<Rightarrow> bool \<Rightarrow> 32 word" where
  "refs_word k f = of_nat k + (if f then SHOULD_BE_ON_FREELIST else 0)"

fun chain :: "(nat \<Rightarrow> nat option) \<Rightarrow> nat option \<Rightarrow> nat list \<Rightarrow> bool" where
  "chain nxt a [] \<longleftrightarrow> a = None"
| "chain nxt a (n # ns) \<longleftrightarrow> a = Some n \<and> chain nxt (nxt n) ns"

text \<open>What a thread may rely on at each program point.\<close>

fun knows :: "nat \<Rightarrow> flist \<Rightarrow> fl_pc \<Rightarrow> bool" where
  "knows N s (FLoad n c) = (held N (f_pc s) n = 0)"
| "knows N s (FSetNext n h c) = (held N (f_pc s) n = 0)"
| "knows N s (FSetRefs n h c) = (held N (f_pc s) n = 0 \<and> f_next s n = h)"
| "knows N s (FCas n h c) = (f_next s n = h)"
| "knows N s (GRef h r) = (r AND REFS_MASK \<noteq> 0)"
| "knows N s (GCas h nx) = (f_next s h = nx)"
| "knows N s p = True"

definition fl_ok :: "nat \<Rightarrow> flist \<Rightarrow> (nat \<Rightarrow> place) \<Rightarrow> nat list \<Rightarrow> bool" where
  "fl_ok N s P L \<longleftrightarrow>
     (\<forall>t \<ge> N. f_pc s t = FIdle) \<and> (\<forall>n t. P n = With t \<longleftrightarrow> works (f_pc s t) = Some n) \<and>
     f_owned s = {n. P n = Owned} \<and> distinct L \<and> set L = {n. P n = Listed} \<and> chain (f_next s) (f_head s) L \<and>
     (\<forall>n. f_refs s n = refs_word (place_refs (P n) (f_pc s) + held N (f_pc s) n) (place_flag (P n) (f_pc s))) \<and>
     (\<forall>n. P n = Flagged \<longrightarrow> 0 < held N (f_pc s) n) \<and> (\<forall>t. knows N s (f_pc s t))"

lemma chain_unique: "chain nxt a L \<Longrightarrow> chain nxt a L' \<Longrightarrow> L = L'"
proof (induction L arbitrary: a L')
  case Nil
  then show ?case by (cases L') auto
next
  case (Cons n ns)
  then show ?case by (cases L') auto
qed

lemma chain_upd: "n \<notin> set L \<Longrightarrow> chain (nxt(n := h)) a L = chain nxt a L"
  by (induction L arbitrary: a) auto

lemma held_upd:
  assumes "t < N"
  shows "held N (pc(t := p)) n + (if holds_ref (pc t) = Some n then 1 else 0) =
    held N pc n + (if holds_ref p = Some n then 1 else 0)"
proof -
  let ?A = "{u. u < N \<and> u \<noteq> t \<and> holds_ref (pc u) = Some n}"
  have fin: "finite ?A" by simp
  have "{u. u < N \<and> holds_ref ((pc(t := p)) u) = Some n} = (if holds_ref p = Some n then insert t ?A else ?A)"
    "{u. u < N \<and> holds_ref (pc u) = Some n} = (if holds_ref (pc t) = Some n then insert t ?A else ?A)"
    using assms by auto
  then show ?thesis using fin by (simp add: held_def)
qed

lemma held_other: "t < N \<Longrightarrow> holds_ref (pc t) \<noteq> Some n \<Longrightarrow> holds_ref p \<noteq> Some n \<Longrightarrow> held N (pc(t := p)) n = held N pc n"
  using held_upd [of t N pc p n] by simp

lemma held_le: "held N pc n \<le> N"
  unfolding held_def using card_mono [of "{..<N}" "{t. t < N \<and> holds_ref (pc t) = Some n}"] by (simp add: subset_iff)

lemma held_zero: "held N pc n = 0 \<Longrightarrow> t < N \<Longrightarrow> holds_ref (pc t) \<noteq> Some n"
  unfolding held_def by auto

text \<open>The word of a node's references and flag.\<close>

lemma refs_word_nat: "k < 2 ^ 31 \<Longrightarrow> unat (refs_word k f) = k + (if f then 2 ^ 31 else 0)"
proof -
  assume k: "k < 2 ^ 31"
  have "refs_word k f = of_nat (k + (if f then 2 ^ 31 else 0))" by (simp add: refs_word_def SHOULD_BE_ON_FREELIST_def)
  moreover have "unat (of_nat (k + (if f then 2 ^ 31 else 0)) :: 32 word) = k + (if f then 2 ^ 31 else 0)"
    using k by (subst unat_of_nat) simp
  ultimately show ?thesis by simp
qed

lemma refs_word_eq: "j < 2 ^ 31 \<Longrightarrow> k < 2 ^ 31 \<Longrightarrow> refs_word j f = refs_word k g \<longleftrightarrow> j = k \<and> f = g"
proof
  assume jk: "j < 2 ^ 31" "k < 2 ^ 31" and "refs_word j f = refs_word k g"
  then have "j + (if f then 2 ^ 31 else 0) = k + (if g then 2 ^ 31 else 0)" using refs_word_nat by metis
  with jk show "j = k \<and> f = g" by (auto split: if_splits)
qed simp

lemma refs_word_consts:
  "refs_word 0 False = 0" "refs_word 1 False = 1" "refs_word 1 True = SHOULD_BE_ON_FREELIST + 1"
  by (simp_all add: refs_word_def)

lemma refs_word_tests:
  assumes "k < 2 ^ 31"
  shows "refs_word k f = 0 \<longleftrightarrow> k = 0 \<and> \<not> f" and "refs_word k f = 1 \<longleftrightarrow> k = 1 \<and> \<not> f"
    and "refs_word k f = SHOULD_BE_ON_FREELIST + 1 \<longleftrightarrow> k = 1 \<and> f"
  using refs_word_eq [OF assms, of 0 f False] refs_word_eq [OF assms, of 1 f False] refs_word_eq [OF assms, of 1 f True]
  unfolding refs_word_consts by simp_all

lemma refs_word_bits:
  assumes "k < 2 ^ 31"
  shows "refs_word k f AND REFS_MASK = 0 \<longleftrightarrow> k = 0" and "refs_word k f AND SHOULD_BE_ON_FREELIST = 0 \<longleftrightarrow> \<not> f"
proof -
  have m: "unat REFS_MASK = mask 31" by (simp add: REFS_MASK_def mask_eq_exp_minus_1)
  have "unat (refs_word k f AND REFS_MASK) = unat (refs_word k f) mod 2 ^ 31"
    unfolding unsigned_and_eq m by (simp only: flip: take_bit_eq_mask take_bit_eq_mod)
  also have "\<dots> = k" using assms by (simp add: refs_word_nat)
  finally show "refs_word k f AND REFS_MASK = 0 \<longleftrightarrow> k = 0" by (metis unat_eq_zero)
  have "unat (refs_word k f AND SHOULD_BE_ON_FREELIST) = unat (refs_word k f) AND 2 ^ 31"
    unfolding unsigned_and_eq by (simp add: SHOULD_BE_ON_FREELIST_def)
  moreover have "bit (unat (refs_word k f)) 31 \<longleftrightarrow> f"
  proof -
    have "(k + 2 ^ 31) div 2 ^ 31 = 1" using assms by (intro div_nat_eqI) simp_all
    then show ?thesis unfolding bit_iff_odd refs_word_nat [OF assms] using assms by (cases f) simp_all
  qed
  ultimately show "refs_word k f AND SHOULD_BE_ON_FREELIST = 0 \<longleftrightarrow> \<not> f"
    by (metis and_exp_eq_0_iff_not_bit unat_eq_zero)
qed

section \<open>A step changes one node\<close>

lemma flD:
  assumes "fl_ok N s P L"
  shows "t \<ge> N \<Longrightarrow> f_pc s t = FIdle" and "P n = With t \<longleftrightarrow> works (f_pc s t) = Some n"
    and "f_owned s = {n. P n = Owned}" and "distinct L" and "set L = {n. P n = Listed}" and "chain (f_next s) (f_head s) L"
    and "f_refs s n = refs_word (place_refs (P n) (f_pc s) + held N (f_pc s) n) (place_flag (P n) (f_pc s))"
    and "P n = Flagged \<Longrightarrow> 0 < held N (f_pc s) n" and "knows N s (f_pc s t)"
  using assms unfolding fl_ok_def by blast+

lemma place_refs_le: "place_refs x pc \<le> 1"
  by (cases x) auto

lemma held_bound: "N < 2 ^ 31 - 2 \<Longrightarrow> Suc (Suc (held N pc n)) < 2 ^ 31"
  using held_le [of N pc n] by linarith

definition at_node :: "nat \<Rightarrow> fl_pc \<Rightarrow> bool" where
  "at_node n p \<longleftrightarrow> works p \<in> {None, Some n} \<and> holds_ref p \<in> {None, Some n}"

lemma fl_frame:
  assumes ok: "fl_ok N s P L" and t: "t < N" and p: "at_node n (f_pc s t)" "at_node n p'"
    and pc': "f_pc s' = (f_pc s)(t := p')" and refs': "\<And>m. m \<noteq> n \<Longrightarrow> f_refs s' m = f_refs s m"
    and x: "\<And>u. x = With u \<longleftrightarrow> works (f_pc s' u) = Some n"
    and owned': "f_owned s' = (if x = Owned then insert n (f_owned s) else f_owned s - {n})"
    and list': "distinct L'" "set L' = (if x = Listed then insert n (set L) else set L - {n})" "chain (f_next s') (f_head s') L'"
    and r: "f_refs s' n = refs_word (place_refs x (f_pc s') + held N (f_pc s') n) (place_flag x (f_pc s'))"
    and fl: "x = Flagged \<Longrightarrow> 0 < held N (f_pc s') n"
    and kn: "knows N s' p'" "\<And>u. u \<noteq> t \<Longrightarrow> knows N s' (f_pc s u)"
  shows "fl_ok N s' (P(n := x)) L'"
proof -
  have works: "works (f_pc s' u) = Some m \<longleftrightarrow> works (f_pc s u) = Some m" if "m \<noteq> n" for u m
    using p that by (auto simp: pc' at_node_def)
  have held: "held N (f_pc s') m = held N (f_pc s) m" if "m \<noteq> n" for m
    unfolding pc' by (rule held_other [OF t]) (use p that in \<open>auto simp: at_node_def\<close>)
  have refs: "place_refs (P m) (f_pc s') = place_refs (P m) (f_pc s)"
    and flag: "place_flag (P m) (f_pc s') = place_flag (P m) (f_pc s)" if "m \<noteq> n" for m
  proof -
    have "P m \<noteq> With t" using flD(2) [OF ok, of m t] p that by (auto simp: at_node_def)
    then show "place_refs (P m) (f_pc s') = place_refs (P m) (f_pc s)" "place_flag (P m) (f_pc s') = place_flag (P m) (f_pc s)"
      by (cases "P m"; simp add: pc')+
  qed
  show ?thesis
    unfolding fl_ok_def
  proof (intro conjI allI impI)
    fix u assume "N \<le> u"
    with flD(1) [OF ok] t show "f_pc s' u = FIdle" by (simp add: pc')
  next
    fix m u show "(P(n := x)) m = With u \<longleftrightarrow> works (f_pc s' u) = Some m"
      using x [of u] works [of m u] flD(2) [OF ok, of m u] by (cases "m = n") simp_all
  next
    fix m show "f_refs s' m = refs_word (place_refs ((P(n := x)) m) (f_pc s') + held N (f_pc s') m) (place_flag ((P(n := x)) m) (f_pc s'))"
      using r refs' refs flag held flD(7) [OF ok, of m] by (cases "m = n") simp_all
  next
    fix m assume "(P(n := x)) m = Flagged"
    with fl held flD(8) [OF ok, of m] show "0 < held N (f_pc s') m" by (cases "m = n") simp_all
  next
    fix u show "knows N s' (f_pc s' u)" using kn by (cases "u = t") (simp_all add: pc')
  qed (use owned' list' flD(3,5) [OF ok] in auto)
qed

text \<open>A step that leaves memory alone, and what other threads know of a node nobody else works on.\<close>

lemma knows_mono:
  assumes "knows N s q" and "f_next s' = f_next s" and "\<And>m. works q = Some m \<Longrightarrow> held N (f_pc s') m \<le> held N (f_pc s) m"
  shows "knows N s' q"
  using assms by (cases q) auto

lemma goto_pc_simps [simp]:
  "f_pc (goto_pc t p s) = (f_pc s)(t := p)" "f_head (goto_pc t p s) = f_head s" "f_next (goto_pc t p s) = f_next s"
  "f_refs (goto_pc t p s) = f_refs s" "f_owned (goto_pc t p s) = f_owned s"
  by (simp_all add: goto_pc_def)

lemma set_refs_simps [simp]:
  "f_pc (set_refs n r s) = f_pc s" "f_head (set_refs n r s) = f_head s" "f_next (set_refs n r s) = f_next s"
  "f_refs (set_refs n r s) = (f_refs s)(n := r)" "f_owned (set_refs n r s) = f_owned s"
  by (simp_all add: set_refs_def)

lemma works_alone: "fl_ok N s P L \<Longrightarrow> works (f_pc s t) = Some n \<Longrightarrow> u \<noteq> t \<Longrightarrow> works (f_pc s u) \<noteq> Some n"
  using flD(2) [of N s P L n t] flD(2) [of N s P L n u] by auto

text \<open>Steps that move a thread and leave its node where it is.\<close>

lemma fl_stays:
  assumes ok: "fl_ok N s P L" and t: "t < N" and p: "at_node n (f_pc s t)" "at_node n p'"
    and same: "works p' = works (f_pc s t)" "holds_ref p' = holds_ref (f_pc s t)"
    and phase: "works p' = None \<or> flag_up p' = flag_up (f_pc s t) \<and> list_ref p' = list_ref (f_pc s t)"
    and kn: "knows N (goto_pc t p' s) p'"
  shows "fl_ok N (goto_pc t p' s) P L"
proof -
  have held: "held N ((f_pc s)(t := p')) m = held N (f_pc s) m" for m
    using held_upd [OF t, of "f_pc s" p' m] same(2) by simp
  have w: "P n = With u \<longleftrightarrow> works (f_pc (goto_pc t p' s) u) = Some n" for u
    using flD(2) [OF ok, of n u] same(1) by simp
  have "place_refs (P n) (f_pc (goto_pc t p' s)) = place_refs (P n) (f_pc s) \<and>
      place_flag (P n) (f_pc (goto_pc t p' s)) = place_flag (P n) (f_pc s)"
    using phase w [of t] by (cases "P n") auto
  then have "fl_ok N (goto_pc t p' s) (P(n := P n)) L"
    using flD(3-6) [OF ok] flD(7,8) [OF ok, of n] kn w
    by (intro fl_frame [OF ok t p]) (auto simp: held intro: knows_mono flD(9) [OF ok])
  then show ?thesis by simp
qed

definition fl_inv :: "nat \<Rightarrow> flist \<Rightarrow> bool" where
  "fl_inv N s \<longleftrightarrow> (\<exists>P L. fl_ok N s P L)"

lemma fl_invI: "fl_ok N s P L \<Longrightarrow> fl_inv N s"
  unfolding fl_inv_def by blast

text \<open>Steps that change the references of a node that stays on the list or off it.\<close>

lemma held_same: "t < N \<Longrightarrow> holds_ref p' = holds_ref (pc t) \<Longrightarrow> held N (pc(t := p')) m = held N pc m"
  using held_upd [of t N pc p' m] by simp

lemma fl_count:
  assumes ok: "fl_ok N s P L" and t: "t < N" and p: "at_node n (f_pc s t)" "at_node n p'"
    and x: "\<And>u. x = With u \<longleftrightarrow> works (((f_pc s)(t := p')) u) = Some n"
    and xp: "x = Listed \<longleftrightarrow> P n = Listed" "x = Owned \<longleftrightarrow> P n = Owned"
    and r: "r = refs_word (place_refs x ((f_pc s)(t := p')) + held N ((f_pc s)(t := p')) n) (place_flag x ((f_pc s)(t := p')))"
    and fl: "x = Flagged \<Longrightarrow> 0 < held N ((f_pc s)(t := p')) n" and kn: "knows N (goto_pc t p' (set_refs n r s)) p'"
    and others: "held N ((f_pc s)(t := p')) n \<le> held N (f_pc s) n \<or> (\<forall>u. u \<noteq> t \<longrightarrow> works (f_pc s u) = Some n \<longrightarrow> \<not> flag_up (f_pc s u))"
  shows "fl_inv N (goto_pc t p' (set_refs n r s))"
proof -
  let ?s = "goto_pc t p' (set_refs n r s)"
  have held: "held N ((f_pc s)(t := p')) m = held N (f_pc s) m" if "m \<noteq> n" for m
    by (rule held_other [OF t]) (use p that in \<open>auto simp: at_node_def\<close>)
  have kn': "knows N ?s (f_pc s u)" if u: "u \<noteq> t" for u
  proof (cases "works (f_pc s u) = Some n \<and> flag_up (f_pc s u)")
    case True
    with others u have "held N ((f_pc s)(t := p')) n \<le> held N (f_pc s) n" by blast
    with held show ?thesis by (intro knows_mono [OF flD(9) [OF ok, of u]]) (metis goto_pc_simps(1,3) set_refs_simps(1,3) order_refl)+
  next
    case False
    with held flD(9) [OF ok, of u] show ?thesis by (cases "f_pc s u") auto
  qed
  have "fl_ok N ?s (P(n := x)) L"
    by (rule fl_frame [OF ok t p]) (use x xp r fl kn kn' flD(3-6) [OF ok] in auto)
  then show ?thesis by (rule fl_invI)
qed

lemma refs_word_one: "refs_word (Suc 0) False = 1"
  by (simp add: refs_word_def)

lemma refs_word_moves:
  "refs_word k False + SHOULD_BE_ON_FREELIST = refs_word k True"
  "refs_word (Suc k) False + (SHOULD_BE_ON_FREELIST - 1) = refs_word k True"
  "refs_word k f + 1 = refs_word (Suc k) f" "refs_word (Suc k) f - 1 = refs_word k f"
  "refs_word (Suc (Suc k)) f - 2 = refs_word k f"
  by (simp_all add: refs_word_def)

lemma step_FAdd:
  assumes ok: "fl_ok N s P L" and t: "t < N" and N: "N < 2 ^ 31 - 2" and pc: "f_pc s t = FAdd n"
  shows "\<exists>s'. fl_step t s = Inr s' \<and> fl_inv N s'"
proof -
  have w: "P n = With t" using flD(2) [OF ok, of n t] pc by simp
  let ?k = "held N (f_pc s) n"
  have r: "f_refs s n = refs_word ?k False" using flD(7) [OF ok, of n] w pc by simp
  have z: "f_refs s n = 0 \<longleftrightarrow> ?k = 0" using held_bound [OF N, of "f_pc s" n] refs_word_tests(1) [of ?k False] r by simp
  let ?p = "if f_refs s n = 0 then FLoad n None else FIdle" and ?x = "if f_refs s n = 0 then With t else Flagged"
  have "fl_inv N (goto_pc t ?p (set_refs n (f_refs s n + SHOULD_BE_ON_FREELIST) s))"
    by (rule fl_count [OF ok t, where x = ?x])
      (use w works_alone [OF ok, of t n] z pc in \<open>auto simp: at_node_def r refs_word_moves held_same [OF t]\<close>)
  then show ?thesis by (simp add: fl_step_def pc)
qed

lemma step_FSetRefs:
  assumes ok: "fl_ok N s P L" and t: "t < N" and pc: "f_pc s t = FSetRefs n h c"
  shows "\<exists>s'. fl_step t s = Inr s' \<and> fl_inv N s'"
proof -
  have w: "P n = With t" using flD(2) [OF ok, of n t] pc by simp
  have k: "held N (f_pc s) n = 0" "f_next s n = h" using flD(9) [OF ok, of t] pc by simp_all
  have "fl_inv N (goto_pc t (FCas n h c) (set_refs n 1 s))"
    by (rule fl_count [OF ok t, where x = "With t"])
      (use w works_alone [OF ok, of t n] k pc in \<open>auto simp: at_node_def refs_word_one held_same [OF t]\<close>)
  then show ?thesis by (simp add: fl_step_def pc)
qed

lemma after_add_free [simp]: "works (after_add c) = None" "holds_ref (after_add c) = None" "knows N s (after_add c)"
  by (cases c; simp)+

lemma step_FUndo:
  assumes ok: "fl_ok N s P L" and t: "t < N" and N: "N < 2 ^ 31 - 2" and pc: "f_pc s t = FUndo n h c"
  shows "\<exists>s'. fl_step t s = Inr s' \<and> fl_inv N s'"
proof -
  have w: "P n = With t" using flD(2) [OF ok, of n t] pc by simp
  let ?k = "held N (f_pc s) n"
  have r: "f_refs s n = refs_word (Suc ?k) False" using flD(7) [OF ok, of n] w pc by simp
  have z: "f_refs s n = 1 \<longleftrightarrow> ?k = 0" using held_bound [OF N, of "f_pc s" n] refs_word_tests(2) [of "Suc ?k" False] r by simp
  let ?p = "if f_refs s n = 1 then FSetNext n h c else after_add c" and ?x = "if f_refs s n = 1 then With t else Flagged"
  have "fl_inv N (goto_pc t ?p (set_refs n (f_refs s n + (SHOULD_BE_ON_FREELIST - 1)) s))"
    by (rule fl_count [OF ok t, where x = ?x])
      (use w works_alone [OF ok, of t n] z pc in \<open>auto simp: at_node_def r refs_word_moves held_same [OF t]\<close>)
  then show ?thesis by (simp add: fl_step_def pc)
qed

lemma step_moves:
  assumes ok: "fl_ok N s P L" and t: "t < N" and N: "N < 2 ^ 31 - 2"
    and pc: "f_pc s t \<in> {FLoad n c, GNext n, GTake n} \<or> (\<exists>a. f_pc s t \<in> {GLoop a, GLoad, FIdle})"
  shows "\<exists>s'. fl_step t s = Inr s' \<and> fl_inv N s'"
proof -
  note kn = flD(9) [OF ok, of t]
  have stay: "fl_inv N (goto_pc t p' s)"
    if "at_node n (f_pc s t)" "at_node n p'" "works p' = works (f_pc s t)" "holds_ref p' = holds_ref (f_pc s t)"
      "works p' = None \<or> flag_up p' = flag_up (f_pc s t) \<and> list_ref p' = list_ref (f_pc s t)" "knows N (goto_pc t p' s) p'" for p'
    using fl_stays [OF ok t that] by (rule fl_invI)
  show ?thesis
  proof (cases "f_pc s t")
    case (GLoop a)
    then show ?thesis by (cases a) (auto simp: fl_step_def at_node_def intro!: stay)
  next
    case (GTake m)
    then have "P n = With t" "m = n" using pc flD(2) [OF ok, of n t] by auto
    then have "f_refs s n AND SHOULD_BE_ON_FREELIST = 0"
      using flD(7) [OF ok, of n] held_bound [OF N, of "f_pc s" n] GTake by (simp add: refs_word_bits)
    with GTake \<open>m = n\<close> show ?thesis by (auto simp: fl_step_def at_node_def intro!: stay)
  qed (use pc kn in \<open>auto simp: fl_step_def at_node_def held_same [OF t] intro!: stay exI [of _ s] fl_invI [OF ok]\<close>)
qed

lemma step_FSetNext:
  assumes ok: "fl_ok N s P L" and t: "t < N" and pc: "f_pc s t = FSetNext n h c"
  shows "\<exists>s'. fl_step t s = Inr s' \<and> fl_inv N s'"
proof -
  have w: "P n = With t" using flD(2) [OF ok, of n t] pc by simp
  have k: "held N (f_pc s) n = 0" using flD(9) [OF ok, of t] pc by simp
  let ?s = "goto_pc t (FSetRefs n h c) (s\<lparr>f_next := (f_next s)(n := h)\<rparr>)"
  have held: "held N ((f_pc s)(t := FSetRefs n h c)) m = held N (f_pc s) m" for m by (rule held_same [OF t]) (simp add: pc)
  have "knows N ?s (f_pc s u)" if u: "u \<noteq> t" for u
  proof -
    have "holds_ref (f_pc s u) \<noteq> Some n"
      using held_zero [OF k, of u] flD(1) [OF ok, of u] by (cases "u < N") auto
    with flD(9) [OF ok, of u] works_alone [OF ok, of t n u] u pc show ?thesis by (cases "f_pc s u") (auto simp: held)
  qed
  then have "fl_ok N ?s (P(n := With t)) L"
    by (intro fl_frame [OF ok t])
      (use flD(3-6) [OF ok] flD(7) [OF ok, of n] w k pc works_alone [OF ok, of t n] in \<open>auto simp: at_node_def held chain_upd\<close>)
  then show ?thesis by (auto simp: fl_step_def pc intro: fl_invI)
qed

lemma step_FCas:
  assumes ok: "fl_ok N s P L" and t: "t < N" and pc: "f_pc s t = FCas n h c"
  shows "\<exists>s'. fl_step t s = Inr s' \<and> fl_inv N s'"
proof (cases "f_head s = h")
  case False
  then have "fl_ok N (goto_pc t (FUndo n (f_head s) c) s) P L" by (intro fl_stays [OF ok t]) (auto simp: at_node_def pc)
  with False show ?thesis by (auto simp: fl_step_def pc intro: fl_invI)
next
  case True
  have w: "P n = With t" using flD(2) [OF ok, of n t] pc by simp
  have nx: "f_next s n = f_head s" using flD(9) [OF ok, of t] pc True by simp
  let ?s = "goto_pc t (after_add c) (s\<lparr>f_head := Some n\<rparr>)"
  have held: "held N ((f_pc s)(t := after_add c)) m = held N (f_pc s) m" for m by (rule held_same [OF t]) (simp add: pc)
  have "fl_ok N ?s (P(n := Listed)) (n # L)"
    by (rule fl_frame [OF ok t])
      (use flD(3-6) [OF ok] flD(7) [OF ok, of n] w nx pc works_alone [OF ok, of t n] in
        \<open>auto simp: at_node_def held intro: knows_mono [OF flD(9) [OF ok]]\<close>)
  with True show ?thesis by (auto simp: fl_step_def pc intro: fl_invI)
qed

lemma step_GRef:
  assumes ok: "fl_ok N s P L" and t: "t < N" and N: "N < 2 ^ 31 - 2" and pc: "f_pc s t = GRef n r"
  shows "\<exists>s'. fl_step t s = Inr s' \<and> fl_inv N s'"
proof (cases "f_refs s n = r")
  case False
  then have "fl_ok N (goto_pc t GLoad s) P L" by (intro fl_stays [OF ok t]) (auto simp: at_node_def pc)
  with False show ?thesis by (auto simp: fl_step_def pc intro: fl_invI)
next
  case True
  let ?k = "place_refs (P n) (f_pc s) + held N (f_pc s) n" and ?f = "place_flag (P n) (f_pc s)"
  have refs: "f_refs s n = refs_word ?k ?f" using flD(7) [OF ok, of n] .
  have "?k < 2 ^ 31" using held_bound [OF N, of "f_pc s" n] place_refs_le [of "P n" "f_pc s"] by linarith
  then have k: "?k \<noteq> 0" using flD(9) [OF ok, of t] pc True refs refs_word_bits(1) [of ?k ?f] by simp
  have notw: "P n \<noteq> With t" using flD(2) [OF ok, of n t] pc by simp
  have same: "place_refs (P n) ((f_pc s)(t := GNext n)) = place_refs (P n) (f_pc s)"
    "place_flag (P n) ((f_pc s)(t := GNext n)) = place_flag (P n) (f_pc s)"
    using notw by (cases "P n"; simp)+
  have held: "held N ((f_pc s)(t := GNext n)) n = Suc (held N (f_pc s) n)" using held_upd [OF t, of "f_pc s" "GNext n" n] pc by simp
  have alone: "\<not> flag_up (f_pc s u)" if "works (f_pc s u) = Some n" for u
  proof
    assume f: "flag_up (f_pc s u)"
    with that flD(9) [OF ok, of u] have "held N (f_pc s) n = 0" by (cases "f_pc s u") auto
    moreover have "place_refs (P n) (f_pc s) = 0"
      using f that flD(2) [OF ok, of n u] by (cases "f_pc s u") auto
    ultimately show False using k by simp
  qed
  have "fl_inv N (goto_pc t (GNext n) (set_refs n (r + 1) s))"
    by (rule fl_count [OF ok t, where x = "P n"])
      (use flD(2) [OF ok, of n] flD(8) [OF ok, of n] alone pc in
        \<open>auto simp: at_node_def refs refs_word_moves same held simp flip: True\<close>)
  with True show ?thesis by (simp add: fl_step_def pc)
qed

lemma step_GCas:
  assumes ok: "fl_ok N s P L" and t: "t < N" and pc: "f_pc s t = GCas n nx"
  shows "\<exists>s'. fl_step t s = Inr s' \<and> fl_inv N s'"
proof (cases "f_head s = Some n")
  case False
  then have "fl_ok N (goto_pc t (GRelease n (f_head s)) s) P L" by (intro fl_stays [OF ok t]) (auto simp: at_node_def pc)
  with False show ?thesis by (auto simp: fl_step_def pc intro: fl_invI)
next
  case True
  have nx: "f_next s n = nx" using flD(9) [OF ok, of t] pc by simp
  obtain L1 where L: "L = n # L1" "chain (f_next s) nx L1" using flD(6) [OF ok] True nx by (cases L) auto
  then have w: "P n = Listed" using flD(5) [OF ok] by auto
  let ?s = "goto_pc t (GTake n) (s\<lparr>f_head := nx\<rparr>)"
  have held: "held N ((f_pc s)(t := GTake n)) m = held N (f_pc s) m" for m by (rule held_same [OF t]) (simp add: pc)
  have "fl_ok N ?s (P(n := With t)) L1"
    by (rule fl_frame [OF ok t])
      (use flD(3-5) [OF ok] flD(7) [OF ok, of n] flD(2) [OF ok, of n] w L pc in
        \<open>auto simp: at_node_def held intro: knows_mono [OF flD(9) [OF ok]]\<close>)
  with True show ?thesis by (auto simp: fl_step_def pc intro: fl_invI)
qed

lemma step_GDrop:
  assumes ok: "fl_ok N s P L" and t: "t < N" and pc: "f_pc s t = GDrop n"
  shows "\<exists>s'. fl_step t s = Inr s' \<and> fl_inv N s'"
proof -
  have w: "P n = With t" using flD(2) [OF ok, of n t] pc by simp
  let ?s = "goto_pc t FIdle (set_refs n (f_refs s n - 2) (s\<lparr>f_owned := insert n (f_owned s)\<rparr>))"
  have held: "held N (f_pc s) n = Suc (held N ((f_pc s)(t := FIdle)) n)"
    using held_upd [OF t, of "f_pc s" FIdle n] pc by simp
  have le: "held N ((f_pc s)(t := FIdle)) m \<le> held N (f_pc s) m" for m using held_upd [OF t, of "f_pc s" FIdle m] by simp
  have r: "f_refs s n = refs_word (Suc (Suc (held N ((f_pc s)(t := FIdle)) n))) False"
    using flD(7) [OF ok, of n] w pc held by simp
  have "fl_ok N ?s (P(n := Owned)) L"
    by (rule fl_frame [OF ok t])
      (use flD(3-6) [OF ok] w pc works_alone [OF ok, of t n] in
        \<open>auto simp: at_node_def r refs_word_moves le intro: knows_mono [OF flD(9) [OF ok]]\<close>)
  then show ?thesis by (auto simp: fl_step_def pc intro: fl_invI)
qed

lemma step_GRelease:
  assumes ok: "fl_ok N s P L" and t: "t < N" and N: "N < 2 ^ 31 - 2" and pc: "f_pc s t = GRelease n h"
  shows "\<exists>s'. fl_step t s = Inr s' \<and> fl_inv N s'"
proof -
  let ?last = "f_refs s n = SHOULD_BE_ON_FREELIST + 1"
  let ?p = "if ?last then FLoad n (Some h) else GLoop h" and ?x = "if ?last then With t else P n"
  let ?k = "place_refs (P n) (f_pc s) + held N (f_pc s) n" and ?f = "place_flag (P n) (f_pc s)"
  have refs: "f_refs s n = refs_word ?k ?f" using flD(7) [OF ok, of n] .
  have "?k < 2 ^ 31" using held_bound [OF N, of "f_pc s" n] place_refs_le [of "P n" "f_pc s"] by linarith
  then have last: "?last \<longleftrightarrow> ?k = 1 \<and> ?f" unfolding refs by (rule refs_word_tests(3))
  have held: "held N (f_pc s) n = Suc (held N ((f_pc s)(t := p')) n)" if "holds_ref p' = None" for p'
    using held_upd [OF t, of "f_pc s" p' n] pc that by simp
  have notw: "P n \<noteq> With t" using flD(2) [OF ok, of n t] pc by simp
  have flagged: "P n = Flagged" if "?last"
  proof (cases "P n")
    case (With u)
    then have "works (f_pc s u) = Some n" "flag_up (f_pc s u)" using flD(2) [OF ok, of n u] that last by auto
    with flD(9) [OF ok, of u] have "held N (f_pc s) n = 0" by (cases "f_pc s u") auto
    with held [of FIdle] show ?thesis by simp
  qed (use that last in auto)
  have same: "place_refs (P n) ((f_pc s)(t := p')) = place_refs (P n) (f_pc s)"
    "place_flag (P n) ((f_pc s)(t := p')) = place_flag (P n) (f_pc s)" for p'
    using notw by (cases "P n"; simp)+
  have more: "0 < held N ((f_pc s)(t := GLoop h)) n" if "\<not> ?last" "P n = Flagged"
  proof -
    have "held N (f_pc s) n \<noteq> 1" using that last by simp
    moreover have "held N (f_pc s) n = Suc (held N ((f_pc s)(t := GLoop h)) n)" using held [of "GLoop h"] by simp
    ultimately show ?thesis by linarith
  qed
  have "fl_inv N (goto_pc t ?p (set_refs n (f_refs s n - 1) s))"
  proof (cases "?last")
    case True
    then have "?k = 1" "P n = Flagged" using last flagged by blast+
    then have "held N (f_pc s) n = 1" by simp
    then have k: "held N ((f_pc s)(t := FLoad n (Some h))) n = 0" using held [of "FLoad n (Some h)"] by simp
    have "f_refs s n - 1 = refs_word 0 True"
      using refs_word_moves(4) [of 0 True] True by (simp add: refs_word_def)
    then have "fl_inv N (goto_pc t (FLoad n (Some h)) (set_refs n (f_refs s n - 1) s))"
      using \<open>P n = Flagged\<close> k flD(2) [OF ok, of n]
      by (intro fl_count [OF ok t, where x = "With t"]) (auto simp: at_node_def pc)
    with True show ?thesis by simp
  next
    case False
    then have "held N (f_pc s) n = Suc (held N ((f_pc s)(t := GLoop h)) n)" using held [of "GLoop h"] by simp
    moreover from this have "refs_word ?k ?f - 1 = refs_word (place_refs (P n) (f_pc s) + held N ((f_pc s)(t := GLoop h)) n) ?f"
      using refs_word_moves(4) [of "place_refs (P n) (f_pc s) + held N ((f_pc s)(t := GLoop h)) n"] by simp
    ultimately show ?thesis using False more flD(2) [OF ok, of n]
      by (intro fl_count [OF ok t, where x = "P n"]) (auto simp: at_node_def pc refs same)
  qed
  then show ?thesis by (simp add: fl_step_def pc)
qed

lemma fl_step_ok:
  assumes inv: "fl_inv N s" and t: "t < N" and N: "N < 2 ^ 31 - 2"
  shows "\<exists>s'. fl_step t s = Inr s' \<and> fl_inv N s'"
proof -
  obtain P L where ok: "fl_ok N s P L" using inv by (auto simp: fl_inv_def)
  show ?thesis
    by (cases "f_pc s t")
      (use step_moves [OF ok t N] step_FAdd [OF ok t N] step_FSetNext [OF ok t] step_FSetRefs [OF ok t] step_FCas [OF ok t]
        step_FUndo [OF ok t N] step_GRef [OF ok t N] step_GCas [OF ok t] step_GDrop [OF ok t] step_GRelease [OF ok t N] in auto)
qed

lemma fl_calls_ok:
  assumes inv: "fl_inv N s" and t: "t < N" and pc: "f_pc s t = FIdle"
  shows "n \<in> f_owned s \<Longrightarrow> fl_inv N (goto_pc t (FAdd n) (s\<lparr>f_owned := f_owned s - {n}\<rparr>))"
    and "fl_inv N (goto_pc t GLoad s)"
proof -
  obtain P L where ok: "fl_ok N s P L" using inv by (auto simp: fl_inv_def)
  show "fl_inv N (goto_pc t GLoad s)" using fl_stays [OF ok t, of 0 GLoad] by (simp add: at_node_def pc fl_invI)
  assume n: "n \<in> f_owned s"
  then have w: "P n = Owned" using flD(3) [OF ok] by simp
  have held: "held N ((f_pc s)(t := FAdd n)) m = held N (f_pc s) m" for m by (rule held_same [OF t]) (simp add: pc)
  let ?s = "goto_pc t (FAdd n) (s\<lparr>f_owned := f_owned s - {n}\<rparr>)"
  have "fl_ok N ?s (P(n := With t)) L"
    by (rule fl_frame [OF ok t])
      (use flD(3-6) [OF ok] flD(7) [OF ok, of n] flD(2) [OF ok, of n] w pc in
        \<open>auto simp: at_node_def held intro: knows_mono [OF flD(9) [OF ok]]\<close>)
  then show "fl_inv N ?s" by (rule fl_invI)
qed

lemma freelist_step_ok: "freelist_step N s s' \<Longrightarrow> fl_inv N s \<Longrightarrow> N < 2 ^ 31 - 2 \<Longrightarrow> fl_inv N s'"
  by (induction rule: freelist_step.induct) (use fl_calls_ok fl_step_ok in fastforce)+

lemma freelist_start_ok: "fl_inv N freelist_start"
  by (rule fl_invI [of _ _ "\<lambda>n. Owned" "[]"])
    (simp add: fl_ok_def freelist_start_def held_def refs_word_consts)

lemma freelist_run_ok: "(freelist_step N)\<^sup>*\<^sup>* freelist_start s \<Longrightarrow> N < 2 ^ 31 - 2 \<Longrightarrow> fl_inv N s"
  by (induction rule: rtranclp_induct) (use freelist_start_ok freelist_step_ok in blast)+

section \<open>The properties\<close>

text \<open>A thread that runs alone for \<open>k\<close> steps.\<close>

fun fl_alone :: "nat \<Rightarrow> nat \<Rightarrow> flist \<Rightarrow> flist outcome" where
  "fl_alone 0 t s = Inr s"
| "fl_alone (Suc k) t s = bind_outcome (fl_step t s) (fl_alone k t)"

lemma fl_alone_run: "fl_alone k t s = Inr s' \<Longrightarrow> t < N \<Longrightarrow> (freelist_step N)\<^sup>*\<^sup>* s s'"
  by (induction k arbitrary: s)
    (auto simp: bind_outcome_eq_Inr intro: converse_rtranclp_into_rtranclp dest: freelist_step.run)

text \<open>
  C11: whatever the interleaving, the assertion of \<open>try_get\<close> holds, and a node that \<open>try_get\<close> is about to return is
  not on the list, not with any caller, and no other thread is adding it or returning it.
\<close>

theorem free_list_exclusive:
  assumes "(freelist_step N)\<^sup>*\<^sup>* freelist_start s" and "N < 2 ^ 31 - 2" and "t < N"
  shows "(\<exists>s'. fl_step t s = Inr s') \<and>
    (f_pc s t = GDrop n \<longrightarrow> n \<notin> f_owned s \<and> (\<forall>u. u \<noteq> t \<longrightarrow> works (f_pc s u) \<noteq> Some n) \<and>
      (\<exists>L. chain (f_next s) (f_head s) L \<and> distinct L \<and> n \<notin> set L))"
proof -
  have inv: "fl_inv N s" by (rule freelist_run_ok [OF assms(1,2)])
  then obtain P L where ok: "fl_ok N s P L" by (auto simp: fl_inv_def)
  have "P n = With t" if "f_pc s t = GDrop n" using that flD(2) [OF ok, of n t] by simp
  with flD(3-6) [OF ok] works_alone [OF ok, of t n] fl_step_ok [OF inv assms(3,2)] show ?thesis by auto
qed

text \<open>
  C12: no node is lost or twice on the list: when no thread is inside, the nodes that the callers do not have are
  linked from the head, each once, with reference count 1; then \<open>try_get\<close> gives the first of them, or a null
  pointer when there is none.
\<close>

theorem free_list_keeps_nodes:
  assumes "(freelist_step N)\<^sup>*\<^sup>* freelist_start s" and "N < 2 ^ 31 - 2" and "\<forall>t. f_pc s t = FIdle"
  shows "\<exists>L. chain (f_next s) (f_head s) L \<and> distinct L \<and> set L = - f_owned s \<and>
    (\<forall>n. f_refs s n = (if n \<in> set L then 1 else 0)) \<and>
    (case L of
       [] \<Rightarrow> fl_alone 2 t (goto_pc t GLoad s) = Inr s
     | n # ns \<Rightarrow> \<exists>s'. fl_alone 7 t (goto_pc t GLoad s) = Inr s' \<and> f_owned s' = insert n (f_owned s) \<and>
         chain (f_next s') (f_head s') ns)"
proof -
  obtain P L where ok: "fl_ok N s P L" using freelist_run_ok [OF assms(1,2)] by (auto simp: fl_inv_def)
  have P: "P n = Owned \<or> P n = Listed" for n
    using flD(2) [OF ok, of n] flD(8) [OF ok, of n] assms(3) by (cases "P n") (auto simp: held_def)
  have own: "set L = - f_owned s" using P flD(3,5) [OF ok] by fastforce
  have refs: "f_refs s n = (if n \<in> set L then 1 else 0)" for n
    using P [of n] flD(5) [OF ok] flD(7) [OF ok, of n] assms(3) by (auto simp: held_def refs_word_consts refs_word_one)
  have "case L of
       [] \<Rightarrow> fl_alone 2 t (goto_pc t GLoad s) = Inr s
     | n # ns \<Rightarrow> \<exists>s'. fl_alone 7 t (goto_pc t GLoad s) = Inr s' \<and> f_owned s' = insert n (f_owned s) \<and>
         chain (f_next s') (f_head s') ns"
  proof (cases L)
    case Nil
    then have "f_head s = None" using flD(6) [OF ok] by simp
    moreover have "(f_pc s)(t := FIdle) = f_pc s" using assms(3) by auto
    ultimately show ?thesis using Nil by (simp add: numeral_2_eq_2 fl_step_def goto_pc_def)
  next
    case (Cons n ns)
    then have c: "f_head s = Some n" "chain (f_next s) (f_next s n) ns" "f_refs s n = 1" using flD(6) [OF ok] refs by auto
    then show ?thesis
      using Cons by (auto simp: numeral_nat fl_step_def goto_pc_def set_refs_def REFS_MASK_def SHOULD_BE_ON_FREELIST_def)
  qed
  with flD(4,6) [OF ok] own refs show ?thesis by blast
qed

text \<open>One thread adds a node, the other gets it back.\<close>

definition sample_add :: flist where
  "sample_add = \<lparr>f_head = Some 5, f_next = (\<lambda>n. None), f_refs = (\<lambda>n. 0)(5 := 1), f_pc = (\<lambda>t. FIdle), f_owned = - {5}\<rparr>"

lemma sample_adds: "(freelist_step 2)\<^sup>*\<^sup>* freelist_start sample_add"
proof -
  let ?s = "goto_pc 0 (FAdd 5) (freelist_start\<lparr>f_owned := f_owned freelist_start - {5}\<rparr>)"
  have "freelist_step 2 freelist_start ?s" by (rule freelist_step.add) (simp_all add: freelist_start_def)
  moreover have "fl_alone 5 0 ?s = Inr sample_add"
    by (simp add: numeral_nat fl_step_def goto_pc_def set_refs_def freelist_start_def sample_add_def fun_upd_idem Compl_eq_Diff_UNIV)
  then have "(freelist_step 2)\<^sup>*\<^sup>* ?s sample_add" by (rule fl_alone_run) simp
  ultimately show ?thesis by (rule converse_rtranclp_into_rtranclp)
qed

theorem free_list_exclusive_witness:
  "\<exists>s. (freelist_step 2)\<^sup>*\<^sup>* freelist_start s \<and> f_pc s 1 = GDrop 5 \<and> 5 \<notin> f_owned s \<and> (\<forall>u. u \<noteq> 1 \<longrightarrow> works (f_pc s u) \<noteq> Some 5)"
proof -
  have a: "freelist_step 2 sample_add (goto_pc 1 GLoad sample_add)" by (rule freelist_step.try_get) (simp_all add: sample_add_def)
  obtain s where s: "fl_alone 6 1 (goto_pc 1 GLoad sample_add) = Inr s" "f_pc s 1 = GDrop 5"
    by (auto simp: numeral_nat fl_step_def goto_pc_def set_refs_def sample_add_def REFS_MASK_def SHOULD_BE_ON_FREELIST_def)
  have "(freelist_step 2)\<^sup>*\<^sup>* sample_add s"
    by (rule converse_rtranclp_into_rtranclp [OF a fl_alone_run [OF s(1)]]) simp
  with sample_adds have r: "(freelist_step 2)\<^sup>*\<^sup>* freelist_start s" by (rule rtranclp_trans)
  from free_list_exclusive [OF r, of 1 5] r s(2) show ?thesis by auto
qed

theorem free_list_keeps_nodes_witness:
  "\<exists>L. chain (f_next sample_add) (f_head sample_add) L \<and> distinct L \<and> set L = - f_owned sample_add \<and> set L = {5}"
  using free_list_keeps_nodes [OF sample_adds, of 0] by (auto simp: sample_add_def)

end
