(* ===== verification/Tickets.thy ===== *)
theory Tickets
  imports Prelude
begin

text \<open>
  How the consumers of a \<open>ConcurrentQueue\<close> share what one producer enqueues (\<open>ImplicitProducer\<close> in
  \<open>concurrentqueue.h\<close>): one producer and any number of consumers, each access to one of the four counters
  \<open>tailIndex\<close>, \<open>headIndex\<close>, \<open>dequeueOptimisticCount\<close>, \<open>dequeueOvercommit\<close> a step. A consumer takes tickets
  first, compares them with the tail, gives back those that were too many, and only then claims indices.

  The counters are 64-bit words, as \<open>index_t\<close> is. The block index, that maps an index to the slot of a block, is
  taken as the memory \<open>tk_slot\<close>; that it finds the block is not modelled. Memory is sequentially consistent.
\<close>

unbundle bit_operations_syntax

section \<open>Counters\<close>

definition circular_less_than :: "64 word \<Rightarrow> 64 word \<Rightarrow> bool" where
  "circular_less_than a b \<longleftrightarrow> a - b > push_bit 63 1"

text \<open>The producer in \<open>enqueue\<close>: about to look at the tail, the head, to get a block, to construct, to publish.\<close>

datatype 'a prod_pc =
    PIdle
  | PStart 'a
  | PHead 'a
  | PBlock 'a
  | PWrite 'a
  | PPublish 'a

text \<open>
  A consumer in \<open>dequeue_bulk\<close>: about to read the tail, the overcommit, the optimistic count; to take \<open>d\<close> tickets;
  to read the tail again, with tickets from \<open>k\<close> on; to give \<open>m\<close> of them back, \<open>a\<close> being good; to claim \<open>a\<close>
  indices; to take the objects. \<open>dequeue\<close> does the same with \<open>max = 1\<close>: \<open>circular_less_than a b\<close> and
  \<open>circular_less_than 0 (b - a)\<close> are one test.
\<close>

datatype tk_pc =
    TIdle
  | TTail "64 word"
  | TOver "64 word" "64 word"
  | TCompare "64 word" "64 word" "64 word"
  | TTicket "64 word" "64 word"
  | TCheck "64 word" "64 word" "64 word"
  | TGiveBack "64 word" "64 word"
  | TClaim "64 word"
  | TTake "64 word" nat

text \<open>
  \<open>tk_sent\<close> are the objects published and \<open>tk_claimed\<close> those whose indices were claimed, in order; \<open>tk_tickets\<close> is
  how many tickets were ever taken.
\<close>

record 'a tickets =
  tk_tail :: "64 word"
  tk_head :: "64 word"
  tk_opt :: "64 word"
  tk_over :: "64 word"
  tk_slot :: "64 word \<Rightarrow> 'a option"
  tk_prod :: "'a prod_pc"
  tk_pc :: "nat \<Rightarrow> tk_pc"
  tk_sent :: "'a list"
  tk_claimed :: "'a list"
  tk_tickets :: nat

definition BLOCK_SIZE :: "64 word" where
  "BLOCK_SIZE = 32"

text \<open>One step of \<open>enqueue\<close>; \<open>alloc\<close> tells whether a block and its entry in the block index could be had.\<close>

definition prod_step :: "bool \<Rightarrow> 'a tickets \<Rightarrow> 'a tickets outcome" where
  "prod_step alloc s = (case tk_prod s of
     PIdle \<Rightarrow> Inr s
   | PStart x \<Rightarrow> Inr (s\<lparr>tk_prod := (if tk_tail s AND (BLOCK_SIZE - 1) = 0 then PHead x else PWrite x)\<rparr>)
   | PHead x \<Rightarrow>
       if circular_less_than (tk_tail s) (tk_head s) then Inl AssertFailed
       else Inr (s\<lparr>tk_prod := (if circular_less_than (tk_head s) (tk_tail s + BLOCK_SIZE) then PBlock x else PIdle)\<rparr>)
   | PBlock x \<Rightarrow> Inr (s\<lparr>tk_prod := (if alloc then PWrite x else PIdle)\<rparr>)
   | PWrite x \<Rightarrow> Inr (s\<lparr>tk_slot := (tk_slot s)(tk_tail s := Some x), tk_prod := PPublish x\<rparr>)
   | PPublish x \<Rightarrow> Inr (s\<lparr>tk_tail := tk_tail s + 1, tk_prod := PIdle, tk_sent := tk_sent s @ [x]\<rparr>))"

definition goto_tk :: "nat \<Rightarrow> tk_pc \<Rightarrow> 'a tickets \<Rightarrow> 'a tickets" where
  "goto_tk t p s = s\<lparr>tk_pc := (tk_pc s)(t := p)\<rparr>"

text \<open>The objects at \<open>n\<close> indices from \<open>i\<close> on.\<close>

fun slots_from :: "('a tickets) \<Rightarrow> 64 word \<Rightarrow> nat \<Rightarrow> 'a list" where
  "slots_from s i 0 = []"
| "slots_from s i (Suc n) = (case tk_slot s i of None \<Rightarrow> [] | Some x \<Rightarrow> x # slots_from s (i + 1) n)"

text \<open>One step of a consumer.\<close>

definition tk_step :: "nat \<Rightarrow> 'a tickets \<Rightarrow> 'a tickets outcome" where
  "tk_step t s = (case tk_pc s t of
     TIdle \<Rightarrow> Inr s
   | TTail m \<Rightarrow> Inr (goto_tk t (TOver m (tk_tail s)) s)
   | TOver m tail \<Rightarrow> Inr (goto_tk t (TCompare m tail (tk_over s)) s)
   | TCompare m tail over \<Rightarrow>
       let desired = tail - (tk_opt s - over) in
       Inr (goto_tk t (if circular_less_than 0 desired then TTicket over (if desired < m then desired else m) else TIdle) s)
   | TTicket over d \<Rightarrow>
       if over \<le> tk_opt s
       then Inr (goto_tk t (TCheck over (tk_opt s) d) (s\<lparr>tk_opt := tk_opt s + d, tk_tickets := tk_tickets s + unat d\<rparr>))
       else Inl AssertFailed
   | TCheck over k d \<Rightarrow>
       let actual = tk_tail s - (k - over) in
       if circular_less_than 0 actual then
         let a = (if d < actual then d else actual) in
         Inr (goto_tk t (if a < d then TGiveBack (d - a) a else TClaim a) s)
       else Inr (goto_tk t (TGiveBack d 0) s)
   | TGiveBack m a \<Rightarrow> Inr (goto_tk t (if a = 0 then TIdle else TClaim a) (s\<lparr>tk_over := tk_over s + m\<rparr>))
   | TClaim a \<Rightarrow>
       Inr (goto_tk t (TTake (tk_head s) (unat a))
         (s\<lparr>tk_head := tk_head s + a, tk_claimed := tk_claimed s @ slots_from s (tk_head s) (unat a)\<rparr>))
   | TTake i 0 \<Rightarrow> Inr (goto_tk t TIdle s)
   | TTake i (Suc n) \<Rightarrow>
       (case tk_slot s i of
          None \<Rightarrow> Inl BadDeref
        | Some x \<Rightarrow> Inr (goto_tk t (TTake (i + 1) n) (s\<lparr>tk_slot := (tk_slot s)(i := None)\<rparr>))))"

inductive ticket_step :: "nat \<Rightarrow> 'a tickets \<Rightarrow> 'a tickets \<Rightarrow> bool" for N where
  enqueue: "tk_prod s = PIdle \<Longrightarrow> ticket_step N s (s\<lparr>tk_prod := PStart x\<rparr>)"
| dequeue: "t < N \<Longrightarrow> tk_pc s t = TIdle \<Longrightarrow> 0 < m \<Longrightarrow> ticket_step N s (goto_tk t (TTail m) s)"
| produce: "prod_step alloc s = Inr s' \<Longrightarrow> ticket_step N s s'"
| consume: "t < N \<Longrightarrow> tk_step t s = Inr s' \<Longrightarrow> ticket_step N s s'"

definition ticket_start :: "'a tickets" where
  "ticket_start = \<lparr>tk_tail = 0, tk_head = 0, tk_opt = 0, tk_over = 0, tk_slot = (\<lambda>i. None), tk_prod = PIdle,
     tk_pc = (\<lambda>t. TIdle), tk_sent = [], tk_claimed = [], tk_tickets = 0\<rparr>"

section \<open>Where a ticket is\<close>

datatype ticket = Undecided nat | Granted | Returned

fun granted :: "tk_pc \<Rightarrow> nat" where
  "granted (TGiveBack m a) = unat a"
| "granted (TClaim a) = unat a"
| "granted p = 0"

fun returning :: "tk_pc \<Rightarrow> nat" where
  "returning (TGiveBack m a) = unat m"
| "returning p = 0"

fun undecided :: "tk_pc \<Rightarrow> nat set" where
  "undecided (TCheck over k d) = {unat k ..< unat k + unat d}"
| "undecided p = {}"

fun taking_range :: "tk_pc \<Rightarrow> nat set" where
  "taking_range (TTake i n) = {unat i ..< unat i + n}"
| "taking_range p = {}"

definition returned_below :: "(nat \<Rightarrow> ticket) \<Rightarrow> nat \<Rightarrow> nat" where
  "returned_below W k = card {j. j < k \<and> W j = Returned}"

definition granted_below :: "(nat \<Rightarrow> ticket) \<Rightarrow> nat \<Rightarrow> nat" where
  "granted_below W k = card {j. j < k \<and> W j = Granted}"

text \<open>The snapshot of the overcommit is behind the tickets returned before the ticket was taken.\<close>

fun tk_knows :: "(nat \<Rightarrow> ticket) \<Rightarrow> nat \<Rightarrow> tk_pc \<Rightarrow> bool" where
  "tk_knows W n (TCompare m tail over) = (unat over \<le> returned_below W n)"
| "tk_knows W n (TTicket over d) = (unat over \<le> returned_below W n)"
| "tk_knows W n (TCheck over k d) = (unat over \<le> returned_below W (unat k) \<and> unat k + unat d \<le> n)"
| "tk_knows W n p = True"

definition tk_counts :: "nat \<Rightarrow> 'a tickets \<Rightarrow> (nat \<Rightarrow> ticket) \<Rightarrow> bool" where
  "tk_counts N s W \<longleftrightarrow>
     tk_tail s = of_nat (length (tk_sent s)) \<and> tk_head s = of_nat (length (tk_claimed s)) \<and>
     tk_opt s = of_nat (tk_tickets s) \<and>
     length (tk_claimed s) + (\<Sum>t<N. granted (tk_pc s t)) = granted_below W (tk_tickets s) \<and>
     unat (tk_over s) + (\<Sum>t<N. returning (tk_pc s t)) = returned_below W (tk_tickets s) \<and>
     (\<forall>t. {j. j < tk_tickets s \<and> W j = Undecided t} = undecided (tk_pc s t)) \<and>
     (\<forall>j < tk_tickets s. W j = Granted \<longrightarrow> j < length (tk_sent s) + returned_below W j) \<and>
     (\<forall>t. tk_knows W (tk_tickets s) (tk_pc s t))"

definition tk_slots :: "nat \<Rightarrow> 'a tickets \<Rightarrow> bool" where
  "tk_slots N s \<longleftrightarrow>
     (\<forall>t \<ge> N. tk_pc s t = TIdle) \<and> (\<exists>rest. tk_sent s = tk_claimed s @ rest) \<and>
     (\<forall>t. taking_range (tk_pc s t) \<subseteq> {..< length (tk_claimed s)}) \<and>
     (\<forall>t u. t \<noteq> u \<longrightarrow> taking_range (tk_pc s t) \<inter> taking_range (tk_pc s u) = {}) \<and>
     (\<forall>p < length (tk_sent s). length (tk_claimed s) \<le> p \<or> (\<exists>t. p \<in> taking_range (tk_pc s t)) \<longrightarrow>
        tk_slot s (of_nat p) = Some (tk_sent s ! p)) \<and>
     (\<forall>x. tk_prod s = PPublish x \<longrightarrow> tk_slot s (of_nat (length (tk_sent s))) = Some x)"

definition tk_small :: "'a tickets \<Rightarrow> bool" where
  "tk_small s \<longleftrightarrow> tk_tickets s < 2 ^ 63 \<and> length (tk_sent s) < 2 ^ 63"

section \<open>Words and sums\<close>

lemma unat_index: "n < 2 ^ 63 \<Longrightarrow> unat (of_nat n :: 64 word) = n"
  by (simp add: unat_of_nat)

lemma index_inj: "p < 2 ^ 63 \<Longrightarrow> q < 2 ^ 63 \<Longrightarrow> (of_nat p :: 64 word) = of_nat q \<longleftrightarrow> p = q"
  using unat_index by metis

lemma index_diff: "d \<le> n \<Longrightarrow> (of_nat n :: 64 word) - of_nat d = of_nat (n - d)"
  by (simp add: of_nat_diff)

lemma circular_less_unat: "circular_less_than a b \<longleftrightarrow> 2 ^ 63 < unat (a - b)"
  by (simp add: circular_less_than_def word_less_nat_alt)

lemma circular_less_index:
  assumes a: "a < 2 ^ 63" and b: "b < 2 ^ 63"
  shows "circular_less_than (of_nat a) (of_nat b) \<longleftrightarrow> a < b"
proof (cases "a < b")
  case False
  then have "(of_nat a :: 64 word) - of_nat b = of_nat (a - b)" by (intro index_diff) simp
  then have "unat ((of_nat a :: 64 word) - of_nat b) = a - b" using unat_index [of "a - b"] a by simp
  then show ?thesis unfolding circular_less_unat using False a by linarith
next
  case True
  have "(of_nat (2 ^ 64 - (b - a)) :: 64 word) = of_nat (2 ^ 64) - of_nat (b - a)" using b by (intro of_nat_diff) simp
  also have "\<dots> = of_nat a - of_nat b" using True by (simp add: of_nat_diff)
  finally have "unat ((of_nat a :: 64 word) - of_nat b) = unat (of_nat (2 ^ 64 - (b - a)) :: 64 word)" by simp
  also have "\<dots> = 2 ^ 64 - (b - a)" using True by (subst unat_of_nat) simp
  finally show ?thesis unfolding circular_less_unat using True b by simp
qed

text \<open>The two forms of the test, in \<open>dequeue\<close> and in \<open>dequeue_bulk\<close>.\<close>

lemma circular_less_shift: "circular_less_than 0 (b - a) = circular_less_than a b"
  by (simp add: circular_less_than_def)

lemma sum_moves:
  assumes "t < (N :: nat)"
  shows "(\<Sum>u<N. f ((pc(t := p)) u)) + f (pc t) = (\<Sum>u<N. f (pc u)) + (f p :: nat)"
proof -
  have "(\<Sum>u<N. f (g u)) = f (g t) + (\<Sum>u \<in> {..<N} - {t}. f (g u))" for g
    using assms by (intro sum.remove) simp_all
  from this [of "pc(t := p)"] this [of pc] show ?thesis by simp
qed

lemma sum_same: "t < (N :: nat) \<Longrightarrow> f p = f (pc t) \<Longrightarrow> (\<Sum>u<N. f ((pc(t := p)) u)) = (\<Sum>u<N. f (pc u) :: nat)"
  using sum_moves [of t N f pc p] by simp

lemma below_le: "returned_below W k \<le> k" "granted_below W k \<le> k"
  unfolding returned_below_def granted_below_def
  using card_mono [of "{..<k}" "{j. j < k \<and> W j = Returned}"] card_mono [of "{..<k}" "{j. j < k \<and> W j = Granted}"]
  by auto

lemma returned_mono: "k \<le> l \<Longrightarrow> returned_below W k \<le> returned_below W l"
  unfolding returned_below_def by (intro card_mono) auto

lemma disjoint_below: "granted_below W k + returned_below W k \<le> k"
proof -
  have "granted_below W k + returned_below W k = card ({j. j < k \<and> W j = Granted} \<union> {j. j < k \<and> W j = Returned})"
    unfolding granted_below_def returned_below_def by (intro card_Un_disjoint [symmetric]) auto
  also have "\<dots> \<le> card {..<k}" by (intro card_mono) auto
  finally show ?thesis by simp
qed

text \<open>As many tickets are granted as objects were published, at most.\<close>

lemma granted_published:
  assumes "\<forall>j < n. W j = Granted \<longrightarrow> j < T + returned_below W j"
  shows "granted_below W n \<le> T"
  using assms
proof (induction n)
  case (Suc n)
  show ?case
  proof (cases "W n = Granted")
    case True
    then have "n < T + returned_below W n" using Suc.prems by simp
    moreover have "{j. j < Suc n \<and> W j = Granted} = insert n {j. j < n \<and> W j = Granted}" using True by (auto simp: less_Suc_eq)
    then have "granted_below W (Suc n) = Suc (granted_below W n)" by (simp add: granted_below_def)
    ultimately show ?thesis using disjoint_below [of W n] by linarith
  next
    case False
    then have "{j. j < Suc n \<and> W j = Granted} = {j. j < n \<and> W j = Granted}" by (auto simp: less_Suc_eq)
    then show ?thesis using Suc by (simp add: granted_below_def)
  qed
qed (simp add: granted_below_def)

section \<open>The steps\<close>

lemma goto_tk_simps [simp]:
  "tk_pc (goto_tk t p s) = (tk_pc s)(t := p)" "tk_tail (goto_tk t p s) = tk_tail s" "tk_head (goto_tk t p s) = tk_head s"
  "tk_opt (goto_tk t p s) = tk_opt s" "tk_over (goto_tk t p s) = tk_over s" "tk_slot (goto_tk t p s) = tk_slot s"
  "tk_prod (goto_tk t p s) = tk_prod s" "tk_sent (goto_tk t p s) = tk_sent s" "tk_claimed (goto_tk t p s) = tk_claimed s"
  "tk_tickets (goto_tk t p s) = tk_tickets s"
  by (simp_all add: goto_tk_def)

lemma countsD:
  assumes "tk_counts N s W"
  shows "tk_tail s = of_nat (length (tk_sent s))" and "tk_head s = of_nat (length (tk_claimed s))"
    and "tk_opt s = of_nat (tk_tickets s)"
    and "length (tk_claimed s) + (\<Sum>t<N. granted (tk_pc s t)) = granted_below W (tk_tickets s)"
    and "unat (tk_over s) + (\<Sum>t<N. returning (tk_pc s t)) = returned_below W (tk_tickets s)"
    and "{j. j < tk_tickets s \<and> W j = Undecided t} = undecided (tk_pc s t)"
    and "j < tk_tickets s \<Longrightarrow> W j = Granted \<Longrightarrow> j < length (tk_sent s) + returned_below W j"
    and "tk_knows W (tk_tickets s) (tk_pc s t)"
  using assms unfolding tk_counts_def by blast+

lemma slotsD:
  assumes "tk_slots N s"
  shows "t \<ge> N \<Longrightarrow> tk_pc s t = TIdle" and "\<exists>rest. tk_sent s = tk_claimed s @ rest"
    and "taking_range (tk_pc s t) \<subseteq> {..< length (tk_claimed s)}"
    and "t \<noteq> u \<Longrightarrow> taking_range (tk_pc s t) \<inter> taking_range (tk_pc s u) = {}"
    and "p < length (tk_sent s) \<Longrightarrow> length (tk_claimed s) \<le> p \<or> (\<exists>t. p \<in> taking_range (tk_pc s t)) \<Longrightarrow>
      tk_slot s (of_nat p) = Some (tk_sent s ! p)"
    and "tk_prod s = PPublish x \<Longrightarrow> tk_slot s (of_nat (length (tk_sent s))) = Some x"
  using assms unfolding tk_slots_def by blast+

lemma tk_claimed_le: "tk_slots N s \<Longrightarrow> length (tk_claimed s) \<le> length (tk_sent s)"
  using slotsD(2) by fastforce

definition tk_inv :: "nat \<Rightarrow> 'a tickets \<Rightarrow> bool" where
  "tk_inv N s \<longleftrightarrow> (\<exists>W. tk_counts N s W) \<and> tk_slots N s"

lemma tk_invI: "tk_counts N s W \<Longrightarrow> tk_slots N s \<Longrightarrow> tk_inv N s"
  unfolding tk_inv_def by blast

lemma tk_slots_same:
  assumes ok: "tk_slots N s" and t: "t < N" and pc: "tk_pc s' = (tk_pc s)(t := p')"
    and same: "tk_sent s' = tk_sent s" "tk_claimed s' = tk_claimed s" "tk_slot s' = tk_slot s" "tk_prod s' = tk_prod s"
    and p': "taking_range p' = taking_range (tk_pc s t)"
  shows "tk_slots N s'"
proof -
  have "taking_range (tk_pc s' u) = taking_range (tk_pc s u)" for u using p' pc by simp
  moreover have "tk_pc s' u = TIdle" if "N \<le> u" for u using that t slotsD(1) [OF ok] pc by simp
  ultimately show ?thesis using ok unfolding tk_slots_def same by simp
qed

lemma tk_moves:
  assumes c: "tk_counts N s W" and ok: "tk_slots N s" and t: "t < N"
    and same: "granted p' = granted (tk_pc s t)" "returning p' = returning (tk_pc s t)" "undecided p' = undecided (tk_pc s t)"
      "taking_range p' = taking_range (tk_pc s t)"
    and kn: "tk_knows W (tk_tickets s) p'"
  shows "tk_inv N (goto_tk t p' s)"
proof (rule tk_invI)
  have und: "undecided (((tk_pc s)(t := p')) u) = undecided (tk_pc s u)" for u using same(3) by simp
  note sums = sum_same [where f = granted and pc = "tk_pc s", OF t same(1)] sum_same [where f = returning and pc = "tk_pc s", OF t same(2)]
  show "tk_counts N (goto_tk t p' s) W"
    unfolding tk_counts_def goto_tk_simps und sums using countsD [OF c] kn by simp
  show "tk_slots N (goto_tk t p' s)" by (rule tk_slots_same [OF ok t, of _ p']) (simp_all add: same)
qed

lemma step_reads:
  assumes c: "tk_counts N s W" and ok: "tk_slots N s" and t: "t < N"
    and pc: "tk_pc s t \<in> {TIdle, TTail m, TOver m tail, TCompare m tail over, TTake i 0}"
  shows "\<exists>s'. tk_step t s = Inr s' \<and> tk_inv N s'"
proof -
  have "unat (tk_over s) \<le> returned_below W (tk_tickets s)" using countsD(5) [OF c] by linarith
  then show ?thesis
    using pc countsD(8) [OF c, of t] by (auto simp: tk_step_def Let_def intro!: tk_moves [OF c ok t] intro: tk_invI [OF c ok])
qed

lemma knows_grow:
  assumes "tk_knows W n q" and n: "n \<le> n'" and grow: "\<And>k. k \<le> n \<Longrightarrow> returned_below W k \<le> returned_below W' k"
  shows "tk_knows W' n' q"
proof -
  have "returned_below W n \<le> returned_below W' n'" using grow [of n] returned_mono [OF n, of W'] by simp
  with assms(1) grow n show ?thesis by (cases q) (auto intro: order_trans)
qed

lemma below_cong:
  assumes "\<And>j. j < k \<Longrightarrow> W' j = W j"
  shows "returned_below W' k = returned_below W k" and "granted_below W' k = granted_below W k"
proof -
  have "{j. j < k \<and> W' j = Returned} = {j. j < k \<and> W j = Returned}" "{j. j < k \<and> W' j = Granted} = {j. j < k \<and> W j = Granted}"
    using assms by auto
  then show "returned_below W' k = returned_below W k" "granted_below W' k = granted_below W k"
    by (simp_all add: returned_below_def granted_below_def)
qed

lemma below_extend:
  assumes "n \<le> n'" and "\<And>j. n \<le> j \<Longrightarrow> j < n' \<Longrightarrow> \<exists>t. W j = Undecided t"
  shows "returned_below W n' = returned_below W n" and "granted_below W n' = granted_below W n"
proof -
  have new: "j < n" if "j < n'" "W j = Returned \<or> W j = Granted" for j
    using assms(2) [of j] that by (cases "j < n") auto
  have "{j. j < n' \<and> W j = Returned} = {j. j < n \<and> W j = Returned}" "{j. j < n' \<and> W j = Granted} = {j. j < n \<and> W j = Granted}"
    using assms(1) new by (auto simp: not_less intro: leI)
  then show "returned_below W n' = returned_below W n" "granted_below W n' = granted_below W n"
    by (simp_all add: returned_below_def granted_below_def)
qed

lemma step_ticket:
  assumes c: "tk_counts N s W" and ok: "tk_slots N s" and t: "t < N" and pc: "tk_pc s t = TTicket over d"
    and small: "tk_tickets s + unat d < 2 ^ 63"
  shows "over \<le> tk_opt s" and "tk_inv N (goto_tk t (TCheck over (tk_opt s) d)
    (s\<lparr>tk_opt := tk_opt s + d, tk_tickets := tk_tickets s + unat d\<rparr>))"
proof -
  let ?n = "tk_tickets s" and ?n' = "tk_tickets s + unat d" and ?p = "TCheck over (tk_opt s) d"
  let ?s = "goto_tk t ?p (s\<lparr>tk_opt := tk_opt s + d, tk_tickets := ?n'\<rparr>)"
  have o: "unat over \<le> returned_below W ?n" using countsD(8) [OF c, of t] pc by simp
  have opt: "unat (tk_opt s) = ?n" using countsD(3) [OF c] unat_index [of ?n] small by simp
  show "over \<le> tk_opt s" using o below_le(1) [of W ?n] opt by (simp add: word_le_nat_alt)
  define W' where "W' = (\<lambda>j. if ?n \<le> j \<and> j < ?n' then Undecided t else W j)"
  have below: "returned_below W' k = returned_below W k" "granted_below W' k = granted_below W k" if "k \<le> ?n" for k
    using below_cong [of k W' W] that by (auto simp: W'_def)
  have ext: "returned_below W' ?n' = returned_below W ?n" "granted_below W' ?n' = granted_below W ?n"
    using below_extend [of ?n ?n' W'] below [of ?n] by (simp_all add: W'_def)
  have sums: "(\<Sum>u<N. granted (((tk_pc s)(t := ?p)) u)) = (\<Sum>u<N. granted (tk_pc s u))"
    "(\<Sum>u<N. returning (((tk_pc s)(t := ?p)) u)) = (\<Sum>u<N. returning (tk_pc s u))"
    by (rule sum_same [OF t]; simp add: pc)+
  have und: "{j. j < ?n' \<and> W' j = Undecided u} = undecided (((tk_pc s)(t := ?p)) u)" for u
  proof (cases "u = t")
    case True
    have "\<not> (j < ?n \<and> W j = Undecided t)" for j using countsD(6) [OF c, of t] pc by auto
    then have "{j. j < ?n' \<and> W' j = Undecided t} = {?n ..< ?n'}"
      unfolding W'_def by (intro set_eqI) (force simp: not_le)
    then show ?thesis unfolding True fun_upd_same undecided.simps opt .
  next
    case False
    then have "{j. j < ?n' \<and> W' j = Undecided u} = {j. j < ?n \<and> W j = Undecided u}" by (auto simp: W'_def)
    with False countsD(6) [OF c, of u] show ?thesis by simp
  qed
  have knows: "tk_knows W' ?n' (((tk_pc s)(t := ?p)) u)" for u
    using knows_grow [OF countsD(8) [OF c, of u], of ?n' W'] below o opt by simp
  have bound: "j < length (tk_sent s) + returned_below W' j" if "j < ?n'" "W' j = Granted" for j
    using that countsD(7) [OF c, of j] below [of j] by (auto simp: W'_def split: if_splits)
  have "tk_counts N ?s W'"
    unfolding tk_counts_def using countsD [OF c] sums und knows bound ext by simp
  moreover have "tk_slots N ?s" by (rule tk_slots_same [OF ok t, of _ ?p]) (simp_all add: pc)
  ultimately show "tk_inv N ?s" by (rule tk_invI)
qed

text \<open>The tickets of one consumer, \<open>a\<close> of them granted, the others to be returned.\<close>

lemma below_decide:
  assumes "k + d \<le> n" and und: "\<And>j. k \<le> j \<Longrightarrow> j < k + d \<Longrightarrow> W j = Undecided t" and "a \<le> d"
    and W': "W' = (\<lambda>j. if k \<le> j \<and> j < k + a then Granted else if k + a \<le> j \<and> j < k + d then Returned else W j)"
  shows "granted_below W' n = granted_below W n + a" and "returned_below W' n = returned_below W n + (d - a)"
    and "returned_below W i \<le> returned_below W' i"
proof -
  have not: "W j \<noteq> Granted \<and> W j \<noteq> Returned" if "k \<le> j" "j < k + d" for j using und [OF that] by simp
  have "{j. j < n \<and> W' j = Granted} = {j. j < n \<and> W j = Granted} \<union> {k ..< k + a}"
    using assms(1,3) not by (auto simp: W')
  moreover have "{j. j < n \<and> W j = Granted} \<inter> {k ..< k + a} = {}" using not assms(3) by fastforce
  ultimately show "granted_below W' n = granted_below W n + a"
    by (simp add: granted_below_def card_Un_disjoint)
  have "{j. j < n \<and> W' j = Returned} = {j. j < n \<and> W j = Returned} \<union> {k + a ..< k + d}"
    using assms(1,3) not by (auto simp: W')
  moreover have "{j. j < n \<and> W j = Returned} \<inter> {k + a ..< k + d} = {}" using not by fastforce
  ultimately show "returned_below W' n = returned_below W n + (d - a)"
    by (simp add: returned_below_def card_Un_disjoint)
  have "W' j = Returned" if "W j = Returned" for j
    using not [of j] assms(3) that unfolding W' by (cases "k \<le> j \<and> j < k + d") auto
  then have "{j. j < i \<and> W j = Returned} \<subseteq> {j. j < i \<and> W' j = Returned}" by blast
  then show "returned_below W i \<le> returned_below W' i" unfolding returned_below_def by (intro card_mono) auto
qed

lemma step_decide:
  assumes c: "tk_counts N s W" and ok: "tk_slots N s" and t: "t < N" and pc: "tk_pc s t = TCheck over k d"
    and a: "a \<le> unat d" "0 < a \<longrightarrow> unat k + a \<le> length (tk_sent s) + unat over"
    and p': "granted p' = a" "returning p' = unat d - a" "undecided p' = {}" "taking_range p' = {}"
      "\<And>W n. tk_knows W n p'"
  shows "tk_inv N (goto_tk t p' s)"
proof -
  let ?n = "tk_tickets s"
  define W' where "W' = (\<lambda>j. if unat k \<le> j \<and> j < unat k + a then Granted
    else if unat k + a \<le> j \<and> j < unat k + unat d then Returned else W j)"
  have kd: "unat k + unat d \<le> ?n" and o: "unat over \<le> returned_below W (unat k)" using countsD(8) [OF c, of t] pc by simp_all
  have und: "W j = Undecided t" if "unat k \<le> j" "j < unat k + unat d" for j
  proof -
    have "j \<in> {j. j < ?n \<and> W j = Undecided t}" unfolding countsD(6) [OF c] pc using that by simp
    then show ?thesis by simp
  qed
  note B = below_decide [OF kd und a(1) W'_def]
  have sums: "(\<Sum>u<N. granted (((tk_pc s)(t := p')) u)) = (\<Sum>u<N. granted (tk_pc s u)) + a"
    "(\<Sum>u<N. returning (((tk_pc s)(t := p')) u)) = (\<Sum>u<N. returning (tk_pc s u)) + (unat d - a)"
    using sum_moves [OF t, of granted "tk_pc s" p'] sum_moves [OF t, of returning "tk_pc s" p'] p' pc by simp_all
  have und': "{j. j < ?n \<and> W' j = Undecided u} = undecided (((tk_pc s)(t := p')) u)" for u
  proof (cases "u = t")
    case True
    have "\<not> (j < ?n \<and> W' j = Undecided t)" for j
    proof
      assume j: "j < ?n \<and> W' j = Undecided t"
      then have "\<not> (unat k \<le> j \<and> j < unat k + unat d)" using a(1) by (auto simp: W'_def split: if_splits)
      moreover from this j have "j \<in> {j. j < ?n \<and> W j = Undecided t}" using a(1) by (auto simp: W'_def split: if_splits)
      then have "unat k \<le> j \<and> j < unat k + unat d" unfolding countsD(6) [OF c] pc by simp
      ultimately show False by blast
    qed
    with True p' show ?thesis by simp
  next
    case False
    then have "{j. j < ?n \<and> W' j = Undecided u} = {j. j < ?n \<and> W j = Undecided u}"
      using und a(1) by (auto simp: W'_def split: if_splits)
    with False countsD(6) [OF c, of u] show ?thesis by simp
  qed
  have bound: "j < length (tk_sent s) + returned_below W' j" if "j < ?n" "W' j = Granted" for j
  proof (cases "unat k \<le> j \<and> j < unat k + a")
    case True
    then have "unat over \<le> returned_below W j" using o returned_mono [of "unat k" j W] by simp
    with True a B(3) [of j] show ?thesis by linarith
  next
    case False
    with that have "W j = Granted" by (auto simp: W'_def split: if_splits)
    with countsD(7) [OF c that(1)] B(3) [of j] show ?thesis by linarith
  qed
  have knows: "tk_knows W' ?n (((tk_pc s)(t := p')) u)" for u
    using knows_grow [OF countsD(8) [OF c, of u], of ?n W'] B(3) p'(5) by simp
  have "tk_counts N (goto_tk t p' s) W'"
    unfolding tk_counts_def using countsD [OF c] sums und' knows bound B by simp
  moreover have "tk_slots N (goto_tk t p' s)" by (rule tk_slots_same [OF ok t, of _ p']) (simp_all add: pc p')
  ultimately show ?thesis by (rule tk_invI)
qed

lemma step_check:
  assumes c: "tk_counts N s W" and ok: "tk_slots N s" and t: "t < N" and pc: "tk_pc s t = TCheck over k d" and small: "tk_small s"
  shows "\<exists>s'. tk_step t s = Inr s' \<and> tk_inv N s'"
proof -
  let ?T = "length (tk_sent s)" and ?D = "unat k - unat over" and ?actual = "tk_tail s - (k - over)"
  have kn: "unat over \<le> returned_below W (unat k)" "unat k + unat d \<le> tk_tickets s" using countsD(8) [OF c, of t] pc by simp_all
  then have o: "unat over \<le> unat k" "unat k < 2 ^ 63" using below_le(1) [of W "unat k"] small by (auto simp: tk_small_def)
  have D: "?D < 2 ^ 63" using o by linarith
  have T: "?T < 2 ^ 63" using small by (simp add: tk_small_def)
  have "k - over = of_nat ?D" using o by (simp add: of_nat_diff)
  then have act: "?actual = of_nat ?T - of_nat ?D" using countsD(1) [OF c] by simp
  have less: "circular_less_than 0 ?actual \<longleftrightarrow> ?D < ?T"
    unfolding act circular_less_shift using circular_less_index [OF D T] .
  have actual: "unat ?actual = ?T - ?D" if "?D < ?T"
    using that T index_diff [of ?D ?T] unat_index [of "?T - ?D"] by (simp add: act)
  show ?thesis
  proof (cases "?D < ?T")
    case False
    have "tk_inv N (goto_tk t (TGiveBack d 0) s)"
      by (rule step_decide [OF c ok t pc, of 0]) (use False o in simp_all)
    with False less show ?thesis by (simp add: tk_step_def pc Let_def)
  next
    case True
    define a where "a = (if d < ?actual then d else ?actual)"
    have a: "unat a \<le> unat d" "0 < unat a \<longrightarrow> unat k + unat a \<le> ?T + unat over"
      using actual [OF True] True o by (auto simp: a_def word_less_nat_alt)
    have "unat (d - a) = unat d - unat a" using a(1) by (simp add: unat_sub word_le_nat_alt)
    moreover have "unat a = unat d" if "\<not> a < d" using that a(1) by (simp add: word_less_nat_alt)
    ultimately have "tk_inv N (goto_tk t (if a < d then TGiveBack (d - a) a else TClaim a) s)"
      by (intro step_decide [OF c ok t pc a]) auto
    moreover have "tk_step t s = Inr (goto_tk t (if a < d then TGiveBack (d - a) a else TClaim a) s)"
      using True less unfolding a_def by (simp only: tk_step_def pc tk_pc.case Let_def if_True)
    ultimately show ?thesis by blast
  qed
qed

lemma step_return:
  assumes c: "tk_counts N s W" and ok: "tk_slots N s" and t: "t < N" and pc: "tk_pc s t = TGiveBack m a" and small: "tk_small s"
  shows "tk_inv N (goto_tk t (if a = 0 then TIdle else TClaim a) (s\<lparr>tk_over := tk_over s + m\<rparr>))"
proof -
  let ?p = "if a = 0 then TIdle else TClaim a"
  let ?s = "goto_tk t ?p (s\<lparr>tk_over := tk_over s + m\<rparr>)"
  have g: "(\<Sum>u<N. granted (((tk_pc s)(t := ?p)) u)) = (\<Sum>u<N. granted (tk_pc s u))"
    by (rule sum_same [OF t]) (simp add: pc)
  have r: "(\<Sum>u<N. returning (((tk_pc s)(t := ?p)) u)) + unat m = (\<Sum>u<N. returning (tk_pc s u))"
    using sum_moves [OF t, of returning "tk_pc s" ?p] pc by simp
  have und: "undecided (((tk_pc s)(t := ?p)) u) = undecided (tk_pc s u)" for u by (simp add: pc)
  have "unat (tk_over s) + unat m < 2 ^ 63"
    using r countsD(5) [OF c] below_le(1) [of W "tk_tickets s"] small unfolding tk_small_def by linarith
  then have "unat (tk_over s + m) = unat (tk_over s) + unat m" by (subst unat_plus_simple [THEN iffD1]) (simp_all add: no_olen_add_nat)
  then have "tk_counts N ?s W"
    unfolding tk_counts_def goto_tk_simps using countsD [OF c] g r und by (simp add: tk_counts_def)
  moreover have "tk_slots N ?s" by (rule tk_slots_same [OF ok t, of _ ?p]) (simp_all add: pc)
  ultimately show ?thesis by (rule tk_invI)
qed

lemma slots_from_list:
  assumes "\<And>j. j < n \<Longrightarrow> tk_slot s (of_nat (h + j)) = Some (xs ! (h + j))" and "h + n \<le> length xs"
  shows "slots_from s (of_nat h) n = take n (drop h xs)"
  using assms
proof (induction n arbitrary: h)
  case (Suc n)
  have "tk_slot s (of_nat (Suc h + j)) = Some (xs ! (Suc h + j))" if "j < n" for j
    using Suc.prems(1) [of "Suc j"] that by simp
  then have "slots_from s (of_nat (Suc h)) n = take n (drop (Suc h) xs)" using Suc.prems(2) by (intro Suc.IH) simp_all
  moreover have "tk_slot s (of_nat h) = Some (xs ! h)" using Suc.prems(1) [of 0] by simp
  moreover have "drop h xs = xs ! h # drop (Suc h) xs" using Suc.prems(2) by (simp add: Cons_nth_drop_Suc)
  ultimately show ?case by (simp add: add.commute)
qed simp

text \<open>The indices a consumer claims are below the tail.\<close>

lemma claim_published:
  assumes c: "tk_counts N s W" and t: "t < N"
  shows "length (tk_claimed s) + granted (tk_pc s t) \<le> length (tk_sent s)"
proof -
  have "granted (tk_pc s t) \<le> (\<Sum>u<N. granted (tk_pc s u))" using t by (intro member_le_sum) simp_all
  with countsD(4) [OF c] granted_published [of "tk_tickets s" W "length (tk_sent s)"] countsD(7) [OF c] show ?thesis by fastforce
qed

lemma step_claim:
  assumes c: "tk_counts N s W" and ok: "tk_slots N s" and t: "t < N" and pc: "tk_pc s t = TClaim a" and small: "tk_small s"
  shows "tk_inv N (goto_tk t (TTake (tk_head s) (unat a))
      (s\<lparr>tk_head := tk_head s + a, tk_claimed := tk_claimed s @ slots_from s (tk_head s) (unat a)\<rparr>))"
    and "slots_from s (tk_head s) (unat a) = take (unat a) (drop (length (tk_claimed s)) (tk_sent s))"
proof -
  let ?H = "length (tk_claimed s)" and ?p = "TTake (tk_head s) (unat a)"
  let ?s = "goto_tk t ?p (s\<lparr>tk_head := tk_head s + a, tk_claimed := tk_claimed s @ slots_from s (tk_head s) (unat a)\<rparr>)"
  have le: "?H + unat a \<le> length (tk_sent s)" using claim_published [OF c t] pc by simp
  show objs: "slots_from s (tk_head s) (unat a) = take (unat a) (drop ?H (tk_sent s))"
    unfolding countsD(2) [OF c] by (rule slots_from_list; use le slotsD(5) [OF ok, of "?H + _"] in \<open>simp del: of_nat_add\<close>)
  obtain rest where rest: "tk_sent s = tk_claimed s @ rest" using slotsD(2) [OF ok] by blast
  have len: "length (tk_claimed ?s) = ?H + unat a" using le by (simp add: objs)
  have h: "unat (tk_head s) = ?H" using countsD(2) [OF c] unat_index [of ?H] le small by (simp add: tk_small_def)
  have g: "(\<Sum>u<N. granted (((tk_pc s)(t := ?p)) u)) + unat a = (\<Sum>u<N. granted (tk_pc s u))"
    using sum_moves [OF t, of granted "tk_pc s" ?p] pc by simp
  have r: "(\<Sum>u<N. returning (((tk_pc s)(t := ?p)) u)) = (\<Sum>u<N. returning (tk_pc s u))"
    by (rule sum_same [OF t]) (simp add: pc)
  have und: "undecided (((tk_pc s)(t := ?p)) u) = undecided (tk_pc s u)" for u by (simp add: pc)
  have "tk_counts N ?s W"
    unfolding tk_counts_def len unfolding goto_tk_simps
    using countsD [OF c] g r und by simp
  moreover have "tk_slots N ?s"
    unfolding tk_slots_def len
  proof (intro conjI allI impI)
    fix u assume "N \<le> u"
    with t slotsD(1) [OF ok] show "tk_pc ?s u = TIdle" by simp
  next
    show "\<exists>rest. tk_sent ?s = tk_claimed ?s @ rest"
      using rest by (intro exI [of _ "drop (unat a) rest"]) (simp add: objs)
  next
    fix u show "taking_range (tk_pc ?s u) \<subseteq> {..<?H + unat a}" using slotsD(3) [OF ok, of u] h by (auto simp: subset_iff)
  next
    fix u v :: nat assume "u \<noteq> v"
    with slotsD(4) [OF ok, of u v] slotsD(3) [OF ok, of u] slotsD(3) [OF ok, of v] h
    show "taking_range (tk_pc ?s u) \<inter> taking_range (tk_pc ?s v) = {}" by (auto simp: subset_iff disjoint_iff)
  next
    fix q assume q: "q < length (tk_sent ?s)" "?H + unat a \<le> q \<or> (\<exists>u. q \<in> taking_range (tk_pc ?s u))"
    then have "?H \<le> q \<or> (\<exists>u. q \<in> taking_range (tk_pc s u))" using h by (auto split: if_splits)
    with slotsD(5) [OF ok] q(1) show "tk_slot ?s (of_nat q) = Some (tk_sent ?s ! q)" by simp
  next
    fix x assume "tk_prod ?s = PPublish x"
    with slotsD(6) [OF ok] show "tk_slot ?s (of_nat (length (tk_sent ?s))) = Some x" by simp
  qed
  ultimately show "tk_inv N ?s" by (rule tk_invI)
qed

lemma step_take:
  assumes c: "tk_counts N s W" and ok: "tk_slots N s" and t: "t < N" and pc: "tk_pc s t = TTake i (Suc n)" and small: "tk_small s"
  shows "\<exists>s'. tk_step t s = Inr s' \<and> tk_inv N s'"
proof -
  let ?p = "TTake (i + 1) n"
  let ?s = "goto_tk t ?p (s\<lparr>tk_slot := (tk_slot s)(i := None)\<rparr>)"
  have "unat i \<in> taking_range (tk_pc s t)" by (simp add: pc)
  with slotsD(3) [OF ok, of t] tk_claimed_le [OF ok] have i: "unat i < length (tk_claimed s)" "unat i < length (tk_sent s)" by auto
  have sm: "length (tk_sent s) < 2 ^ 63" using small by (simp add: tk_small_def)
  have x: "tk_slot s i = Some (tk_sent s ! unat i)"
    using slotsD(5) [OF ok i(2)] \<open>unat i \<in> taking_range (tk_pc s t)\<close> by auto
  have i1: "unat (i + 1) = unat i + 1" using i(2) sm by (subst unat_plus_simple [THEN iffD1]) (simp_all add: no_olen_add_nat)
  have range: "taking_range ?p = taking_range (tk_pc s t) - {unat i}" using i1 by (auto simp: pc)
  have sub: "taking_range (tk_pc ?s u) \<subseteq> taking_range (tk_pc s u)" for u using range by simp
  have not: "unat i \<notin> taking_range (tk_pc ?s u)" for u
    using range slotsD(4) [OF ok, of t u] \<open>unat i \<in> taking_range (tk_pc s t)\<close> by (cases "u = t") auto
  have other: "of_nat q \<noteq> i" if "q \<noteq> unat i" "q \<le> length (tk_sent s)" for q
    using that unat_index [of q] sm by auto
  have sums: "(\<Sum>u<N. granted (((tk_pc s)(t := ?p)) u)) = (\<Sum>u<N. granted (tk_pc s u))"
    "(\<Sum>u<N. returning (((tk_pc s)(t := ?p)) u)) = (\<Sum>u<N. returning (tk_pc s u))"
    by (rule sum_same [OF t]; simp add: pc)+
  have und: "undecided (((tk_pc s)(t := ?p)) u) = undecided (tk_pc s u)" for u by (simp add: pc)
  have "tk_counts N ?s W" unfolding tk_counts_def goto_tk_simps using countsD [OF c] sums und by simp
  moreover have "tk_slots N ?s"
    unfolding tk_slots_def
  proof (intro conjI allI impI)
    fix u assume "N \<le> u"
    with t slotsD(1) [OF ok] show "tk_pc ?s u = TIdle" by simp
  next
    show "\<exists>rest. tk_sent ?s = tk_claimed ?s @ rest" using slotsD(2) [OF ok] by simp
  next
    fix u show "taking_range (tk_pc ?s u) \<subseteq> {..<length (tk_claimed ?s)}" using sub [of u] slotsD(3) [OF ok, of u] by simp
  next
    fix u v :: nat assume "u \<noteq> v"
    with slotsD(4) [OF ok, of u v] sub [of u] sub [of v]
    show "taking_range (tk_pc ?s u) \<inter> taking_range (tk_pc ?s v) = {}" by blast
  next
    fix q assume q: "q < length (tk_sent ?s)" "length (tk_claimed ?s) \<le> q \<or> (\<exists>u. q \<in> taking_range (tk_pc ?s u))"
    then have "q \<noteq> unat i" using i(1) not by auto
    moreover have "length (tk_claimed s) \<le> q \<or> (\<exists>u. q \<in> taking_range (tk_pc s u))" using q(2) sub by auto
    ultimately show "tk_slot ?s (of_nat q) = Some (tk_sent ?s ! q)" using slotsD(5) [OF ok, of q] q(1) other by simp
  next
    fix x assume "tk_prod ?s = PPublish x"
    with slotsD(6) [OF ok] other [of "length (tk_sent s)"] i show "tk_slot ?s (of_nat (length (tk_sent ?s))) = Some x" by simp
  qed
  ultimately have "tk_inv N ?s" by (rule tk_invI)
  then show ?thesis by (simp add: tk_step_def pc x)
qed

text \<open>The producer.\<close>

lemma counts_prod:
  "tk_counts N (s\<lparr>tk_prod := e\<rparr>) W = tk_counts N s W" "tk_counts N (s\<lparr>tk_slot := m, tk_prod := e\<rparr>) W = tk_counts N s W"
  "tk_counts N (s\<lparr>tk_slot := m\<rparr>) W = tk_counts N s W"
  by (simp_all add: tk_counts_def)

lemma slots_prod: "tk_slots N s \<Longrightarrow> \<forall>x. e \<noteq> PPublish x \<Longrightarrow> tk_slots N (s\<lparr>tk_prod := e\<rparr>)"
  by (auto simp: tk_slots_def)

lemma step_write:
  assumes c: "tk_counts N s W" and ok: "tk_slots N s" and small: "tk_small s"
  shows "tk_inv N (s\<lparr>tk_slot := (tk_slot s)(tk_tail s := Some x), tk_prod := PPublish x\<rparr>)"
proof (rule tk_invI [where W = W])
  have "of_nat q \<noteq> tk_tail s" if "q < length (tk_sent s)" for q
    using that countsD(1) [OF c] index_inj [of q "length (tk_sent s)"] small by (simp add: tk_small_def)
  then show "tk_slots N (s\<lparr>tk_slot := (tk_slot s)(tk_tail s := Some x), tk_prod := PPublish x\<rparr>)"
    using ok countsD(1) [OF c] by (auto simp: tk_slots_def)
qed (simp add: counts_prod c)

lemma step_publish:
  assumes c: "tk_counts N s W" and ok: "tk_slots N s" and p: "tk_prod s = PPublish x"
  shows "tk_inv N (s\<lparr>tk_tail := tk_tail s + 1, tk_prod := PIdle, tk_sent := tk_sent s @ [x]\<rparr>)"
proof (rule tk_invI)
  let ?s = "s\<lparr>tk_tail := tk_tail s + 1, tk_prod := PIdle, tk_sent := tk_sent s @ [x]\<rparr>"
  have "j < length (tk_sent ?s) + returned_below W j" if "j < tk_tickets s" "W j = Granted" for j
    using countsD(7) [OF c that] by simp
  then show "tk_counts N ?s W" unfolding tk_counts_def using countsD [OF c] by simp
  show "tk_slots N ?s"
    unfolding tk_slots_def
  proof (intro conjI allI impI)
    fix q assume "q < length (tk_sent ?s)" "length (tk_claimed ?s) \<le> q \<or> (\<exists>t. q \<in> taking_range (tk_pc ?s t))"
    with slotsD(5) [OF ok, of q] slotsD(6) [OF ok p] show "tk_slot ?s (of_nat q) = Some (tk_sent ?s ! q)"
      by (cases "q = length (tk_sent s)") (auto simp: nth_append)
  qed (use ok slotsD(2) [OF ok] in \<open>auto simp: tk_slots_def\<close>)
qed

lemma prod_step_ok:
  assumes inv: "tk_inv N s" and small: "tk_small s"
  shows "\<exists>s'. prod_step alloc s = Inr s' \<and> tk_inv N s'"
proof -
  obtain W where c: "tk_counts N s W" and ok: "tk_slots N s" using inv by (auto simp: tk_inv_def)
  have local: "tk_inv N (s\<lparr>tk_prod := e\<rparr>)" if "\<forall>x. e \<noteq> PPublish x" for e
    using tk_invI [of N "s\<lparr>tk_prod := e\<rparr>" W] c slots_prod [OF ok that] by (simp add: counts_prod)
  show ?thesis
  proof (cases "tk_prod s")
    case (PHead x)
    have "\<not> circular_less_than (tk_tail s) (tk_head s)"
      using countsD(1,2) [OF c] circular_less_index [of "length (tk_sent s)" "length (tk_claimed s)"] tk_claimed_le [OF ok] small
      by (simp add: tk_small_def)
    with PHead show ?thesis by (auto simp: prod_step_def intro: local)
  next
    case (PWrite x)
    with step_write [OF c ok small, of x] show ?thesis by (simp add: prod_step_def)
  next
    case (PPublish x)
    with step_publish [OF c ok] show ?thesis by (simp add: prod_step_def)
  qed (use inv in \<open>auto simp: prod_step_def intro: local\<close>)
qed

text \<open>The tickets stay few until the end of the step.\<close>

definition asked :: "tk_pc \<Rightarrow> nat" where
  "asked p = (case p of TTicket over d \<Rightarrow> unat d | _ \<Rightarrow> 0)"

lemma tk_step_ok:
  assumes inv: "tk_inv N s" and t: "t < N" and small: "tk_small s" and few: "tk_tickets s + asked (tk_pc s t) < 2 ^ 63"
  shows "\<exists>s'. tk_step t s = Inr s' \<and> tk_inv N s'"
proof -
  obtain W where c: "tk_counts N s W" and ok: "tk_slots N s" using inv by (auto simp: tk_inv_def)
  show ?thesis
  proof (cases "tk_pc s t")
    case (TTicket over d)
    with step_ticket [OF c ok t] few show ?thesis by (simp add: tk_step_def asked_def)
  next
    case (TGiveBack m a)
    with step_return [OF c ok t _ small] show ?thesis by (simp add: tk_step_def)
  next
    case (TClaim a)
    with step_claim(1) [OF c ok t _ small] show ?thesis by (simp add: tk_step_def)
  next
    case (TTake i n)
    then show ?thesis using step_take [OF c ok t _ small] step_reads [OF c ok t] by (cases n) auto
  qed (use step_reads [OF c ok t] step_check [OF c ok t _ small] in auto)
qed

lemma tk_step_monotone: "tk_step t s = Inr s' \<Longrightarrow> tk_tickets s + asked (tk_pc s t) = tk_tickets s' \<and> tk_sent s' = tk_sent s"
  by (cases "tk_pc s t") (auto simp: tk_step_def asked_def Let_def split: if_splits option.splits nat.splits)

lemma prod_step_monotone: "prod_step alloc s = Inr s' \<Longrightarrow> tk_tickets s' = tk_tickets s \<and> length (tk_sent s) \<le> length (tk_sent s')"
  by (cases "tk_prod s") (auto simp: prod_step_def split: if_splits)

lemma ticket_step_ok:
  assumes step: "ticket_step N s s'" and small: "tk_small s'"
  shows "tk_small s \<and> (tk_inv N s \<longrightarrow> tk_inv N s')"
  using step
proof cases
  case (enqueue x)
  then show ?thesis
    using small slots_prod [of N s "PStart x"] by (auto simp: tk_small_def tk_inv_def counts_prod)
next
  case (dequeue t m)
  then show ?thesis using small by (auto simp: tk_small_def tk_inv_def [of N s] intro: tk_moves)
next
  case (produce alloc)
  then have "tk_small s" using small prod_step_monotone by (fastforce simp: tk_small_def)
  with produce prod_step_ok [of N s alloc] show ?thesis by auto
next
  case (consume t)
  then have "tk_small s" "tk_tickets s + asked (tk_pc s t) < 2 ^ 63" using small tk_step_monotone by (fastforce simp: tk_small_def)+
  with consume tk_step_ok [of N s t] show ?thesis by auto
qed

lemma ticket_start_ok: "tk_inv N ticket_start"
  by (rule tk_invI [where W = "\<lambda>j. Granted"])
    (simp_all add: tk_counts_def tk_slots_def ticket_start_def granted_below_def returned_below_def)

lemma ticket_run_ok: "(ticket_step N)\<^sup>*\<^sup>* ticket_start s \<Longrightarrow> tk_small s \<Longrightarrow> tk_inv N s"
  by (induction rule: rtranclp_induct) (use ticket_start_ok ticket_step_ok in blast)+

section \<open>The properties\<close>

text \<open>
  C13: as long as fewer than \<open>2 ^ 63\<close> objects were enqueued and tickets taken, in every interleaving of the producer
  with any number of consumers no assertion fails, an index that was claimed has an object that no other consumer
  takes, and the objects are claimed in the order they were enqueued.
\<close>

theorem tickets_claim_in_order:
  assumes "(ticket_step N)\<^sup>*\<^sup>* ticket_start s" and "tk_small s" and "t < N" and "tk_tickets s + asked (tk_pc s t) < 2 ^ 63"
  shows "(\<exists>s'. prod_step alloc s = Inr s') \<and> (\<exists>s'. tk_step t s = Inr s') \<and> (\<exists>rest. tk_sent s = tk_claimed s @ rest)"
  using prod_step_ok [OF ticket_run_ok [OF assms(1,2)] assms(2)] tk_step_ok [OF ticket_run_ok [OF assms(1,2)] assms(3,2,4)]
    ticket_run_ok [OF assms(1,2)] slotsD(2) [of N s]
  by (auto simp: tk_inv_def)

text \<open>A consumer that runs alone for \<open>k\<close> steps.\<close>

fun tk_alone :: "nat \<Rightarrow> nat \<Rightarrow> 'a tickets \<Rightarrow> 'a tickets outcome" where
  "tk_alone 0 t s = Inr s"
| "tk_alone (Suc k) t s = bind_outcome (tk_step t s) (tk_alone k t)"

lemma tk_alone_run: "tk_alone k t s = Inr s' \<Longrightarrow> t < N \<Longrightarrow> (ticket_step N)\<^sup>*\<^sup>* s s'"
  by (induction k arbitrary: s)
    (auto simp: bind_outcome_eq_Inr intro: converse_rtranclp_into_rtranclp dest: ticket_step.consume)

lemma rest_counts:
  assumes c: "tk_counts N s W" and idle: "\<forall>t. tk_pc s t = TIdle"
  shows "tk_tickets s = length (tk_claimed s) + unat (tk_over s)"
proof -
  have "W j = Granted \<or> W j = Returned" if "j < tk_tickets s" for j
  proof (cases "W j")
    case (Undecided u)
    then have "j \<in> {j. j < tk_tickets s \<and> W j = Undecided u}" using that by simp
    then show ?thesis unfolding countsD(6) [OF c] using idle by simp
  qed simp_all
  then have "{..<tk_tickets s} = {j. j < tk_tickets s \<and> W j = Granted} \<union> {j. j < tk_tickets s \<and> W j = Returned}" by auto
  then have "card {..<tk_tickets s} = card ({j. j < tk_tickets s \<and> W j = Granted} \<union> {j. j < tk_tickets s \<and> W j = Returned})"
    by (rule arg_cong)
  also have "\<dots> = granted_below W (tk_tickets s) + returned_below W (tk_tickets s)"
    unfolding granted_below_def returned_below_def by (rule card_Un_disjoint) auto
  finally have "tk_tickets s = granted_below W (tk_tickets s) + returned_below W (tk_tickets s)" by simp
  then show ?thesis using countsD(4,5) [OF c] idle by simp
qed

lemma slots_from_cong: "tk_slot s' = tk_slot s \<Longrightarrow> slots_from s' i n = slots_from s i n"
  by (induction n arbitrary: i) (auto split: option.split)

text \<open>
  C14: when no consumer is inside, a consumer that runs alone claims exactly as many objects as it asked for or as
  there are, the next ones in order: no ticket that was given back hides an object.
\<close>

theorem tickets_find_all:
  fixes s :: "'a tickets"
  assumes "(ticket_step N)\<^sup>*\<^sup>* ticket_start s" and "tk_small s" and "\<forall>u. tk_pc s u = TIdle" and "0 < m"
  shows "\<exists>rest s'. tk_sent s = tk_claimed s @ rest \<and>
    (if rest = [] then tk_alone 3 t (goto_tk t (TTail m) s) = Inr s' \<and> tk_pc s' t = TIdle \<and> tk_claimed s' = tk_claimed s
     else tk_alone 6 t (goto_tk t (TTail m) s) = Inr s' \<and> tk_claimed s' = tk_claimed s @ take (unat m) rest \<and>
       tk_pc s' t = TTake (tk_head s) (min (unat m) (length rest)))"
proof -
  have "tk_inv N s" by (rule ticket_run_ok [OF assms(1,2)])
  then obtain W where c: "tk_counts N s W" and ok: "tk_slots N s" by (auto simp: tk_inv_def)
  obtain rest where rest: "tk_sent s = tk_claimed s @ rest" using slotsD(2) [OF ok] by blast
  have small: "tk_tickets s < 2 ^ 63" "length (tk_sent s) < 2 ^ 63" using assms(2) by (simp_all add: tk_small_def)
  then have r: "length rest < 2 ^ 63" using rest by simp
  have tick: "tk_tickets s = length (tk_claimed s) + unat (tk_over s)" by (rule rest_counts [OF c assms(3)])
  define desired where "desired = tk_tail s - (tk_opt s - tk_over s)"
  have "desired = of_nat (length rest)"
    using countsD(1,3) [OF c] tick rest by (simp add: desired_def)
  then have d: "unat desired = length rest" using unat_index [OF r] by simp
  have less: "circular_less_than 0 desired \<longleftrightarrow> rest \<noteq> []"
    using circular_less_index [of 0 "length rest"] r \<open>desired = of_nat (length rest)\<close> by (cases rest) auto
  show ?thesis
  proof (cases "rest = []")
    case True
    with less show ?thesis
      using rest by (auto simp: numeral_nat tk_step_def Let_def desired_def)
  next
    case False
    define a where "a = (if desired < m then desired else m)"
    have a: "unat a = min (unat m) (length rest)" using d by (auto simp: a_def word_less_nat_alt)
    have le: "tk_over s \<le> tk_opt s"
      using countsD(3) [OF c] unat_index [OF small(1)] tick by (simp add: word_le_nat_alt)
    have objs: "slots_from s (tk_head s) (unat a) = take (unat m) rest"
    proof -
      have "slots_from s (of_nat (length (tk_claimed s))) (unat a) = take (unat a) (drop (length (tk_claimed s)) (tk_sent s))"
        by (rule slots_from_list; use a rest slotsD(5) [OF ok, of "length (tk_claimed s) + _"] in \<open>simp del: of_nat_add\<close>)
      then show ?thesis using countsD(2) [OF c] a rest by (simp add: min_def)
    qed
    let ?s1 = "goto_tk t (TTail m) s" and ?s2 = "goto_tk t (TOver m (tk_tail s)) s"
    let ?s3 = "goto_tk t (TCompare m (tk_tail s) (tk_over s)) s" and ?s4 = "goto_tk t (TTicket (tk_over s) a) s"
    let ?s' = "s\<lparr>tk_opt := tk_opt s + a, tk_tickets := tk_tickets s + unat a\<rparr>"
    let ?s5 = "goto_tk t (TCheck (tk_over s) (tk_opt s) a) ?s'" and ?s6 = "goto_tk t (TClaim a) ?s'"
    let ?s7 = "goto_tk t (TTake (tk_head s) (unat a)) (?s'\<lparr>tk_head := tk_head s + a, tk_claimed := tk_claimed s @ take (unat m) rest\<rparr>)"
    have again: "goto_tk t p (goto_tk t p' u) = goto_tk t p u" for p p' and u :: "'a tickets" by (simp add: goto_tk_def)
    have "tk_step t ?s1 = Inr ?s2" "tk_step t ?s2 = Inr ?s3" by (simp_all add: tk_step_def again)
    moreover have "tk_step t ?s3 = Inr ?s4"
      using less False unfolding a_def by (simp add: tk_step_def again Let_def desired_def [symmetric])
    moreover have "tk_step t ?s4 = Inr ?s5" using le by (simp add: tk_step_def goto_tk_def)
    moreover have "tk_step t ?s5 = Inr ?s6"
      using less False by (cases "a < desired") (auto simp: tk_step_def again Let_def desired_def [symmetric] a_def)
    moreover have "tk_step t ?s6 = Inr ?s7"
      using objs slots_from_cong [of ?s6 s] by (simp add: tk_step_def goto_tk_def)
    ultimately have "tk_alone 6 t ?s1 = Inr ?s7" by (simp add: numeral_nat)
    with False rest a show ?thesis by (intro exI [of _ rest] exI [of _ ?s7]) simp
  qed
qed

text \<open>One object is enqueued; a consumer that asks for five claims it.\<close>

definition sample_tickets :: "string tickets" where
  "sample_tickets = \<lparr>tk_tail = 1, tk_head = 0, tk_opt = 0, tk_over = 0, tk_slot = (\<lambda>i. None)(0 := Some ''a''), tk_prod = PIdle,
     tk_pc = (\<lambda>t. TIdle), tk_sent = [''a''], tk_claimed = [], tk_tickets = 0\<rparr>"

lemma sample_enqueued: "(ticket_step 2)\<^sup>*\<^sup>* ticket_start sample_tickets"
proof -
  let ?s = "\<lambda>p. ticket_start\<lparr>tk_prod := p\<rparr> :: string tickets" and ?w = "ticket_start\<lparr>tk_slot := (\<lambda>i. None)(0 := Some ''a''), tk_prod := PPublish ''a''\<rparr>"
  have "ticket_step 2 ticket_start (?s (PStart ''a''))" by (rule ticket_step.enqueue) (simp add: ticket_start_def)
  moreover have "ticket_step 2 (?s (PStart ''a'')) (?s (PHead ''a''))" "ticket_step 2 (?s (PHead ''a'')) (?s (PBlock ''a''))"
    by (rule ticket_step.produce [of True]; simp add: prod_step_def ticket_start_def circular_less_than_def BLOCK_SIZE_def)+
  moreover have "ticket_step 2 (?s (PBlock ''a'')) (?s (PWrite ''a''))" "ticket_step 2 (?s (PWrite ''a'')) ?w" "ticket_step 2 ?w sample_tickets"
    by (rule ticket_step.produce [of True]; simp add: prod_step_def ticket_start_def sample_tickets_def)+
  ultimately show ?thesis by (meson converse_rtranclp_into_rtranclp rtranclp.rtrancl_refl)
qed

theorem tickets_claim_in_order_witness:
  "\<exists>s :: string tickets. (ticket_step 2)\<^sup>*\<^sup>* ticket_start s \<and> tk_pc s 1 = TTake 0 1 \<and> (\<exists>s'. tk_step 1 s = Inr s') \<and>
    (\<exists>rest. tk_sent s = tk_claimed s @ rest) \<and> tk_claimed s = [''a'']"
proof -
  have a: "ticket_step 2 sample_tickets (goto_tk 1 (TTail 5) sample_tickets)" by (rule ticket_step.dequeue) (simp_all add: sample_tickets_def)
  have "case tk_alone 6 1 (goto_tk 1 (TTail 5) sample_tickets) of Inl e \<Rightarrow> False
    | Inr s \<Rightarrow> tk_pc s 1 = TTake 0 1 \<and> tk_claimed s = [''a''] \<and> tk_sent s = [''a''] \<and> tk_tickets s = 1" by code_simp
  then obtain s where s: "tk_alone 6 1 (goto_tk 1 (TTail 5) sample_tickets) = Inr s" "tk_pc s 1 = TTake 0 1"
      "tk_claimed s = [''a'']" "tk_sent s = [''a'']" "tk_tickets s = 1"
    by (cases "tk_alone 6 1 (goto_tk 1 (TTail 5) sample_tickets)") auto
  then have small: "tk_small s" "tk_tickets s + asked (tk_pc s 1) < 2 ^ 63" by (simp_all add: tk_small_def asked_def)
  have "(ticket_step 2)\<^sup>*\<^sup>* sample_tickets s"
    by (rule converse_rtranclp_into_rtranclp [OF a tk_alone_run [OF s(1)]]) simp
  with sample_enqueued have r: "(ticket_step 2)\<^sup>*\<^sup>* ticket_start s" by (rule rtranclp_trans)
  from tickets_claim_in_order [OF r small(1) _ small(2), of True] have "\<exists>s'. tk_step 1 s = Inr s'" "\<exists>rest. tk_sent s = tk_claimed s @ rest"
    by simp_all
  with r s(2,3) show ?thesis by blast
qed

theorem tickets_find_all_witness:
  "\<exists>s'. tk_alone 6 1 (goto_tk 1 (TTail 5) sample_tickets) = Inr s' \<and> tk_claimed s' = [''a''] \<and> tk_pc s' 1 = TTake 0 1"
  using tickets_find_all [OF sample_enqueued, of 5 1] by (auto simp: sample_tickets_def tk_small_def)

end
