(* ===== verification/GzStream.thy ===== *)
theory GzStream
  imports Prelude
begin

text \<open>
  The stream buffer over zlib (\<open>include/utils/gzstream.h\<close>, \<open>lib/gzstream.C\<close>) that \<open>file_aggr_stream\<close> was
  made for. zlib is not part of the repository: its four functions are the parameter \<open>z\<close>; what is assumed of
  them is stated with the theorems. The members of \<open>std::streambuf\<close> the class inherits (\<open>sputc\<close>, \<open>xsputn\<close>,
  \<open>sbumpc\<close>) are written out. Positions are offsets into \<open>buffer\<close>.
\<close>

section \<open>The buffer\<close>

record openmode =
  om_in :: bool
  om_out :: bool
  om_ate :: bool
  om_app :: bool

text \<open>The functions of zlib on a file \<open>'f\<close>; \<open>gzread\<close> returns its result and the characters it stored.\<close>

record 'f zlib =
  gzopen :: "string \<Rightarrow> string \<Rightarrow> 'f option"
  gzread :: "nat \<Rightarrow> 'f \<Rightarrow> int \<times> string \<times> 'f"
  gzwrite :: "string \<Rightarrow> 'f \<Rightarrow> int \<times> 'f"
  gzclose :: "'f \<Rightarrow> bool \<times> 'f"

record 'f gzbuf =
  gz_file :: "'f option"
  gz_data :: string
  gz_opened :: bool
  gz_mode :: openmode
  gz_pptr :: nat
  gz_eback :: nat
  gz_gptr :: nat
  gz_egptr :: nat

definition bufferSize :: nat where
  "bufferSize = 47 + 256"

text \<open>\<open>junk\<close> is what the uninitialised members hold. The put area leaves one character of the buffer unused.\<close>

definition gz_new :: "string \<Rightarrow> openmode \<Rightarrow> 'f gzbuf" where
  "gz_new junk m = \<lparr>gz_file = None, gz_data = junk, gz_opened = False, gz_mode = m, gz_pptr = 0,
     gz_eback = 4, gz_gptr = 4, gz_egptr = 4\<rparr>"

definition gz_fmode :: "openmode \<Rightarrow> string" where
  "gz_fmode m = (if om_in m then ''r'' else if om_out m then ''w'' else []) @ ''b''"

definition gz_open :: "'f zlib \<Rightarrow> string \<Rightarrow> openmode \<Rightarrow> 'f gzbuf \<Rightarrow> bool \<times> 'f gzbuf" where
  "gz_open z name m b =
     (if gz_opened b then (False, b)
      else
        let b = b\<lparr>gz_mode := m\<rparr> in
        if om_ate m \<or> om_app m \<or> om_in m \<and> om_out m then (False, b)
        else
          case gzopen z name (gz_fmode m) of
            None \<Rightarrow> (False, b\<lparr>gz_file := None\<rparr>)
          | Some f \<Rightarrow> (True, b\<lparr>gz_file := Some f, gz_opened := True\<rparr>))"

text \<open>The put side. The answer of \<open>flush_buffer\<close> and \<open>overflow\<close>: \<open>None\<close> is \<open>EOF\<close>.\<close>

definition flush_buffer :: "'f zlib \<Rightarrow> 'f gzbuf \<Rightarrow> (nat option \<times> 'f gzbuf) outcome" where
  "flush_buffer z b =
     (case gz_file b of
        None \<Rightarrow> Inl BadDeref
      | Some f \<Rightarrow>
          let w = gz_pptr b in
          case gzwrite z (take w (gz_data b)) f of
            (r, f') \<Rightarrow>
              if r \<noteq> int w then Inr (None, b\<lparr>gz_file := Some f'\<rparr>)
              else Inr (Some w, b\<lparr>gz_file := Some f', gz_pptr := 0\<rparr>))"

text \<open>Storing a character at \<open>pptr()\<close>; past the end of \<open>buffer\<close> it is a fault.\<close>

definition gz_put :: "char \<Rightarrow> 'f gzbuf \<Rightarrow> 'f gzbuf outcome" where
  "gz_put c b =
     (if gz_pptr b < length (gz_data b) then Inr (b\<lparr>gz_data := (gz_data b)[gz_pptr b := c], gz_pptr := gz_pptr b + 1\<rparr>)
      else Inl BadRange)"

definition overflow :: "'f zlib \<Rightarrow> char option \<Rightarrow> 'f gzbuf \<Rightarrow> (char option \<times> 'f gzbuf) outcome" where
  "overflow z c b =
     (if \<not> om_out (gz_mode b) \<or> \<not> gz_opened b then Inr (None, b)
      else
        bind_outcome (case c of None \<Rightarrow> Inr b | Some c \<Rightarrow> gz_put c b) (\<lambda>b.
        bind_outcome (flush_buffer z b) (\<lambda>r.
          Inr (if fst r = None then None else c, snd r))))"

definition sync_gz :: "'f zlib \<Rightarrow> 'f gzbuf \<Rightarrow> (int \<times> 'f gzbuf) outcome" where
  "sync_gz z b =
     (if 0 < gz_pptr b then bind_outcome (flush_buffer z b) (\<lambda>r. Inr (if fst r = None then -1 else 0, snd r))
      else Inr (0, b))"

definition gz_close :: "'f zlib \<Rightarrow> 'f gzbuf \<Rightarrow> (bool \<times> 'f gzbuf) outcome" where
  "gz_close z b =
     (if gz_opened b then
        bind_outcome (sync_gz z b) (\<lambda>r.
          let b = (snd r)\<lparr>gz_opened := False\<rparr> in
          case gz_file b of
            None \<Rightarrow> Inl BadDeref
          | Some f \<Rightarrow> (case gzclose z f of (ok, f') \<Rightarrow> Inr (ok, b\<lparr>gz_file := Some f'\<rparr>)))
      else Inr (False, b))"

text \<open>\<open>sputc\<close> uses the put area up to its end, \<open>xsputn\<close> writes until the first failure.\<close>

definition sputc :: "'f zlib \<Rightarrow> char \<Rightarrow> 'f gzbuf \<Rightarrow> (char option \<times> 'f gzbuf) outcome" where
  "sputc z c b =
     (if gz_pptr b < bufferSize - 1 then bind_outcome (gz_put c b) (\<lambda>b. Inr (Some c, b))
      else overflow z (Some c) b)"

fun xsputn :: "'f zlib \<Rightarrow> string \<Rightarrow> 'f gzbuf \<Rightarrow> (nat \<times> 'f gzbuf) outcome" where
  "xsputn z [] b = Inr (0, b)"
| "xsputn z (c # cs) b =
     bind_outcome (sputc z c b) (\<lambda>r.
       if fst r = None then Inr (0, snd r)
       else bind_outcome (xsputn z cs (snd r)) (\<lambda>r'. Inr (fst r' + 1, snd r')))"

text \<open>The get side. \<open>memcpy\<close> within the buffer: overlapping ranges are undefined behaviour.\<close>

definition copy_back :: "nat \<Rightarrow> nat \<Rightarrow> nat \<Rightarrow> string \<Rightarrow> string outcome" where
  "copy_back dst src n s =
     (if 0 < n \<and> src < dst + n \<and> dst < src + n then Inl BadRange
      else Inr (take dst s @ take n (drop src s) @ drop (dst + n) s))"

definition underflow :: "'f zlib \<Rightarrow> 'f gzbuf \<Rightarrow> (char option \<times> 'f gzbuf) outcome" where
  "underflow z b =
     (if gz_gptr b < gz_egptr b then Inr (Some (gz_data b ! gz_gptr b), b)
      else if \<not> om_in (gz_mode b) \<or> \<not> gz_opened b then Inr (None, b)
      else
        let n_putback = min (gz_gptr b - gz_eback b) 4 in
        bind_outcome (copy_back (4 - n_putback) (gz_gptr b - n_putback) n_putback (gz_data b)) (\<lambda>data.
          case gz_file b of
            None \<Rightarrow> Inl BadDeref
          | Some f \<Rightarrow>
              (case gzread z (bufferSize - 4) f of
                (num, s, f') \<Rightarrow>
                  if num \<le> 0 then Inr (None, b\<lparr>gz_data := data, gz_file := Some f'\<rparr>)
                  else
                    let b = b\<lparr>gz_data := take 4 data @ s @ drop (4 + length s) data, gz_file := Some f',
                              gz_eback := 4 - n_putback, gz_gptr := 4, gz_egptr := 4 + nat num\<rparr>
                    in Inr (Some (gz_data b ! gz_gptr b), b))))"

definition sbumpc :: "'f zlib \<Rightarrow> 'f gzbuf \<Rightarrow> (char option \<times> 'f gzbuf) outcome" where
  "sbumpc z b =
     bind_outcome (underflow z b) (\<lambda>r.
       Inr (fst r, if fst r = None then snd r else (snd r)\<lparr>gz_gptr := gz_gptr (snd r) + 1\<rparr>))"

text \<open>Reading a stream to its end; \<open>None\<close> when the end never comes.\<close>

partial_function (option) read_all :: "'f zlib \<Rightarrow> 'f gzbuf \<Rightarrow> string \<Rightarrow> string outcome option" where
  "read_all z b acc =
     (case sbumpc z b of
        Inl e \<Rightarrow> Some (Inl e)
      | Inr r \<Rightarrow> (case fst r of None \<Rightarrow> Some (Inr acc) | Some c \<Rightarrow> read_all z (snd r) (acc @ [c])))"

section \<open>The stream\<close>

record 'f gzstream =
  gs_buf :: "'f gzbuf"
  gs_bad :: bool

definition gs_open :: "'f zlib \<Rightarrow> string \<Rightarrow> openmode \<Rightarrow> 'f gzstream \<Rightarrow> 'f gzstream" where
  "gs_open z name m s =
     (case gz_open z name m (gs_buf s) of (ok, b) \<Rightarrow> s\<lparr>gs_buf := b, gs_bad := (\<not> ok \<or> gs_bad s)\<rparr>)"

definition gs_close :: "'f zlib \<Rightarrow> 'f gzstream \<Rightarrow> 'f gzstream outcome" where
  "gs_close z s =
     (if gz_opened (gs_buf s) then
        bind_outcome (gz_close z (gs_buf s)) (\<lambda>r. Inr (s\<lparr>gs_buf := snd r, gs_bad := (\<not> fst r \<or> gs_bad s)\<rparr>))
      else Inr s)"

text \<open>
  The constructors of \<open>igzstream\<close> and \<open>ogzstream\<close>: the base class opens the file and sets \<open>badbit\<close> when that
  fails; the constructor of \<open>std::istream\<close> or \<open>std::ostream\<close>, which comes after it, calls \<open>init\<close> and clears the state.
\<close>

definition gs_new :: "'f zlib \<Rightarrow> string \<Rightarrow> openmode \<Rightarrow> string \<Rightarrow> openmode \<Rightarrow> 'f gzstream" where
  "gs_new z junk junk_mode name m = (gs_open z name m \<lparr>gs_buf = gz_new junk junk_mode, gs_bad = False\<rparr>)\<lparr>gs_bad := False\<rparr>"

text \<open>The default modes of \<open>ogzstream\<close> and \<open>igzstream\<close>.\<close>

definition out_mode :: openmode where
  "out_mode = \<lparr>om_in = False, om_out = True, om_ate = False, om_app = False\<rparr>"

definition in_mode :: openmode where
  "in_mode = \<lparr>om_in = True, om_out = False, om_ate = False, om_app = False\<rparr>"

text \<open>Unformatted output: nothing is written to a bad stream, and a failure makes it bad.\<close>

definition gs_write :: "'f zlib \<Rightarrow> string \<Rightarrow> 'f gzstream \<Rightarrow> 'f gzstream outcome" where
  "gs_write z t s =
     (if gs_bad s then Inr s
      else bind_outcome (xsputn z t (gs_buf s)) (\<lambda>r. Inr (s\<lparr>gs_buf := snd r, gs_bad := (fst r \<noteq> length t)\<rparr>)))"

section \<open>Writing\<close>

text \<open>What is assumed of \<open>gzwrite\<close>, \<open>gzclose\<close>: characters accepted are appended to the file.\<close>

definition writes_all :: "'f zlib \<Rightarrow> ('f \<Rightarrow> string) \<Rightarrow> bool" where
  "writes_all z content \<longleftrightarrow> (\<forall>s f. fst (gzwrite z s f) = int (length s) \<and> content (snd (gzwrite z s f)) = content f @ s) \<and>
     (\<forall>f. fst (gzclose z f) \<and> content (snd (gzclose z f)) = content f)"

text \<open>The buffer between writes: the characters written are those in the file and those that wait.\<close>

definition put_ok :: "('f \<Rightarrow> string) \<Rightarrow> 'f gzbuf \<Rightarrow> string \<Rightarrow> bool" where
  "put_ok content b t \<longleftrightarrow> gz_opened b \<and> om_out (gz_mode b) \<and> length (gz_data b) = bufferSize \<and> gz_pptr b \<le> bufferSize - 1 \<and>
     (\<exists>f. gz_file b = Some f \<and> t = content f @ take (gz_pptr b) (gz_data b))"

lemma sputc_ok:
  assumes z: "writes_all z content" and b: "put_ok content b t"
  shows "\<exists>b'. sputc z c b = Inr (Some c, b') \<and> put_ok content b' (t @ [c])"
proof -
  obtain f where f: "gz_file b = Some f" "t = content f @ take (gz_pptr b) (gz_data b)"
    and len: "length (gz_data b) = bufferSize" "gz_pptr b \<le> bufferSize - 1" "gz_opened b" "om_out (gz_mode b)"
    using b by (auto simp: put_ok_def)
  have p: "gz_pptr b < length (gz_data b)" using len by (simp add: bufferSize_def)
  let ?b = "b\<lparr>gz_data := (gz_data b)[gz_pptr b := c], gz_pptr := gz_pptr b + 1\<rparr>"
  have put: "gz_put c b = Inr ?b" using p by (simp add: gz_put_def)
  have shown: "take (gz_pptr b + 1) ((gz_data b)[gz_pptr b := c]) = take (gz_pptr b) (gz_data b) @ [c]"
    using p by (simp add: take_Suc_conv_app_nth)
  show ?thesis
  proof (cases "gz_pptr b < bufferSize - 1")
    case True
    with put shown f len show ?thesis by (auto simp: sputc_def put_ok_def)
  next
    case False
    let ?s = "take (gz_pptr b) (gz_data b) @ [c]"
    obtain r f' where w: "gzwrite z ?s f = (r, f')" by fastforce
    with z have "r = int (length ?s)" "content f' = content f @ ?s" unfolding writes_all_def by (metis fst_conv, metis snd_conv)
    moreover have "length ?s = gz_pptr b + 1" using p by simp
    ultimately have "sputc z c b = Inr (Some c, ?b\<lparr>gz_file := Some f', gz_pptr := 0\<rparr>)"
      using False len f put shown w by (simp add: sputc_def overflow_def flush_buffer_def)
    with \<open>content f' = content f @ ?s\<close> f len show ?thesis by (auto simp: put_ok_def)
  qed
qed

lemma xsputn_ok:
  "writes_all z content \<Longrightarrow> put_ok content b t \<Longrightarrow> \<exists>b'. xsputn z s b = Inr (length s, b') \<and> put_ok content b' (t @ s)"
proof (induction s arbitrary: b t)
  case (Cons c s)
  from sputc_ok [OF Cons.prems] obtain b' where "sputc z c b = Inr (Some c, b')" "put_ok content b' (t @ [c])" by blast
  with Cons.IH [OF Cons.prems(1), of b' "t @ [c]"] show ?case by auto
qed simp

lemma gz_close_ok:
  assumes z: "writes_all z content" and b: "put_ok content b t"
  shows "\<exists>b' f. gz_close z b = Inr (True, b') \<and> gz_file b' = Some f \<and> content f = t"
proof -
  obtain f where f: "gz_file b = Some f" "t = content f @ take (gz_pptr b) (gz_data b)"
    and len: "length (gz_data b) = bufferSize" "gz_pptr b \<le> bufferSize - 1" "gz_opened b"
    using b by (auto simp: put_ok_def)
  let ?s = "take (gz_pptr b) (gz_data b)"
  obtain r f' where w: "gzwrite z ?s f = (r, f')" by fastforce
  have "length ?s = gz_pptr b" using len by simp
  moreover have "r = int (length ?s)" "content f' = content f @ ?s" using z w unfolding writes_all_def by (metis fst_conv, metis snd_conv)
  ultimately have r: "r = int (gz_pptr b)" "content f' = t" using f(2) by simp_all
  obtain ok g ok' g' where c: "gzclose z f = (ok, g)" "gzclose z f' = (ok', g')" by fastforce
  with z have "ok" "content g = content f" "ok'" "content g' = content f'" unfolding writes_all_def by (metis fst_conv snd_conv)+
  with r w c f len show ?thesis
    by (cases "gz_pptr b = 0") (auto simp: gz_close_def sync_gz_def flush_buffer_def Let_def)
qed

section \<open>Reading\<close>

text \<open>The size of the get area.\<close>

definition getSize :: nat where
  "getSize = bufferSize - 4"

lemma getSize: "4 \<le> getSize" "0 < getSize" "bufferSize = getSize + 4" "bufferSize - 4 = getSize"
  by (simp_all add: getSize_def bufferSize_def)

text \<open>What is assumed of \<open>gzread\<close>: it returns what is asked for, or the rest of the file.\<close>

definition reads_all :: "'f zlib \<Rightarrow> ('f \<Rightarrow> string) \<Rightarrow> bool" where
  "reads_all z content \<longleftrightarrow> (\<forall>n f. case gzread z n f of (num, s, f') \<Rightarrow>
     num = int (length s) \<and> s = take n (content f) \<and> content f' = drop n (content f))"

text \<open>A get area whose characters have all been taken: it held \<open>r\<close> of them, with the rest \<open>u\<close> in the file.\<close>

definition drained :: "('f \<Rightarrow> string) \<Rightarrow> 'f gzbuf \<Rightarrow> nat \<Rightarrow> nat \<Rightarrow> string \<Rightarrow> bool" where
  "drained content b e r u \<longleftrightarrow> gz_opened b \<and> om_in (gz_mode b) \<and> length (gz_data b) = bufferSize \<and> gz_eback b = e \<and>
     gz_gptr b = 4 + r \<and> gz_egptr b = 4 + r \<and> r \<le> getSize \<and> (\<exists>f. gz_file b = Some f \<and> content f = u)"

lemma read_all_area:
  "gz_gptr b + k = gz_egptr b \<Longrightarrow> gz_egptr b \<le> length (gz_data b) \<Longrightarrow>
   read_all z b acc = read_all z (b\<lparr>gz_gptr := gz_egptr b\<rparr>) (acc @ take k (drop (gz_gptr b) (gz_data b)))"
proof (induction k arbitrary: b acc)
  case 0
  then have "b\<lparr>gz_gptr := gz_egptr b\<rparr> = b" by simp
  then show ?case by simp
next
  case (Suc k)
  let ?c = "gz_data b ! gz_gptr b" and ?b = "b\<lparr>gz_gptr := gz_gptr b + 1\<rparr>"
  have "sbumpc z b = Inr (Some ?c, ?b)" using Suc.prems by (simp add: sbumpc_def underflow_def)
  then have "read_all z b acc = read_all z ?b (acc @ [?c])" by (subst read_all.simps) simp
  moreover have "take (Suc k) (drop (gz_gptr b) (gz_data b)) = ?c # take k (drop (gz_gptr b + 1) (gz_data b))"
    using Suc.prems Cons_nth_drop_Suc [of "gz_gptr b" "gz_data b"] by (metis Suc_eq_plus1 add_Suc_shift le_add1 le_trans less_le_trans not_less_eq_eq take_Suc_Cons less_Suc_eq_le)
  ultimately show ?case using Suc.IH [of ?b "acc @ [?c]"] Suc.prems by simp
qed

text \<open>The copy of the last characters to the front of the buffer overlaps itself when the chunk was short.\<close>

lemma read_all_overlap:
  assumes "drained content b 0 r u" and "r < 4"
  shows "read_all z b acc = Some (Inl BadRange)"
proof -
  have "copy_back 0 r 4 (gz_data b) = Inl BadRange" using assms(2) by (simp add: copy_back_def)
  moreover have "min (gz_gptr b - gz_eback b) 4 = 4" "gz_gptr b - 4 = r" using assms by (auto simp: drained_def)
  ultimately have "sbumpc z b = Inl BadRange"
    using assms by (simp add: sbumpc_def underflow_def drained_def)
  then show ?thesis by (subst read_all.simps) simp
qed

lemma read_all_refill:
  assumes z: "reads_all z content" and b: "drained content b e r u" and e: "e \<le> 4"
    and apart: "min (4 + r - e) 4 = 0 \<or> min (4 + r - e) 4 \<le> r"
  shows "if u = [] then read_all z b acc = Some (Inr acc)
    else \<exists>b'. read_all z b acc = read_all z b' (acc @ take getSize u) \<and>
      drained content b' (4 - min (4 + r - e) 4) (min (length u) getSize) (drop getSize u)"
proof -
  obtain f where f: "gz_file b = Some f" "content f = u" and bs: "gz_opened b" "om_in (gz_mode b)" "length (gz_data b) = bufferSize"
      "gz_eback b = e" "gz_gptr b = 4 + r" "gz_egptr b = 4 + r" "r \<le> getSize"
    using b by (auto simp: drained_def)
  define n where "n = min (4 + r - e) 4"
  define data where "data = take (4 - n) (gz_data b) @ take n (drop (4 + r - n) (gz_data b)) @ drop (4 - n + n) (gz_data b)"
  have n4: "n \<le> 4" "n \<le> 4 + r" by (simp_all add: n_def)
  have "\<not> (0 < n \<and> 4 + r - n < 4 - n + n \<and> 4 - n < 4 + r - n + n)"
    using apart n4 unfolding n_def [symmetric] by linarith
  then have copy: "copy_back (4 - n) (4 + r - n) n (gz_data b) = Inr data" by (simp add: copy_back_def data_def)
  have ldata: "length data = bufferSize" using bs(3,7) n4 by (auto simp: data_def getSize(3))
  let ?s = "take getSize u"
  obtain num s f' where rd: "gzread z getSize f = (num, s, f')" by (cases "gzread z getSize f") auto
  have "case gzread z getSize f of (num, s, f') \<Rightarrow>
      num = int (length s) \<and> s = take getSize (content f) \<and> content f' = drop getSize (content f)"
    using z unfolding reads_all_def by (rule allE [of _ getSize]) (rule allE [of _ f])
  then have got: "num = int (length ?s)" "s = ?s" "content f' = drop getSize u" using rd f(2) by auto
  show ?thesis
  proof (cases "u = []")
    case True
    then have "sbumpc z b = Inr (None, b\<lparr>gz_data := data, gz_file := Some f'\<rparr>)"
      using copy bs f(1) rd got by (simp add: sbumpc_def underflow_def getSize(4) Let_def n_def [symmetric])
    with True show ?thesis by (subst read_all.simps) simp
  next
    case False
    let ?k = "length ?s"
    let ?b = "b\<lparr>gz_data := take 4 data @ ?s @ drop (4 + ?k) data, gz_file := Some f', gz_eback := 4 - n, gz_gptr := 4, gz_egptr := 4 + ?k\<rparr>"
    have k: "0 < ?k" "4 + ?k \<le> bufferSize" using False getSize by auto
    have area: "drop 4 (take 4 data @ ?s @ drop (4 + ?k) data) = ?s @ drop (4 + ?k) data" using ldata by (simp add: getSize(3))
    have "underflow z b = Inr (Some (gz_data ?b ! 4), ?b)"
      using copy bs f(1) rd got k by (simp add: underflow_def getSize(4) Let_def n_def [symmetric])
    then have "sbumpc z b = sbumpc z ?b" using k by (simp add: sbumpc_def underflow_def)
    then have "read_all z b acc = read_all z ?b acc" by (subst (1 2) read_all.simps) simp
    also have "\<dots> = read_all z (?b\<lparr>gz_gptr := 4 + ?k\<rparr>) (acc @ ?s)"
    proof -
      have at: "gz_gptr ?b = 4" "gz_egptr ?b = 4 + ?k" "gz_data ?b = take 4 data @ ?s @ drop (4 + ?k) data" by simp_all
      have "take ?k (?s @ drop (4 + ?k) data) = ?s" by (metis append_eq_conv_conj)
      then have got: "take ?k (drop (gz_gptr ?b) (gz_data ?b)) = ?s" unfolding at area .
      have "gz_egptr ?b \<le> length (gz_data ?b)" using k ldata unfolding at by (simp add: getSize(3))
      with read_all_area [of ?b ?k z acc] show ?thesis unfolding got unfolding at by simp
    qed
    finally have "read_all z b acc = read_all z (?b\<lparr>gz_gptr := 4 + ?k\<rparr>) (acc @ ?s)" .
    moreover have "drained content (?b\<lparr>gz_gptr := 4 + ?k\<rparr>) (4 - n) (min (length u) getSize) (drop getSize u)"
      using bs got(3) k ldata by (simp add: drained_def min.commute)
    ultimately show ?thesis using False unfolding n_def by auto
  qed
qed

text \<open>The last refill brings one to three characters.\<close>

definition short_last :: "nat \<Rightarrow> bool" where
  "short_last n \<longleftrightarrow> n mod getSize \<in> {1, 2, 3}"

text \<open>Taking a whole chunk off does not change whether the last chunk is a short one.\<close>

lemma short_rest:
  assumes "\<not> min (length u) getSize < 4"
  shows "short_last (length (drop getSize u)) \<longleftrightarrow> short_last (length u)"
proof (cases "length u < getSize")
  case True
  then show ?thesis using assms by (auto simp: short_last_def)
next
  case False
  then have "length u mod getSize = (length u - getSize) mod getSize" by (intro le_mod_geq) simp
  then show ?thesis by (simp add: short_last_def)
qed

lemma short_one: "u \<noteq> [] \<Longrightarrow> min (length u) getSize < 4 \<Longrightarrow> short_last (length u)"
proof -
  assume "u \<noteq> []" "min (length u) getSize < 4"
  then have "0 < length u" "length u < 4" "length u mod getSize = length u" using getSize(1) by auto
  then have "length u = 1 \<or> length u = 2 \<or> length u = 3" by linarith
  with \<open>length u mod getSize = length u\<close> show ?thesis by (auto simp: short_last_def)
qed

lemma read_all_rest:
  assumes z: "reads_all z content"
  shows "drained content b 0 r u \<Longrightarrow> 4 \<le> r \<Longrightarrow>
    read_all z b acc = Some (if short_last (length u) then Inl BadRange else Inr (acc @ u))"
proof (induction "length u" arbitrary: b r u acc rule: less_induct)
  case less
  have n: "min (4 + r - 0) 4 = 4" by simp
  note refill = read_all_refill [OF z less.prems(1), of acc, unfolded n]
  show ?case
  proof (cases "u = []")
    case True
    with refill less.prems(2) show ?thesis by (simp add: short_last_def)
  next
    case False
    with refill less.prems(2) obtain b' where b': "read_all z b acc = read_all z b' (acc @ take getSize u)"
      "drained content b' 0 (min (length u) getSize) (drop getSize u)" by auto
    note pos = getSize(2) getSize(1)
    show ?thesis
    proof (cases "min (length u) getSize < 4")
      case True
      with b'(1) read_all_overlap [OF b'(2) True] short_one [OF False True] show ?thesis by simp
    next
      case long: False
      have "length (drop getSize u) < length u" using False pos by simp
      moreover have "4 \<le> min (length u) getSize" using long by linarith
      ultimately have "read_all z b' (acc @ take getSize u) =
          Some (if short_last (length (drop getSize u)) then Inl BadRange else Inr (acc @ u))"
        using less.hyps [OF _ b'(2), of "acc @ take getSize u"] by (simp only: append_assoc append_take_drop_id)
      with b'(1) short_rest [OF long] show ?thesis by (simp del: length_drop)
    qed
  qed
qed

text \<open>
  Reading a file from its start: the first refill has nothing to put back, the later ones keep four characters.
\<close>

lemma read_all_start:
  assumes z: "reads_all z content" and b: "drained content b 4 0 u"
  shows "read_all z b [] = Some (if getSize < length u \<and> short_last (length u) then Inl BadRange else Inr u)"
proof (cases "u = []")
  case True
  with read_all_refill [OF z b, of "[]"] show ?thesis by simp
next
  case False
  note pos = getSize(1)
  from False read_all_refill [OF z b, of "[]"] obtain b' where b': "read_all z b [] = read_all z b' (take getSize u)"
    "drained content b' 4 (min (length u) getSize) (drop getSize u)" by auto
  have n: "min (4 + min (length u) getSize - 4) 4 = min (min (length u) getSize) 4" by simp
  note second = read_all_refill [OF z b'(2), of "take getSize u", unfolded n]
  show ?thesis
  proof (cases "length u \<le> getSize")
    case True
    with second b'(1) show ?thesis by simp
  next
    case long: False
    then have "min (min (length u) getSize) 4 = 4" using pos by simp
    with second long obtain b2 where b2: "read_all z b' (take getSize u) =
        read_all z b2 (take getSize u @ take getSize (drop getSize u))"
      "drained content b2 0 (min (length u - getSize) getSize) (drop getSize (drop getSize u))"
      using pos by auto
    define v where "v = drop getSize u"
    have v: "length v = length u - getSize" "v \<noteq> []" "u = take getSize u @ v" using long by (simp_all add: v_def)
    have mod: "short_last (length u) = short_last (length v)" using long v(1) by (simp add: short_last_def le_mod_geq)
    show ?thesis
    proof (cases "min (length v) getSize < 4")
      case True
      have "read_all z b2 (take getSize u @ take getSize v) = Some (Inl BadRange)"
        using read_all_overlap [OF b2(2)] True v(1) by (simp add: v_def)
      with short_one [OF v(2) True] b'(1) b2(1) mod long show ?thesis by (simp add: v_def [symmetric])
    next
      case False
      have "read_all z b2 (take getSize u @ take getSize v) =
          Some (if short_last (length (drop getSize v)) then Inl BadRange else Inr u)"
      proof -
        have "(take getSize u @ take getSize v) @ drop getSize v = u" using v(3) by simp
        moreover have "4 \<le> min (length u - getSize) getSize" using False v(1) by linarith
        ultimately show ?thesis using read_all_rest [OF z b2(2), of "take getSize u @ take getSize v"] by (simp only: v_def)
      qed
      with short_rest [OF False] b'(1) b2(1) mod long show ?thesis by (simp add: v_def [symmetric] del: length_drop)
    qed
  qed
qed

section \<open>What is written can be read\<close>

fun gs_writes :: "'f zlib \<Rightarrow> string list \<Rightarrow> 'f gzstream \<Rightarrow> 'f gzstream outcome" where
  "gs_writes z [] s = Inr s"
| "gs_writes z (t # ts) s = bind_outcome (gs_write z t s) (gs_writes z ts)"

lemma gs_writes_ok:
  "writes_all z content \<Longrightarrow> put_ok content (gs_buf s) t \<Longrightarrow> \<not> gs_bad s \<Longrightarrow>
   \<exists>s'. gs_writes z ts s = Inr s' \<and> put_ok content (gs_buf s') (t @ concat ts) \<and> \<not> gs_bad s'"
proof (induction ts arbitrary: s t)
  case (Cons u ts)
  from xsputn_ok [OF Cons.prems(1,2), of u] obtain b' where
    "xsputn z u (gs_buf s) = Inr (length u, b')" "put_ok content b' (t @ u)" by blast
  with Cons.IH [OF Cons.prems(1), of "s\<lparr>gs_buf := b', gs_bad := False\<rparr>" "t @ u"] Cons.prems(3) show ?case
    by (auto simp: gs_write_def)
qed auto


text \<open>A zlib whose files are their texts.\<close>

definition plain_zlib :: "string \<Rightarrow> string zlib" where
  "plain_zlib disk = \<lparr>gzopen = (\<lambda>name mode. Some (if mode = ''wb'' then [] else disk)),
     gzread = (\<lambda>n f. (int (length (take n f)), take n f, drop n f)),
     gzwrite = (\<lambda>s f. (int (length s), f @ s)), gzclose = (\<lambda>f. (True, f))\<rparr>"

lemma plain_zlib_ok: "writes_all (plain_zlib disk) id" "reads_all (plain_zlib disk) id"
  by (simp_all add: writes_all_def reads_all_def plain_zlib_def)


section \<open>Failures\<close>

text \<open>
  \<open>close\<close> answers success although the last flush failed: the answer of \<open>sync\<close> is dropped and the characters
  that waited in the buffer are lost.
\<close>

theorem gz_close_hides_loss:
  assumes "gz_opened b" and "gz_file b = Some f" and "0 < gz_pptr b" and "gzwrite z (take (gz_pptr b) (gz_data b)) f = (r, f')"
    and "r \<noteq> int (gz_pptr b)" and "gzclose z f' = (True, f'')"
  shows "\<exists>b'. gz_close z b = Inr (True, b') \<and> gz_file b' = Some f''"
  using assms by (simp add: gz_close_def sync_gz_def flush_buffer_def Let_def)

text \<open>A stream whose file could not be opened is not bad after its constructor; \<open>open\<close> on its own does tell.\<close>

theorem gz_failed_open_looks_good:
  assumes "gzopen z name (gz_fmode m) = None"
  shows "\<not> gs_bad (gs_new z junk jm name m) \<and> \<not> gz_opened (gs_buf (gs_new z junk jm name m)) \<and>
    gs_bad (gs_open z name m \<lparr>gs_buf = gz_new junk jm, gs_bad = False\<rparr>)"
  using assms by (auto simp: gs_new_def gs_open_def gz_open_def gz_new_def Let_def)

text \<open>
  After a flush that failed in \<open>overflow\<close> the put pointer stands past the end of the buffer: the next character
  that is put writes outside it.
\<close>

theorem gz_failed_flush_overruns:
  assumes "gz_opened b" and "om_out (gz_mode b)" and "length (gz_data b) = bufferSize" and "gz_pptr b = bufferSize - 1"
    and "gz_file b = Some f" and "gzwrite z (take (bufferSize - 1) (gz_data b) @ [c]) f = (r, f')" and "r \<noteq> int bufferSize"
  shows "\<exists>b'. sputc z c b = Inr (None, b') \<and> sputc z d b' = Inl BadRange"
proof -
  have p: "bufferSize - 1 < length (gz_data b)" "Suc (bufferSize - 1) = bufferSize" using assms(3) by (simp_all add: bufferSize_def)
  have "take bufferSize ((gz_data b)[bufferSize - 1 := c]) = take (bufferSize - 1) (gz_data b) @ [c]"
    using p assms(3) by (metis length_list_update take_Suc_conv_app_nth nth_list_update_eq take_update_cancel order_refl)
  then have "sputc z c b = Inr (None, b\<lparr>gz_data := (gz_data b)[bufferSize - 1 := c], gz_pptr := bufferSize, gz_file := Some f'\<rparr>)"
    using assms p by (simp add: sputc_def overflow_def gz_put_def flush_buffer_def Let_def)
  then show ?thesis using assms p by (simp add: sputc_def overflow_def gz_put_def)
qed

end
