(* ===== verification/Spec2Isabelle.thy ===== *)
theory Spec2Isabelle
  imports Prelude TextUtils Base64 FmtBuffer Records Queues Watch Pipeline Delivery Stalls Sensor FmtInt FmtFormat
    FmtWriter RecordText Daemon Sockets Streams SocketStream Spsc SpscQueue SpscSteps SpscRuns Semaphore MpmcQueue FreeList Tickets
    GzStream
begin

text \<open>
  A verification development for \<open>linux_sensors\<close>: a daemon that reads the system-call trace of the Linux kernel's
  tracer, parses it, batches it, and ships it to a console, a file, an aggregated file or a remote server.
  File names are relative to \<open>src/\<close>.

  \<^bold>\<open>The program.\<close> \<open>main.cpp\<close> reads the command line, makes a sink and starts a \<open>multithreaded_sensor\<close>, in a
  daemon that keeps a pid file. The sensor writes a filter to the tracer, switches it on and runs three threads:
  the reader cuts the trace into chunks and lines, the worker makes records of the lines and packs of the
  records, the sender hands the packs to the sink. Two \<open>message_queue\<close>s, each a \<open>SafeQueue\<close> (a mutex, a condition
  variable and a \<open>std::queue\<close>), join them; a null message marks the end. A server socket serves status texts.

  \<^bold>\<open>The theories\<close>, in the order of their imports, with the code they model:

  \<^item> \<open>Prelude\<close>: faults and their sequencing, machine integers, \<open>std::string\<close>; \<open>TextUtils\<close>: \<open>string_ref.h\<close>, \<open>utils.h\<close>
    (splitters, decimal parsers, the task listing); \<open>Base64\<close>: \<open>encoding.h\<close>.
  \<^item> \<open>Records\<close>: the two record types, the column parser of trace lines, \<open>DataAggregator\<close>, \<open>EventsBulk\<close>
    (\<open>sensor/trace/\<close>, \<open>data_aggregator.h\<close>, \<open>events_bulk.h\<close>); \<open>RecordText\<close>: their \<open>to_string\<close>.
  \<^item> \<open>Queues\<close>: \<open>simple_queue.h\<close> and \<open>message_queue.h\<close>, once as atomic operations and once statement by statement with
    any number of threads; \<open>Watch\<close>: \<open>events_measure.h\<close>, \<open>comma_numpunct.h\<close> and the status texts.
  \<^item> \<open>Pipeline\<close>: the three threads of \<open>multithreaded_sensor.h\<close> as a step relation on a shared state; \<open>Delivery\<close>: what
    they achieve together; \<open>Stalls\<close>: where they lose data or never end; \<open>Sensor\<close>: \<open>base_sensor.h\<close>, \<open>run\<close> and the
    loop that serves status texts.
  \<^item> \<open>FmtBuffer\<close>, \<open>FmtInt\<close>, \<open>FmtFormat\<close>, \<open>FmtWriter\<close>: the part of the formatting library (\<open>utils/format.h\<close>,
    \<open>lib/format.cc\<close>) that the program's texts reach: buffers, integers and padding, format strings, writers.
  \<^item> \<open>Sockets\<close>, \<open>Streams\<close>, \<open>SocketStream\<close>, \<open>GzStream\<close>: \<open>socket/\<close>, \<open>stream/\<close>, \<open>gzstream.h\<close> and \<open>gzstream.C\<close>; the operating
    system's and zlib's answers are arguments.
  \<^item> \<open>Daemon\<close>: \<open>linux_daemon.h\<close> and \<open>main.cpp\<close>.
  \<^item> \<open>Spsc\<close>, \<open>SpscQueue\<close>: \<open>ReaderWriterQueue\<close> (\<open>queue/moodycamel/readerwriterqueue.h\<close>) on an explicit heap of
    blocks, and its contract; \<open>SpscSteps\<close>, \<open>SpscRuns\<close>: its producer and consumer interleaved, one access to a
    shared variable at a time (the invariant \<open>conc_inv\<close>: undo what is under way and it is a queue); \<open>Semaphore\<close>: the semaphores of \<open>atomicops.h\<close> and \<open>BlockingReaderWriterQueue\<close>;
    \<open>MpmcQueue\<close>: \<open>blockingconcurrentqueue.h\<close> with any number of threads, over the contract of the \<open>ConcurrentQueue\<close>
    inside; \<open>FreeList\<close>, \<open>Tickets\<close>: two parts of \<open>concurrentqueue.h\<close>, the lock-free list of spare blocks and the four
    counters through which the consumers share what a producer enqueues. These queues come with the repository; the
    includes that would put them in place of \<open>SafeQueue\<close> are commented out.
  \<^item> This theory: the sensor with a file as its sink, from the trace to the lines of the file.

  \<^bold>\<open>How state and effects are modelled.\<close> Objects are records with the members of the class. An operation that can
  fault (undefined behaviour, an exception, a failed assertion) returns \<open>fault + 'a\<close>. Threads are program points
  in a state with step relations, one rule per atomic action; a run is the reflexive and transitive closure.
  Integers have the width of the code where it can show: words in \<open>Base64\<close>, \<open>FmtInt\<close> and \<open>Spsc\<close>, explicit
  conversions (\<open>to_int32\<close>, \<open>to_int16\<close>, \<open>size_sub\<close>) elsewhere. Pointers are offsets, or addresses into a map. What
  uninitialised memory holds is an argument, called \<open>junk\<close>.

  \<^bold>\<open>What the lemmas show.\<close> Delivery: with a sink that does not throw, every schedule ends, with one record per event
  in order, and \<open>finished\<close> is set only then; the safe queue loses neither messages nor wake-ups. Parsing: the
  splitters and the column parser on well-formed lines, and what happens on others. Round trips: base64, the
  socket frames, the record texts, the pid file, compressed streams. The lock-free queues refine a list and a bag
  (\<open>fifo_run\<close>, \<open>bcq_ok\<close>): order, capacity, exact counts, no lost wake-up, every block freed once; \<open>ReaderWriterQueue\<close> also
  when its threads interleave inside the operations, and then it is wait-free. The free list never gives a node to
  two threads (\<open>fl_ok\<close> says where each node is), and tickets are claimed in order (\<open>tk_counts\<close>). The formatting
  library writes what the format string says. The rest are errors of the code, each with a theorem that exhibits it.

  \<^bold>\<open>Interfaces.\<close> \<open>decimal_loop\<close> (the two decimal parsers), \<open>bulk_fifo\<close> (\<open>SafeQueue\<close>, \<open>message_queue\<close>), \<open>growable\<close>
  with \<open>total_growable\<close> and \<open>char_growable\<close> (the buffers), \<open>line_sink\<close> (console and file) and \<open>inner_queue\<close> (what a
  blocking queue needs of the queue inside) are locales, each interpreted on the model's own operations.

  \<^bold>\<open>Bounds and fuel.\<close> Loops that are not structural have termination proofs. The loops whose end depends on the data
  are \<open>partial_function (option)\<close>: \<open>size_loop\<close>, \<open>destroy_slots\<close>, \<open>destroy_blocks\<close> and \<open>read_all\<close>, and it is proved
  that they return. The trace is shorter than \<open>2 ^ 62\<close> characters where \<open>size_t\<close> arithmetic matters. The free list is for
  fewer than \<open>2 ^ 31 - 2\<close> threads (its reference count has 31 bits), \<open>Tickets\<close> for fewer than \<open>2 ^ 63\<close> objects and
  tickets (an assertion of the code compares the counters as plain numbers).

  \<^bold>\<open>Not modelled.\<close> The rest of \<open>queue/moodycamel/concurrentqueue.h\<close> (vendored; its documented contract
  stands for it in \<open>MpmcQueue\<close>): the block index, producers with tokens, bulk enqueue, the list and the hash of
  producers; interleavings inside \<open>peek\<close>, \<open>pop\<close> and \<open>size_approx\<close> of \<open>ReaderWriterQueue\<close>, and weak
  memory (memory is sequentially consistent); \<open>single_sensor.h\<close> (a template that cannot be instantiated) and \<open>parallel_worker.h\<close>;
  \<open>utils/json.hpp\<close> (vendored, unused); floating point, \<open>printf\<close>, wide characters and colours of the formatting
  library; Windows and Mach code; the kernel, zlib and the standard library, of which the documented behaviour is
  written out where the code uses it.
\<close>

section \<open>The sensor with a file\<close>

text \<open>
  \<open>sensor -o\<close>: the sink of the pipeline is a \<open>file_stream\<close>. A record holds an \<open>int\<close> and a \<open>short\<close>; the
  sink sees the values these types can hold.
\<close>

definition machine_record :: "sys_params_record \<Rightarrow> sys_params_record" where
  "machine_record r = r\<lparr>rec_pid := to_int32 (rec_pid r), rec_syscall := to_int16 (rec_syscall r)\<rparr>"

definition file_sink :: "char \<Rightarrow> sys_params_record list \<Rightarrow> out_file \<Rightarrow> out_file \<times> string option" where
  "file_sink junk rs f =
     (case file_dispatch junk (map machine_record rs) f of (f', e) \<Rightarrow> (f', map_option (\<lambda>_. ''exception'') e))"

lemma to_int32_bounds: "in_int32 (to_int32 x)"
  using pos_mod_bound [of "2 ^ 32" "x + 2 ^ 31"] pos_mod_sign [of "2 ^ 32" "x + 2 ^ 31"]
  by (simp add: to_int32_def in_int32_def)

lemma machine_record_ok: "list_all record_ok (map machine_record rs)"
  using to_int32_bounds to_int16_bounds by (auto simp: list_all_iff record_ok_def machine_record_def)

lemma file_sink_quiet: "never_throws (file_sink junk)"
  by (simp add: never_throws_def file_sink_def file_dispatch_def append_lines_text [OF machine_record_ok])

lemma file_sink_all:
  "of_open f \<Longrightarrow> of_content (dispatch_all (file_sink junk) packs f) =
     of_content f @ concat (map (\<lambda>r. params_text r @ [CHR 0x0A]) (map machine_record (concat packs)))"
proof -
  have "dispatch_all (file_sink junk) packs f =
      foldl (\<lambda>st pack. fst (file_dispatch junk pack st)) f (map (map machine_record) packs)"
    by (simp add: dispatch_all_def foldl_map file_sink_def case_prod_beta)
  moreover have "list_all (list_all record_ok) (map (map machine_record) packs)"
    using machine_record_ok by (auto simp: list_all_iff)
  ultimately show "of_open f \<Longrightarrow> ?thesis"
    using file_out.packs_append [of f "map (map machine_record) packs" junk] by (simp add: map_concat)
qed

lemma item_records_machine: "list_all item_ok ts \<Longrightarrow> map machine_record (concat (map item_records ts)) = concat (map item_records ts)"
proof (induction ts)
  case (Cons t ts)
  then show ?case by (cases t) (auto simp: entry_record_def machine_record_def trace_entry_ok_def)
qed simp



end
